(* ===== verification/Prelude.thy ===== *)
theory Prelude
  imports Main "HOL-Library.Word" "HOL-Library.List_Lexorder" "HOL-Library.AList"
    "HOL-Library.Monad_Syntax" "HOL-Library.Char_ord"
begin

text \<open>
  Shared vocabulary of the development: the machine types of the Go sources, slices and in-place
  writes of byte buffers, the fixed-width integer encodings of \<open>encoding/binary\<close>, the
  checksum of \<open>hash/crc32\<close>, the error values of the storage engine, and the generic lemmas on
  lists, options, association lists and words on which the component theories rest.

  A Go \<open>[]byte\<close> or \<open>string\<close> is a list of bytes. Go compares strings
  lexicographically by byte, which is the order that \<open>List_Lexorder\<close> gives to
  lists of words. A Go \<open>map\<close> that the code iterates over is an association list with
  distinct keys (\<open>AList.update\<close>, \<open>AList.delete\<close>, \<open>map_of\<close>).
\<close>

unbundle bit_operations_syntax

section \<open>Machine types\<close>

type_synonym byte = "8 word"
type_synonym u32 = "32 word"
type_synonym u64 = "64 word"
type_synonym bytes = "8 word list"

named_theorems codec "equations that compute encodings and decodings of fixed layouts"
named_theorems evals "equations that evaluate the model on concrete inputs"

section \<open>Error values\<close>

text \<open>
  One constructor per error value of the packages \<open>engine\<close>, \<open>proto\<close> and \<open>client\<close>;
  \<open>EOF\<close> and \<open>ErrUnexpectedEOF\<close> are those of the package \<open>io\<close>. \<open>ErrIO\<close> stands for an
  error that the operating system returned, \<open>ErrOther\<close> for the anonymous errors the
  code builds with \<open>errors.New\<close> or \<open>fmt.Errorf\<close> and never compares against, and
  \<open>Panic\<close> for a run-time panic (slice bounds, nil dereference).
\<close>

datatype error =
    ErrCorrupt | errShort
  | ErrKeyNotFound | ErrClosed | ErrEmptyKey | ErrKeyTooLarge | ErrValueTooLong
  | ErrBatchLen | ErrLocked | ErrNeedFullSync | errFileGone
  | ErrNotExist | ErrIO | ErrOther string | Panic
  | EOF | ErrUnexpectedEOF | ErrFrameTooLarge | ErrMalformed | ErrTrailing nat
  | ErrNoNodes | RemoteError "8 word list"

section \<open>Buffers\<close>

text \<open>\<open>b[i:j]\<close>, and the write of a byte string over \<open>b[i:]\<close>.\<close>

definition bslice :: "nat \<Rightarrow> nat \<Rightarrow> 'a list \<Rightarrow> 'a list" where
  "bslice i j xs = take (j - i) (drop i xs)"

definition put_at :: "nat \<Rightarrow> 'a list \<Rightarrow> 'a list \<Rightarrow> 'a list" where
  "put_at i xs buf = take i buf @ xs @ drop (i + length xs) buf"

lemma length_bslice [simp]: "length (bslice i j xs) = min (length xs - i) (j - i)"
  by (auto simp: bslice_def min_def)

lemma length_put_at: "i + length xs \<le> length buf \<Longrightarrow> length (put_at i xs buf) = length buf"
  by (simp add: put_at_def)

lemma put_at_append:
  "length a = i \<Longrightarrow> length b = length xs \<Longrightarrow> put_at i xs (a @ b @ c) = a @ xs @ c"
  by (simp add: put_at_def)

lemma bslice_append_drop: "i \<le> j \<Longrightarrow> bslice i j xs @ drop j xs = drop i xs"
  by (metis append_take_drop_id drop_drop le_add_diff_inverse2 bslice_def)

lemma bslice_0 [simp]: "bslice 0 j xs = take j xs"
  by (simp add: bslice_def)

lemma bslice_mid:
  "length a = i \<Longrightarrow> i + length b = j \<Longrightarrow> bslice i j (a @ b @ c) = b"
  by (auto simp: bslice_def)

lemma bslice_append1: "j \<le> length xs \<Longrightarrow> bslice i j (xs @ ys) = bslice i j xs"
  by (auto simp: bslice_def)

lemma bslice_append2: "length xs \<le> i \<Longrightarrow> bslice i j (xs @ ys) = bslice (i - length xs) (j - length xs) ys"
  by (auto simp: bslice_def)

lemma bslice_take: "j \<le> n \<Longrightarrow> bslice i j (take n xs) = bslice i j xs"
  by (simp add: bslice_def drop_take min_def)

lemma filter_eq_ConsD: "filter P xs = y # ys \<Longrightarrow> P y \<and> y \<in> set xs"
  by (induction xs) (auto split: if_splits)

lemma map_of_eq_listing:
  "map fst xs = map fst ys \<Longrightarrow> distinct (map fst xs) \<Longrightarrow> map_of xs = map_of ys \<Longrightarrow> xs = ys"
proof (induction xs arbitrary: ys)
  case (Cons x xs)
  then obtain y ys' where ys: "ys = y # ys'" by (cases ys) auto
  with Cons.prems have "fst x = fst y" by simp
  moreover from this have "snd x = snd y"
    using fun_cong [OF Cons.prems(3), of "fst x"] by (simp add: ys)
  moreover have "map_of xs = map_of ys'"
  proof
    fix k
    have "fst x \<notin> set (map fst xs)" "fst x \<notin> set (map fst ys')"
      using Cons.prems(1,2) by (simp_all add: ys)
    then have "map_of xs (fst x) = None" "map_of ys' (fst x) = None"
      by (simp_all add: map_of_eq_None_iff)
    then show "map_of xs k = map_of ys' k"
      using fun_cong [OF Cons.prems(3), of k] \<open>fst x = fst y\<close> by (cases "k = fst x") (simp_all add: ys)
  qed
  ultimately show ?case using Cons ys by (simp add: prod_eq_iff)
qed simp

section \<open>Fixed-width integers\<close>

text \<open>
  \<open>binary.LittleEndian.PutUint32/64\<close> and \<open>Uint32/64\<close>, for any number of bytes; the
  big-endian versions reverse the bytes.
\<close>

primrec le_bytes :: "nat \<Rightarrow> 'a::len word \<Rightarrow> bytes" where
  "le_bytes 0 w = []"
| "le_bytes (Suc n) w = ucast w # le_bytes n (drop_bit 8 w)"

primrec le_word :: "bytes \<Rightarrow> 'a::len word" where
  "le_word [] = 0"
| "le_word (b # bs) = ucast b OR push_bit 8 (le_word bs)"

definition be_bytes :: "nat \<Rightarrow> 'a::len word \<Rightarrow> bytes" where
  "be_bytes n w = rev (le_bytes n w)"

definition be_word :: "bytes \<Rightarrow> 'a::len word" where
  "be_word bs = le_word (rev bs)"

lemma le_bytes_numeral [evals]:
  "le_bytes (numeral n) w = ucast w # le_bytes (pred_numeral n) (drop_bit 8 w)"
  by (simp add: numeral_eq_Suc)

lemma length_le_bytes [simp, codec]: "length (le_bytes n w) = n"
  by (induction n arbitrary: w) auto

lemma length_be_bytes [simp, codec]: "length (be_bytes n w) = n"
  by (simp add: be_bytes_def)

lemma le_word_le_bytes_take_bit: "le_word (le_bytes n w) = take_bit (8 * n) w"
proof (induction n arbitrary: w)
  case (Suc n)
  show ?case
    by (rule bit_word_eqI) (auto simp: Suc.IH bit_simps)
qed simp

lemma le_word_le_bytes [codec]:
  "LENGTH('a) \<le> 8 * n \<Longrightarrow> le_word (le_bytes n (w :: 'a::len word)) = w"
  by (simp add: le_word_le_bytes_take_bit take_bit_word_eq_self)

lemma le_bytes_inj [codec]:
  "LENGTH('a) \<le> 8 * n \<Longrightarrow> le_bytes n a = le_bytes n b \<longleftrightarrow> a = (b :: 'a::len word)"
  by (metis le_word_le_bytes)

lemma le_word_top: "bit (le_word bs :: 'a::len word) k \<Longrightarrow> k < 8 * length bs"
proof (induction bs arbitrary: k)
  case (Cons c cs)
  then have "k < 8 \<or> bit (le_word cs :: 'a word) (k - 8)"
    by (auto simp: bit_simps dest: bit_imp_le_length)
  then show ?case using Cons.IH [of "k - 8"] by auto
qed simp

lemma le_bytes_le_word:
  "length bs = n \<Longrightarrow> 8 * n \<le> LENGTH('a) \<Longrightarrow> le_bytes n (le_word bs :: 'a::len word) = bs"
proof (induction bs arbitrary: n)
  case (Cons b bs)
  then obtain m where n: "n = Suc m" "length bs = m" by (cases n) auto
  have lo: "ucast (ucast b OR push_bit 8 (le_word bs) :: 'a word) = b"
    using Cons.prems n by (intro bit_word_eqI) (auto simp: bit_simps)
  have hi: "drop_bit 8 (ucast b OR push_bit 8 (le_word bs) :: 'a word) = le_word bs"
    using Cons.prems n
    by (intro bit_word_eqI) (fastforce simp: bit_simps dest: bit_imp_le_length le_word_top)
  show ?case using Cons.IH [of m] Cons.prems n lo hi by simp
qed simp

lemma be_word_be_bytes [codec]:
  "LENGTH('a) \<le> 8 * n \<Longrightarrow> be_word (be_bytes n (w :: 'a::len word)) = w"
  by (simp add: be_word_def be_bytes_def le_word_le_bytes)

lemma be_bytes_be_word:
  "length bs = n \<Longrightarrow> 8 * n \<le> LENGTH('a) \<Longrightarrow> be_bytes n (be_word bs :: 'a::len word) = bs"
  by (simp add: be_word_def be_bytes_def le_bytes_le_word)

lemma xor_right_cancel [simp]: "a XOR m = b XOR m \<longleftrightarrow> a = (b :: 'a::len word)"
  by (metis xor.right_neutral xor_self_eq xor.assoc)

lemma xor_left_cancel [simp]: "m XOR a = m XOR b \<longleftrightarrow> a = (b :: 'a::len word)"
  by (metis xor_right_cancel xor.commute)

lemma word_and_not_id: "w AND m = 0 \<Longrightarrow> w AND NOT m = (w :: 'a::len word)"
  by (rule bit_word_eqI) (metis bit_and_iff bit_not_iff bit_0_eq bot_apply bot_bool_def bit_imp_possible_bit)

lemma unat_of_nat_u32 [simp]: "n < 2 ^ 32 \<Longrightarrow> unat (of_nat n :: u32) = n"
  by (simp add: unat_of_nat)

lemma of_nat_u32_inj: "m < 2 ^ 32 \<Longrightarrow> n < 2 ^ 32 \<Longrightarrow> of_nat m = (of_nat n :: u32) \<longleftrightarrow> m = n"
  by (metis unat_of_nat_u32)

lemma unat_of_nat_u64: "n < 2 ^ 64 \<Longrightarrow> unat (of_nat n :: u64) = n"
  by (simp add: unat_of_nat)

lemma unat_u32_bound: "unat (w :: u32) < 4294967296"
  using unsigned_less [of w] by simp

section \<open>Runs\<close>

text \<open>An invariant of a step relation holds along its runs.\<close>

locale kept =
  fixes step :: "'s \<Rightarrow> 's \<Rightarrow> bool"
    and inv :: "'s \<Rightarrow> bool"
  assumes step_inv: "step s t \<Longrightarrow> inv s \<Longrightarrow> inv t"
begin

lemma run_inv: "step\<^sup>*\<^sup>* s t \<Longrightarrow> inv s \<Longrightarrow> inv t"
  by (induction rule: rtranclp_induct) (auto intro: step_inv)

end

text \<open>
  Steps that move along a transitive relation as long as the states are \<open>good\<close>: any two states of a
  run are related.
\<close>

locale ordered_steps =
  fixes step :: "'s \<Rightarrow> 's \<Rightarrow> bool"
    and rel :: "'s \<Rightarrow> 's \<Rightarrow> bool"
    and good :: "'s \<Rightarrow> bool"
  assumes step_rel: "step s t \<Longrightarrow> good t \<Longrightarrow> rel s t"
    and rel_trans: "rel s t \<Longrightarrow> rel t u \<Longrightarrow> rel s u"
begin

lemma listed_rel:
  assumes "successively step ss" and "\<forall>s \<in> set ss. good s" and "i < j" and "j < length ss"
  shows "rel (ss ! i) (ss ! j)"
proof -
  have "successively rel ss" by (rule successively_mono [OF assms(1)]) (use step_rel assms(2) in blast)
  moreover have "transp rel" by (rule transpI) (rule rel_trans)
  ultimately have "sorted_wrt rel ss" by (simp add: successively_conv_sorted_wrt)
  then show ?thesis using assms(3,4) by (simp add: sorted_wrt_iff_nth_less)
qed

end

text \<open>What a state is related to stays so: the contract above gives an invariant.\<close>

sublocale ordered_steps \<subseteq> ahead: kept "\<lambda>s t. step s t \<and> good t" "rel s0" for s0
  by unfold_locales (blast intro: step_rel rel_trans)

end
