(* ===== verification/Crc32.thy ===== *)
theory Crc32
  imports Prelude
begin

text \<open>
  The checksum \<open>crc32.ChecksumIEEE\<close> of Go's standard library, bit by bit (reflected
  polynomial \<open>0xEDB88320\<close>, initial value and final complement of all ones), and the error
  detection that the log relies on: two messages of the same length that differ inside four
  consecutive bytes have different checksums.
\<close>

section \<open>Definition\<close>

definition crc_bit :: "u32 \<Rightarrow> u32" where
  "crc_bit c = (if bit c 0 then drop_bit 1 c XOR 0xEDB88320 else drop_bit 1 c)"

definition crc_byte :: "u32 \<Rightarrow> byte \<Rightarrow> u32" where
  "crc_byte c b =
     crc_bit (crc_bit (crc_bit (crc_bit (crc_bit (crc_bit (crc_bit (crc_bit (c XOR ucast b))))))))"

definition ChecksumIEEE :: "bytes \<Rightarrow> u32" where
  "ChecksumIEEE bs = NOT (foldl crc_byte 0xFFFFFFFF bs)"

lemmas crc_evals [evals] = ChecksumIEEE_def crc_byte_def crc_bit_def

text \<open>The check value of the algorithm: the checksum of the ASCII digits 1 to 9.\<close>

lemma ChecksumIEEE_check_value:
  "ChecksumIEEE [0x31, 0x32, 0x33, 0x34, 0x35, 0x36, 0x37, 0x38, 0x39] = 0xCBF43926"
  by (simp add: evals)

section \<open>Linearity and injectivity\<close>

lemma poly_top: "bit (0xEDB88320 :: u32) 31"
  by simp

lemma crc_bit_xor: "crc_bit (a XOR b) = crc_bit a XOR crc_bit b"
  by (simp add: crc_bit_def bit_simps drop_bit_xor ac_simps)

lemma crc_bit_inj: "crc_bit a = crc_bit b \<longleftrightarrow> a = b"
proof
  assume eq: "crc_bit a = crc_bit b"
  have top: "bit (crc_bit c) 31 = bit c 0" for c :: u32
    using poly_top by (auto simp: crc_bit_def bit_simps dest: bit_imp_le_length)
  have lsb: "bit a 0 = bit b 0"
    using top [of a] top [of b] eq by simp
  then have "drop_bit 1 a = drop_bit 1 b"
    using eq by (cases "bit a 0") (auto simp: crc_bit_def)
  then have "bit a (Suc n) = bit b (Suc n)" for n
    by (metis bit_drop_bit_eq comp_apply plus_1_eq_Suc)
  with lsb show "a = b"
    by (intro bit_word_eqI) (metis not0_implies_Suc)
qed simp

lemma crc_bits_inj: "(crc_bit ^^ n) a = (crc_bit ^^ n) b \<longleftrightarrow> a = b"
  by (induction n) (simp_all add: crc_bit_inj)

lemma crc_bits_xor: "(crc_bit ^^ n) (a XOR b) = (crc_bit ^^ n) a XOR (crc_bit ^^ n) b"
  by (induction n) (simp_all add: crc_bit_xor)

lemma crc_byte_funpow: "crc_byte c b = (crc_bit ^^ 8) (c XOR ucast b)"
  by (simp add: crc_byte_def eval_nat_numeral)

lemma crc_byte_inj: "crc_byte a b = crc_byte c b \<longleftrightarrow> a = c"
  by (simp add: crc_byte_funpow crc_bits_inj)

lemma crc_bytes_inj: "foldl crc_byte a bs = foldl crc_byte c bs \<longleftrightarrow> a = c"
  by (induction bs arbitrary: a c) (simp_all add: crc_byte_inj)

text \<open>A word whose low bits are clear is only shifted.\<close>

lemma crc_bits_push_bit:
  "(\<And>k. bit x k \<Longrightarrow> k + n < 32) \<Longrightarrow> (crc_bit ^^ n) (push_bit n x) = x"
proof (induction n)
  case (Suc n)
  have "drop_bit 1 (push_bit (Suc n) x) = push_bit n x"
  proof (rule bit_word_eqI)
    fix m assume "m < LENGTH(32)"
    then show "bit (drop_bit 1 (push_bit (Suc n) x)) m = bit (push_bit n x) m"
      using Suc.prems [of "m - n"] by (auto simp: bit_simps simp del: push_bit_Suc)
  qed
  then have "crc_bit (push_bit (Suc n) x) = push_bit n x"
    by (simp add: crc_bit_def bit_simps del: push_bit_Suc)
  moreover have "\<And>k. bit x k \<Longrightarrow> k + n < 32"
    using Suc.prems by fastforce
  ultimately show ?case
    using Suc.IH by (simp add: funpow_swap1 del: push_bit_Suc)
qed simp

text \<open>Up to four bytes are absorbed at once, as one little-endian word.\<close>

lemma crc_bytes_word:
  "length bs \<le> 4 \<Longrightarrow> foldl crc_byte c bs = (crc_bit ^^ (8 * length bs)) (c XOR le_word bs)"
proof (induction bs arbitrary: c)
  case (Cons b bs)
  have small: "bit (le_word bs :: u32) k \<Longrightarrow> k + 8 < 32" for k
    using Cons.prems le_word_top [of bs k] by (fastforce dest: bit_imp_le_length)
  have split: "c XOR le_word (b # bs) = (c XOR ucast b) XOR push_bit 8 (le_word bs :: u32)"
    by (rule bit_word_eqI) (auto simp: bit_simps dest: bit_imp_le_length)
  have "foldl crc_byte c (b # bs)
      = (crc_bit ^^ (8 * length bs)) (crc_byte c b XOR le_word bs)"
    using Cons by simp
  moreover have "crc_byte c b XOR le_word bs = (crc_bit ^^ 8) (c XOR le_word (b # bs))"
    by (simp only: split crc_bits_xor crc_bits_push_bit [OF small] crc_byte_funpow)
  moreover have "8 * length (b # bs) = 8 * length bs + 8" by simp
  ultimately show ?case by (simp only: funpow_add comp_apply)
qed simp

lemma le_word_inj:
  assumes "length bs = length cs" and "length bs \<le> 4" and "le_word bs = (le_word cs :: u32)"
  shows "bs = cs"
proof -
  have "8 * length bs \<le> LENGTH(32)" using assms(2) by simp
  then show ?thesis
    using assms(1,3) by (metis le_bytes_le_word)
qed

lemma ChecksumIEEE_burst:
  assumes "length bs = length cs" and "length bs \<le> 4"
  shows "ChecksumIEEE (a @ bs @ z) = ChecksumIEEE (a @ cs @ z) \<longleftrightarrow> bs = cs"
proof
  assume "ChecksumIEEE (a @ bs @ z) = ChecksumIEEE (a @ cs @ z)"
  then have "foldl crc_byte (foldl crc_byte 0xFFFFFFFF a) bs
      = foldl crc_byte (foldl crc_byte 0xFFFFFFFF a) cs"
    by (simp add: ChecksumIEEE_def crc_bytes_inj)
  then have "foldl crc_byte 0xFFFFFFFF a XOR le_word bs
      = foldl crc_byte 0xFFFFFFFF a XOR (le_word cs :: u32)"
    using assms by (simp add: crc_bytes_word crc_bits_inj)
  then have "le_word bs = (le_word cs :: u32)"
    by simp
  with assms show "bs = cs" by (blast intro: le_word_inj)
qed simp

end
