(* ===== verification/Log_Record.thy ===== *)
theory Log_Record
  imports Crc32
begin

text \<open>
  The record codec of the log, \<open>internal/engine/record.go\<close>: the 29-byte header, encoding,
  checked decoding, the forward scan of a data file and the removal of batch markers.

  \<open>encode\<close> is the reference layout (checksum, then body). The lemmas show that
  \<open>appendRecord\<close> produces it, that \<open>decodeRecord\<close> inverts it and accepts nothing else, that
  a scan visits exactly the intact records at the front of a file and stops at the first torn
  or damaged one, and that damage inside four consecutive bytes of a body is always detected.
\<close>

section \<open>Layout and flags\<close>

definition recordHeaderSize :: nat where
  "recordHeaderSize = 29"

definition flagTombstone :: byte where "flagTombstone = 1"
definition flagBatch :: byte where "flagBatch = 2"
definition flagBatchEnd :: byte where "flagBatchEnd = 4"

definition MaxKeySize :: nat where "MaxKeySize = 65536"
definition MaxValueSize :: nat where "MaxValueSize = 268435456"

lemmas record_consts [evals] =
  recordHeaderSize_def flagTombstone_def flagBatch_def flagBatchEnd_def
  MaxKeySize_def MaxValueSize_def

text \<open>
  The struct \<open>record\<close>. The timestamp is an \<open>int64\<close>; it is only ever converted to and from
  \<open>uint64\<close>, which keeps its bits, so it is a 64-bit word here.
\<close>

record krecord =
  ts :: u64
  rseq :: u64
  flags :: byte
  key :: bytes
  val :: bytes

definition tombstone :: "krecord \<Rightarrow> bool" where
  "tombstone r = (flags r AND flagTombstone \<noteq> 0)"

definition encodedSize :: "nat \<Rightarrow> nat \<Rightarrow> u32" where
  "encodedSize keyLen valLen = of_nat (recordHeaderSize + keyLen + valLen)"

section \<open>Encoding and decoding\<close>

text \<open>
  \<open>appendRecord\<close> extends \<open>dst\<close> by a zeroed header, the key and the value, fills in the header
  fields in place, and writes the checksum of everything after the first four bytes last.
\<close>

definition appendRecord :: "bytes \<Rightarrow> krecord \<Rightarrow> bytes" where
  "appendRecord dst r =
     (let buf = replicate recordHeaderSize 0 @ key r @ val r;
          buf = put_at 4 (le_bytes 8 (ts r)) buf;
          buf = put_at 12 (le_bytes 8 (rseq r)) buf;
          buf = put_at 20 [flags r] buf;
          buf = put_at 21 (le_bytes 4 (of_nat (length (key r)) :: u32)) buf;
          buf = put_at 25 (le_bytes 4 (of_nat (length (val r)) :: u32)) buf;
          buf = put_at 0 (le_bytes 4 (ChecksumIEEE (drop 4 buf))) buf
      in dst @ buf)"

text \<open>
  \<open>recordHeaderSize + keyLen\<close> is computed in \<open>uint32\<close>, as the operand \<open>keyLen\<close> has that
  type; a bslice whose upper bound is below its lower bound panics.
\<close>

definition decodeRecord :: "bytes \<Rightarrow> error + krecord" where
  "decodeRecord buf =
     (if length buf < recordHeaderSize then Inl errShort
      else
        let keyLen = le_word (bslice 21 25 buf) :: u32;
            valLen = le_word (bslice 25 29 buf) :: u32
        in
        if recordHeaderSize + unat keyLen + unat valLen \<noteq> length buf then Inl ErrCorrupt
        else if le_word (bslice 0 4 buf) \<noteq> ChecksumIEEE (drop 4 buf) then Inl ErrCorrupt
        else
          let hi = unat (of_nat recordHeaderSize + keyLen) in
          if hi < recordHeaderSize then Inl Panic
          else Inr \<lparr> ts = le_word (bslice 4 12 buf), rseq = le_word (bslice 12 20 buf),
                     flags = buf ! 20, key = bslice recordHeaderSize hi buf,
                     val = drop hi buf \<rparr>)"

text \<open>
  \<open>scanFile\<close>: the callback gets the offset, the raw record and the decoded record, updates a
  state of its own and may return an error. The file is the result of \<open>os.Open\<close>; a read
  that cannot be filled ends the scan, as a clean end of file does.
\<close>

type_synonym 's visitor = "nat \<Rightarrow> bytes \<Rightarrow> krecord \<Rightarrow> 's \<Rightarrow> error option \<times> 's"

function scan_loop :: "'s visitor \<Rightarrow> nat \<Rightarrow> bytes \<Rightarrow> 's \<Rightarrow> nat \<times> error option \<times> 's" where
  "scan_loop fn pos rest st =
     (if length rest < recordHeaderSize then (pos, None, st)
      else
        let keyLen = unat (le_word (bslice 21 25 rest) :: u32);
            valLen = unat (le_word (bslice 25 29 rest) :: u32)
        in
        if keyLen = 0 \<or> keyLen > MaxKeySize \<or> valLen > MaxValueSize then (pos, None, st)
        else
          let size = recordHeaderSize + keyLen + valLen in
          if length rest < size then (pos, None, st)
          else
            let buf = take size rest in
            (case decodeRecord buf of
               Inl _ \<Rightarrow> (pos, None, st)
             | Inr rec \<Rightarrow>
                 (case fn pos buf rec st of
                    (Some e, st') \<Rightarrow> (pos, Some e, st')
                  | (None, st') \<Rightarrow> scan_loop fn (pos + size) (drop size rest) st')))"
  by pat_completeness auto
termination
  by (relation "measure (\<lambda>(fn, pos, rest, st). length rest)") (auto simp: recordHeaderSize_def)

declare scan_loop.simps [simp del]

definition scanFile :: "error + bytes \<Rightarrow> 's visitor \<Rightarrow> 's \<Rightarrow> nat \<times> error option \<times> 's" where
  "scanFile file fn st =
     (case file of Inl e \<Rightarrow> (0, Some e, st) | Inr bs \<Rightarrow> scan_loop fn 0 bs st)"

definition clearBatchFlags :: "bytes \<Rightarrow> bytes" where
  "clearBatchFlags raw =
     (if length raw < recordHeaderSize \<or> raw ! 20 AND (flagBatch OR flagBatchEnd) = 0 then raw
      else
        let out = raw[20 := raw ! 20 AND NOT (flagBatch OR flagBatchEnd)]
        in put_at 0 (le_bytes 4 (ChecksumIEEE (drop 4 out))) out)"

section \<open>The reference layout\<close>

definition body :: "krecord \<Rightarrow> bytes" where
  "body r = le_bytes 8 (ts r) @ le_bytes 8 (rseq r) @ [flags r] @
     le_bytes 4 (of_nat (length (key r)) :: u32) @ le_bytes 4 (of_nat (length (val r)) :: u32) @
     key r @ val r"

definition encode :: "krecord \<Rightarrow> bytes" where
  "encode r = le_bytes 4 (ChecksumIEEE (body r)) @ body r"

text \<open>Records the write path accepts: a key and a value within the limits.\<close>

definition wf_rec :: "krecord \<Rightarrow> bool" where
  "wf_rec r \<longleftrightarrow> 0 < length (key r) \<and> length (key r) \<le> MaxKeySize \<and> length (val r) \<le> MaxValueSize"

definition rec_size :: "krecord \<Rightarrow> nat" where
  "rec_size r = recordHeaderSize + length (key r) + length (val r)"

lemma length_body [simp]: "length (body r) = 25 + length (key r) + length (val r)"
  by (simp add: body_def)

lemma length_encode [simp]: "length (encode r) = rec_size r"
  by (simp add: encode_def rec_size_def recordHeaderSize_def)

lemma rec_size_pos [simp]: "0 < rec_size r"
  by (simp add: rec_size_def recordHeaderSize_def)

lemma encode_not_Nil [simp]: "encode r \<noteq> []"
  using length_encode [of r] rec_size_pos [of r] by (metis less_not_refl list.size(3))

lemma wf_rec_bounds:
  assumes "wf_rec r"
  shows "length (key r) < 2 ^ 32" and "length (val r) < 2 ^ 32" and "rec_size r < 2 ^ 32"
  using assms by (simp_all add: wf_rec_def rec_size_def record_consts)

lemma wf_rec_encodedSize: "wf_rec r \<Longrightarrow> unat (encodedSize (length (key r)) (length (val r))) = rec_size r"
  using wf_rec_bounds(3) [of r] unfolding encodedSize_def rec_size_def
  by (simp only: unat_of_nat_u32)

lemma appendRecord_encode: "appendRecord dst r = dst @ encode r"
proof -
  have 0: "replicate recordHeaderSize (0::byte) @ key r @ val r =
      replicate 4 0 @ replicate 8 0 @ replicate 8 0 @ [0] @ replicate 4 0 @ replicate 4 0 @ key r @ val r"
    by (simp add: recordHeaderSize_def replicate_add [symmetric] flip: append_assoc replicate_append_same)
       (simp add: eval_nat_numeral)
  show ?thesis
    unfolding appendRecord_def Let_def 0
    by (simp add: put_at_def body_def encode_def)
qed


section \<open>Round trips\<close>

text \<open>The fields of a header, read back out of an encoded record followed by anything.\<close>

lemma encode_fields:
  "bslice 0 4 (encode r @ zs) = le_bytes 4 (ChecksumIEEE (body r))"
  "bslice 4 12 (encode r @ zs) = le_bytes 8 (ts r)"
  "bslice 12 20 (encode r @ zs) = le_bytes 8 (rseq r)"
  "(encode r @ zs) ! 20 = flags r"
  "bslice 21 25 (encode r @ zs) = le_bytes 4 (of_nat (length (key r)) :: u32)"
  "bslice 25 29 (encode r @ zs) = le_bytes 4 (of_nat (length (val r)) :: u32)"
  by (simp_all add: encode_def body_def bslice_def nth_append)

lemma encode_payload:
  "drop 4 (encode r) = body r"
  "bslice 29 (29 + length (key r)) (encode r) = key r"
  "drop (29 + length (key r)) (encode r) = val r"
proof -
  define h where "h = le_bytes 4 (ChecksumIEEE (body r)) @ le_bytes 8 (ts r) @ le_bytes 8 (rseq r) @
    [flags r] @ le_bytes 4 (of_nat (length (key r)) :: u32) @ le_bytes 4 (of_nat (length (val r)) :: u32)"
  have e: "encode r = h @ key r @ val r" and h: "length h = 29"
    by (simp_all add: encode_def h_def) (simp add: body_def)
  show "drop 4 (encode r) = body r" by (simp add: encode_def)
  show "bslice 29 (29 + length (key r)) (encode r) = key r"
    using h by (simp add: e bslice_mid)
  show "drop (29 + length (key r)) (encode r) = val r"
    using h by (simp add: e)
qed

lemma decodeRecord_encode:
  assumes "rec_size r < 2 ^ 32"
  shows "decodeRecord (encode r) = Inr r"
proof -
  have k: "unat (of_nat (length (key r)) :: u32) = length (key r)"
    and v: "unat (of_nat (length (val r)) :: u32) = length (val r)"
    using assms by (simp_all add: rec_size_def)
  have "(29 + of_nat (length (key r)) :: u32) = of_nat (29 + length (key r))" by simp
  then have hi: "unat (29 + of_nat (length (key r)) :: u32) = 29 + length (key r)"
    using assms by (simp only: unat_of_nat_u32 rec_size_def recordHeaderSize_def)
  have "decodeRecord (encode r) =
      Inr \<lparr> ts = ts r, rseq = rseq r, flags = flags r, key = key r, val = val r \<rparr>"
    using encode_fields [of r "[]"] encode_payload [of r]
    by (simp add: decodeRecord_def k v hi le_word_le_bytes rec_size_def recordHeaderSize_def Let_def)
  then show ?thesis by simp
qed

lemma decodeRecord_sound:
  assumes "decodeRecord buf = Inr r" and "length buf < 2 ^ 32"
  shows "encode r = buf" and "rec_size r = length buf"
proof -
  let ?kl = "le_word (bslice 21 25 buf) :: u32" and ?vl = "le_word (bslice 25 29 buf) :: u32"
  have len: "29 \<le> length buf" "29 + unat ?kl + unat ?vl = length buf"
    and crc: "le_word (bslice 0 4 buf) = ChecksumIEEE (drop 4 buf)"
    and r: "r = \<lparr> ts = le_word (bslice 4 12 buf), rseq = le_word (bslice 12 20 buf),
        flags = buf ! 20, key = bslice 29 (unat (29 + ?kl)) buf, val = drop (unat (29 + ?kl)) buf \<rparr>"
    using assms(1)
    by (auto simp: decodeRecord_def recordHeaderSize_def Let_def split: if_splits)
  have hi: "unat (29 + ?kl) = 29 + unat ?kl"
    using len assms(2) by (simp add: unat_word_ariths)
  have "length (key r) = unat ?kl" and "length (val r) = unat ?vl"
    using len hi by (auto simp: r)
  then have klen: "of_nat (length (key r)) = ?kl" and vlen: "of_nat (length (val r)) = ?vl"
    by simp_all
  have "body r = bslice 4 12 buf @ bslice 12 20 buf @ [buf ! 20] @ bslice 21 25 buf @ bslice 25 29 buf
      @ bslice 29 (29 + unat ?kl) buf @ drop (29 + unat ?kl) buf"
    using len by (simp add: body_def klen vlen) (simp add: r hi le_bytes_le_word)
  also have "[buf ! 20] = bslice 20 21 buf"
    using len by (simp add: bslice_def take_Suc_conv_app_nth Cons_nth_drop_Suc [symmetric])
  finally have body: "body r = drop 4 buf"
    using len by (simp add: bslice_append_drop)
  show "encode r = buf"
    using len by (simp add: encode_def body crc [symmetric] le_bytes_le_word)
  then show "rec_size r = length buf" by (metis length_encode)
qed


section \<open>Scanning\<close>

text \<open>What a scan over whole records does: visit them in order, stop at the visitor's error.\<close>

fun visit_all :: "'s visitor \<Rightarrow> nat \<Rightarrow> krecord list \<Rightarrow> 's \<Rightarrow> nat \<times> error option \<times> 's" where
  "visit_all fn pos [] st = (pos, None, st)"
| "visit_all fn pos (r # rs) st =
     (case fn pos (encode r) r st of
        (Some e, st') \<Rightarrow> (pos, Some e, st')
      | (None, st') \<Rightarrow> visit_all fn (pos + rec_size r) rs st')"

abbreviation encode_all :: "krecord list \<Rightarrow> bytes" where
  "encode_all rs \<equiv> concat (map encode rs)"

text \<open>The bytes at the front of \<open>bs\<close> are not an intact record.\<close>

definition no_record :: "bytes \<Rightarrow> bool" where
  "no_record bs \<longleftrightarrow> (\<forall>r rest. wf_rec r \<longrightarrow> bs \<noteq> encode r @ rest)"

lemma scan_loop_record:
  assumes "wf_rec r"
  shows "scan_loop fn pos (encode r @ rest) st =
     (case fn pos (encode r) r st of
        (Some e, st') \<Rightarrow> (pos, Some e, st')
      | (None, st') \<Rightarrow> scan_loop fn (pos + rec_size r) rest st')"
proof -
  have k: "unat (le_word (bslice 21 25 (encode r @ rest)) :: u32) = length (key r)"
    and v: "unat (le_word (bslice 25 29 (encode r @ rest)) :: u32) = length (val r)"
    using wf_rec_bounds [OF assms] by (simp_all add: encode_fields le_word_le_bytes)
  have "\<not> length (encode r @ rest) < recordHeaderSize"
    by (simp add: rec_size_def)
  moreover have "\<not> (length (key r) = 0 \<or> length (key r) > MaxKeySize \<or> length (val r) > MaxValueSize)"
    using assms by (auto simp: wf_rec_def)
  moreover have "recordHeaderSize + length (key r) + length (val r) = rec_size r"
    by (simp add: rec_size_def)
  ultimately show ?thesis
    using wf_rec_bounds(3) [OF assms]
    by (subst scan_loop.simps) (simp add: k v decodeRecord_encode Let_def cong: prod.case_cong option.case_cong)
qed

lemma no_record_decode:
  assumes "no_record bs" and "29 \<le> length bs"
    and k: "k = unat (le_word (bslice 21 25 bs) :: u32)" and v: "v = unat (le_word (bslice 25 29 bs) :: u32)"
    and "k \<noteq> 0" "k \<le> MaxKeySize" "v \<le> MaxValueSize" "recordHeaderSize + k + v \<le> length bs"
  shows "decodeRecord (take (recordHeaderSize + k + v) bs) = Inl ErrCorrupt"
proof -
  let ?n = "recordHeaderSize + k + v"
  have small: "length (take ?n bs) < 2 ^ 32" using assms by (simp add: record_consts)
  show ?thesis
  proof (cases "decodeRecord (take ?n bs)")
    case (Inl e)
    have "unat (29 + (le_word (bslice 21 25 bs) :: u32)) = 29 + k"
      using assms(6) by (simp add: k unat_word_ariths record_consts)
    then show ?thesis
      using Inl assms(2,8) by (simp add: decodeRecord_def Let_def recordHeaderSize_def bslice_take k v split: if_splits)
  next
    case (Inr r)
    have "encode r = take ?n bs" using decodeRecord_sound(1) [OF Inr small] .
    then have bs: "bs = encode r @ drop ?n bs" by simp
    then have "k = unat (of_nat (length (key r)) :: u32)" and "v = unat (of_nat (length (val r)) :: u32)"
      using encode_fields(5,6) [of r "drop ?n bs"] by (simp_all add: k v le_word_le_bytes)
    moreover have "rec_size r < 2 ^ 32"
      using decodeRecord_sound(2) [OF Inr small] small by simp
    ultimately have "wf_rec r"
      using assms(5-7) by (simp add: wf_rec_def rec_size_def)
    with bs assms(1) show ?thesis by (auto simp: no_record_def)
  qed
qed

lemma scan_loop_stop:
  assumes "no_record bs"
  shows "scan_loop fn pos bs st = (pos, None, st)"
  using no_record_decode [OF assms]
  by (subst scan_loop.simps) (auto simp: Let_def recordHeaderSize_def not_less)

lemma scan_loop_encode_all:
  assumes "list_all wf_rec rs" and "no_record tail"
  shows "scan_loop fn pos (encode_all rs @ tail) st = visit_all fn pos rs st"
  using assms
  by (induction rs arbitrary: pos st)
     (auto simp: scan_loop_stop scan_loop_record split: prod.splits option.splits)

text \<open>Every byte string is a run of intact records followed by something that is not one.\<close>

lemma log_split: "\<exists>rs tail. bs = encode_all rs @ tail \<and> list_all wf_rec rs \<and> no_record tail"
proof (induction bs rule: length_induct)
  case (1 bs)
  show ?case
  proof (cases "no_record bs")
    case True
    then show ?thesis by (intro exI [of _ "[]"] exI [of _ bs]) simp
  next
    case False
    then obtain r rest where r: "wf_rec r" "bs = encode r @ rest"
      by (auto simp: no_record_def)
    then have "length rest < length bs" by simp
    with 1 obtain rs tail where "rest = encode_all rs @ tail" "list_all wf_rec rs" "no_record tail"
      by blast
    with r show ?thesis by (intro exI [of _ "r # rs"] exI [of _ tail]) simp
  qed
qed

lemma no_record_Nil [simp]: "no_record []"
  by (simp add: no_record_def)

text \<open>A record torn by a crash: any proper prefix of an encoded record.\<close>

lemma encode_prefix_eq:
  assumes "wf_rec r" "wf_rec r'" "encode r @ xs = encode r' @ ys"
  shows "r = r'" and "xs = ys"
proof -
  have "le_bytes 4 (of_nat (length (key r)) :: u32) = le_bytes 4 (of_nat (length (key r')) :: u32)"
    and "le_bytes 4 (of_nat (length (val r)) :: u32) = le_bytes 4 (of_nat (length (val r')) :: u32)"
    using encode_fields(5,6) [of r xs] encode_fields(5,6) [of r' ys] assms(3) by simp_all
  then have "length (key r) = length (key r')" and "length (val r) = length (val r')"
    using wf_rec_bounds [OF assms(1)] wf_rec_bounds [OF assms(2)]
    by (simp_all add: le_bytes_inj of_nat_u32_inj)
  then have "length (encode r) = length (encode r')" by (simp add: rec_size_def)
  with assms(3) have e: "encode r = encode r'" and "xs = ys" by simp_all
  then show "xs = ys" by blast
  show "r = r'"
    using e decodeRecord_encode wf_rec_bounds(3) assms(1,2) by (metis sum.inject(2))
qed

lemma no_record_torn:
  assumes "wf_rec r" and "encode r = torn @ lost" and "lost \<noteq> []"
  shows "no_record torn"
  unfolding no_record_def
proof (intro allI impI notI)
  fix r' rest assume "wf_rec r'" "torn = encode r' @ rest"
  then have "encode r @ [] = encode r' @ rest @ lost" using assms(2) by simp
  then have "rest @ lost = []" using encode_prefix_eq(2) [OF assms(1) \<open>wf_rec r'\<close>] by metis
  with assms(3) show False by simp
qed


lemma foldl_appendRecord: "foldl appendRecord dst rs = dst @ encode_all rs"
  by (induction rs arbitrary: dst) (simp_all add: appendRecord_encode)

section \<open>Batch markers\<close>

abbreviation batch_flags :: byte where
  "batch_flags \<equiv> flagBatch OR flagBatchEnd"

lemma encode_update_flags:
  "(encode r)[20 := f] = le_bytes 4 (ChecksumIEEE (body r)) @ body (r\<lparr>flags := f\<rparr>)"
  by (simp add: encode_def body_def list_update_append)

lemma clearBatchFlags_encode:
  "clearBatchFlags (encode r) = encode (r\<lparr>flags := flags r AND NOT batch_flags\<rparr>)"
proof (cases "flags r AND batch_flags = 0")
  case True
  then have "r\<lparr>flags := flags r AND NOT batch_flags\<rparr> = r"
    using word_and_not_id [OF True] by (simp del: bit.de_Morgan_disj)
  then show ?thesis
    using True encode_fields(4) [of r "[]"] by (simp add: clearBatchFlags_def)
next
  case False
  let ?r = "r\<lparr>flags := flags r AND NOT batch_flags\<rparr>"
  have "\<not> rec_size r < recordHeaderSize" by (simp add: rec_size_def)
  with False have "clearBatchFlags (encode r) =
      put_at 0 (le_bytes 4 (ChecksumIEEE (drop 4 ((encode r)[20 := flags ?r])))) ((encode r)[20 := flags ?r])"
    using encode_fields(4) [of r "[]"] by (simp add: clearBatchFlags_def Let_def)
  also have "\<dots> = encode ?r"
    by (simp add: encode_update_flags put_at_def) (simp add: encode_def)
  finally show ?thesis .
qed

section \<open>Properties of the codec\<close>

text \<open>
  C30. The record codec is a bijection between records and accepted buffers: a buffer below 4 GiB
  (every caller's size is a \<open>uint32\<close>) decodes to \<open>r\<close> exactly when it is what
  \<open>appendRecord\<close> writes for \<open>r\<close>. So decoding inverts encoding, and nothing else is accepted.
\<close>

theorem decodeRecord_iff_appendRecord:
  assumes "length buf < 2 ^ 32"
  shows "decodeRecord buf = Inr r \<longleftrightarrow> buf = appendRecord [] r"
proof
  assume "decodeRecord buf = Inr r"
  from decodeRecord_sound(1) [OF this assms] show "buf = appendRecord [] r"
    by (simp add: appendRecord_encode)
next
  assume buf: "buf = appendRecord [] r"
  then have "rec_size r < 2 ^ 32" using assms by (simp add: appendRecord_encode)
  then show "decodeRecord buf = Inr r"
    using buf by (simp add: appendRecord_encode decodeRecord_encode)
qed

text \<open>A concrete record, evaluated: key \<open>k\<close>, value \<open>v1\<close>, sequence 7, written in a batch.\<close>

definition rec_ex :: krecord where
  "rec_ex = \<lparr> ts = 1, rseq = 7, flags = 2, key = [0x6B], val = [0x76, 0x31] \<rparr>"

lemma rec_ex_wf: "wf_rec rec_ex"
  by (simp add: rec_ex_def wf_rec_def record_consts)

lemma rec_ex_bytes:
  "encode rec_ex =
     [0x9a, 0x86, 0x92, 0xb6, 1, 0, 0, 0, 0, 0, 0, 0, 7, 0, 0, 0, 0, 0, 0, 0, 2,
      1, 0, 0, 0, 2, 0, 0, 0, 0x6B, 0x76, 0x31]"
  by (simp add: rec_ex_def encode_def body_def evals)

theorem decodeRecord_iff_appendRecord_witness:
  "length (appendRecord [] rec_ex) < 2 ^ 32 \<and> decodeRecord (appendRecord [] rec_ex) = Inr rec_ex"
proof -
  have "length (appendRecord [] rec_ex) < 2 ^ 32"
    by (simp add: appendRecord_encode rec_size_def rec_ex_def evals)
  then show ?thesis
    using decodeRecord_iff_appendRecord [of "appendRecord [] rec_ex" rec_ex] by simp
qed

text \<open>
  C31. Recovery reads a file back up to the first torn record: for a file that holds the encodings
  of well-formed records followed by any proper prefix of another one (what a crash in the middle
  of an append leaves), \<open>scanFile\<close> hands exactly the complete records to the visitor, in
  order, with their offsets and raw bytes, and never reads the torn tail.
\<close>

theorem scanFile_torn_tail:
  assumes "list_all wf_rec rs" and "wf_rec r" and "appendRecord [] r = torn @ lost" and "lost \<noteq> []"
  shows "scanFile (Inr (foldl appendRecord [] rs @ torn)) fn st = visit_all fn 0 rs st"
proof -
  have "no_record torn"
    using no_record_torn assms(2-4) by (simp add: appendRecord_encode)
  with assms(1) show ?thesis
    by (simp add: scanFile_def foldl_appendRecord scan_loop_encode_all)
qed

theorem scanFile_torn_tail_witness:
  "scanFile (Inr (foldl appendRecord [] [rec_ex] @ take 31 (encode rec_ex)))
     (\<lambda>pos raw r acc. (None, acc @ [(pos, length raw, rseq r)])) [] = (32, None, [(0, 32, 7)])"
proof -
  have "appendRecord [] rec_ex = take 31 (encode rec_ex) @ drop 31 (encode rec_ex)"
    by (simp add: appendRecord_encode)
  moreover have "drop 31 (encode rec_ex) \<noteq> []"
    by (simp add: rec_size_def rec_ex_def evals)
  moreover have "list_all wf_rec [rec_ex]"
    using rec_ex_wf by simp
  ultimately have "scanFile (Inr (foldl appendRecord [] [rec_ex] @ take 31 (encode rec_ex)))
     (\<lambda>pos raw r acc. (None, acc @ [(pos, length raw, rseq r)])) []
     = visit_all (\<lambda>pos raw r acc. (None, acc @ [(pos, length raw, rseq r)])) 0 [rec_ex] []"
    by (intro scanFile_torn_tail [OF _ rec_ex_wf])
  then show ?thesis by (simp add: rec_size_def rec_ex_def evals)
qed

text \<open>
  C32. Bit rot is an error, not a wrong answer: if a stored record decodes and then up to four
  consecutive bytes after the checksum field are changed in any way (header fields and lengths
  included), \<open>decodeRecord\<close> reports \<open>ErrCorrupt\<close>.
\<close>

theorem decodeRecord_detects_damage:
  assumes "decodeRecord (a @ w @ z) = Inr r" and "4 \<le> length a"
    and "length w' = length w" and "length w \<le> 4" and "w' \<noteq> w"
  shows "decodeRecord (a @ w' @ z) = Inl ErrCorrupt"
proof -
  have len: "\<not> length (a @ w @ z) < recordHeaderSize"
    and crc: "le_word (take 4 a) = ChecksumIEEE (drop 4 a @ w @ z)"
    using assms(1,2) by (auto simp: decodeRecord_def Let_def split: if_splits)
  have "le_word (take 4 a) \<noteq> ChecksumIEEE (drop 4 a @ w' @ z)"
    using ChecksumIEEE_burst [of w w' "drop 4 a" z] assms(3-5) crc by metis
  then show ?thesis
    using len assms(2,3) by (simp add: decodeRecord_def Let_def)
qed

theorem decodeRecord_detects_damage_witness:
  "decodeRecord ((encode rec_ex)[30 := 0x77]) = Inl ErrCorrupt"
proof -
  have "decodeRecord (take 30 (encode rec_ex) @ [0x76] @ [0x31]) = Inr rec_ex"
    using decodeRecord_encode [of rec_ex]
    by (simp add: rec_ex_bytes) (simp add: rec_size_def rec_ex_def evals)
  from decodeRecord_detects_damage [OF this, of "[0x77]"]
  show ?thesis by (simp add: rec_ex_bytes)
qed

text \<open>
  Lifting a record out of its batch: \<open>clearBatchFlags\<close> turns a valid encoding into the
  valid encoding, of the same length, of the same record without its batch markers (the
  tombstone flag, the sequence number, the key and the value are kept), so a record copied into
  a merged file or a snapshot always verifies and never waits for a terminator.
\<close>

lemma clearBatchFlags_decodes:
  assumes "decodeRecord raw = Inr r" and "length raw < 2 ^ 32"
  shows "decodeRecord (clearBatchFlags raw) = Inr (r\<lparr>flags := flags r AND NOT (flagBatch OR flagBatchEnd)\<rparr>)
    \<and> length (clearBatchFlags raw) = length raw
    \<and> tombstone (r\<lparr>flags := flags r AND NOT (flagBatch OR flagBatchEnd)\<rparr>) = tombstone r"
proof -
  have raw: "raw = encode r" and size: "rec_size r < 2 ^ 32"
    using decodeRecord_sound [OF assms] assms(2) by simp_all
  have "(flags r AND NOT (flagBatch OR flagBatchEnd)) AND flagTombstone = flags r AND flagTombstone"
    by (simp add: record_consts and.assoc)
  then show ?thesis
    using size by (simp add: raw clearBatchFlags_encode decodeRecord_encode tombstone_def rec_size_def)
qed

end
