(* ===== verification/Files.thy ===== *)
theory Files
  imports Prelude
begin

text \<open>
  The part of Go's \<open>os\<close>, \<open>bufio\<close>, \<open>strconv\<close>, \<open>strings\<close> and \<open>fmt\<close> that the engine uses, on an
  explicit file system: one data directory, inodes that outlive their names while a file is open,
  and what of each is on stable storage. A path \<open>filepath.Join(dir, name)\<close> is the name.

  Every call that can fail consumes an element of \<open>faults\<close>: \<open>0\<close> (or no element left) lets the
  call through, \<open>Suc n\<close> makes it fail, a write after its first \<open>n\<close> bytes. The theorems about the
  store quantify over the list, so they hold for every pattern of I/O errors.
\<close>

section \<open>Results with a state\<close>

text \<open>
  An operation returns an error or a value, together with the new state. \<open>andThen\<close> is the
  pattern \<open>if err != nil { return err }\<close>.
\<close>

type_synonym ('s, 'a) res = "(error + 'a) \<times> 's"

fun andThen :: "('s, 'a) res \<Rightarrow> ('a \<Rightarrow> 's \<Rightarrow> ('s, 'b) res) \<Rightarrow> ('s, 'b) res" where
  "andThen (Inl e, s) f = (Inl e, s)"
| "andThen (Inr x, s) f = f x s"

lemma andThen_Inr: "andThen r f = (Inr y, s') \<longleftrightarrow> (\<exists>x s. r = (Inr x, s) \<and> f x s = (Inr y, s'))"
  by (cases "(r, f)" rule: andThen.cases) auto

lemma andThen_Inl:
  "andThen r f = (Inl e, s') \<longleftrightarrow> r = (Inl e, s') \<or> (\<exists>x s. r = (Inr x, s) \<and> f x s = (Inl e, s'))"
  by (cases "(r, f)" rule: andThen.cases) auto

text \<open>The value is dropped: \<open>_, err := ...\<close>.\<close>

definition ignore :: "('s, 'a) res \<Rightarrow> 's" where
  "ignore r = snd r"

section \<open>Files\<close>

text \<open>
  \<open>durable\<close> is the length of the prefix of a file that has been pushed to stable storage; \<open>ddir\<close>
  is the directory as of its last \<open>fsync\<close>.
\<close>

record inode =
  isdir :: bool
  content :: bytes
  durable :: nat

record fs =
  dir :: "(bytes \<times> nat) list"
  ddir :: "(bytes \<times> nat) list"
  inodes :: "inode list"
  faults :: "nat list"

text \<open>An \<open>*os.File\<close>: which inode, whether it is still open, whether it was opened for writing.\<close>

record ofile =
  ino :: nat
  fopen :: bool
  fwr :: bool

definition fault :: "fs \<Rightarrow> nat option \<times> fs" where
  "fault d = (case faults d of
       [] \<Rightarrow> (None, d)
     | 0 # xs \<Rightarrow> (None, d\<lparr>faults := xs\<rparr>)
     | Suc n # xs \<Rightarrow> (Some n, d\<lparr>faults := xs\<rparr>))"

definition the_file :: "fs \<Rightarrow> ofile \<Rightarrow> inode" where
  "the_file d f = inodes d ! ino f"

definition set_file :: "ofile \<Rightarrow> bytes \<Rightarrow> nat \<Rightarrow> fs \<Rightarrow> fs" where
  "set_file f c n d = d\<lparr>inodes := (inodes d)[ino f := (the_file d f)\<lparr>content := c, durable := n\<rparr>]\<rparr>"

definition new_inode :: inode where
  "new_inode = \<lparr> isdir = False, content = [], durable = 0 \<rparr>"

text \<open>\<open>os.OpenFile\<close> with \<open>O_RDWR|O_CREATE|O_EXCL\<close>, with \<open>O_WRONLY|O_CREATE|O_TRUNC\<close>, and of an existing file.\<close>

definition openExcl :: "bytes \<Rightarrow> fs \<Rightarrow> (fs, ofile) res" where
  "openExcl name d = (case fault d of
       (Some _, d) \<Rightarrow> (Inl ErrIO, d)
     | (None, d) \<Rightarrow>
         if map_of (dir d) name \<noteq> None then (Inl ErrIO, d)
         else (Inr \<lparr> ino = length (inodes d), fopen = True, fwr = True \<rparr>,
               d\<lparr>inodes := inodes d @ [new_inode], dir := AList.update name (length (inodes d)) (dir d)\<rparr>))"

definition openTrunc :: "bytes \<Rightarrow> fs \<Rightarrow> (fs, ofile) res" where
  "openTrunc name d = (case fault d of
       (Some _, d) \<Rightarrow> (Inl ErrIO, d)
     | (None, d) \<Rightarrow> (case map_of (dir d) name of
           None \<Rightarrow> (Inr \<lparr> ino = length (inodes d), fopen = True, fwr = True \<rparr>,
             d\<lparr>inodes := inodes d @ [new_inode], dir := AList.update name (length (inodes d)) (dir d)\<rparr>)
         | Some i \<Rightarrow>
             if isdir (inodes d ! i) then (Inl ErrIO, d)
             else (let f = \<lparr> ino = i, fopen = True, fwr = True \<rparr> in (Inr f, set_file f [] 0 d))))"

definition openFile :: "bytes \<Rightarrow> bool \<Rightarrow> fs \<Rightarrow> (fs, ofile) res" where
  "openFile name write d = (case map_of (dir d) name of
       None \<Rightarrow> (Inl ErrNotExist, d)
     | Some i \<Rightarrow> (case fault d of
         (Some _, d) \<Rightarrow> (Inl ErrIO, d)
       | (None, d) \<Rightarrow>
           if write \<and> isdir (inodes d ! i) then (Inl ErrIO, d)
           else (Inr \<lparr> ino = i, fopen = True, fwr = write \<rparr>, d)))"

definition closeFile :: "ofile \<Rightarrow> ofile" where
  "closeFile f = f\<lparr>fopen := False\<rparr>"

text \<open>\<open>f.Stat().Size()\<close>, and \<open>os.Stat\<close> of a name: whether it is a directory.\<close>

definition fileSize :: "ofile \<Rightarrow> fs \<Rightarrow> (fs, nat) res" where
  "fileSize f d = (case fault d of
       (Some _, d) \<Rightarrow> (Inl ErrIO, d)
     | (None, d) \<Rightarrow> (Inr (length (content (the_file d f))), d))"

definition statIsDir :: "bytes \<Rightarrow> fs \<Rightarrow> (fs, bool) res" where
  "statIsDir name d = (case map_of (dir d) name of
       None \<Rightarrow> (Inl ErrNotExist, d)
     | Some i \<Rightarrow> (case fault d of
         (Some _, d) \<Rightarrow> (Inl ErrIO, d)
       | (None, d) \<Rightarrow> (Inr (isdir (inodes d ! i)), d)))"

text \<open>\<open>f.ReadAt(buf, off)\<close> with a buffer of \<open>n\<close> bytes: anything less than \<open>n\<close> bytes is an error.\<close>

definition ReadAt :: "ofile \<Rightarrow> nat \<Rightarrow> nat \<Rightarrow> fs \<Rightarrow> (fs, bytes) res" where
  "ReadAt f n off d =
     (if \<not> fopen f then (Inl ErrIO, d)
      else (case fault d of
         (Some _, d) \<Rightarrow> (Inl ErrIO, d)
       | (None, d) \<Rightarrow>
           (let c = content (the_file d f) in
            if off + n \<le> length c then (Inr (bslice off (off + n) c), d) else (Inl ErrIO, d))))"

text \<open>
  Reading a file from the start to its end through a \<open>bufio.Reader\<close>: the bytes that could be
  read, and whether they ended in a read error rather than at the end of the file.
\<close>

definition readAll :: "ofile \<Rightarrow> fs \<Rightarrow> (bytes \<times> bool) \<times> fs" where
  "readAll f d = (case fault d of
       (Some n, d) \<Rightarrow> ((take n (content (the_file d f)), True), d)
     | (None, d) \<Rightarrow> ((content (the_file d f), False), d))"

text \<open>\<open>c\<close> with \<open>bs\<close> written at \<open>off\<close>; a gap is filled with zeros.\<close>

definition splice :: "bytes \<Rightarrow> nat \<Rightarrow> bytes \<Rightarrow> bytes" where
  "splice c off bs = take off (c @ replicate (off - length c) 0) @ bs @ drop (off + length bs) c"

definition WriteAt :: "ofile \<Rightarrow> bytes \<Rightarrow> nat \<Rightarrow> fs \<Rightarrow> (fs, unit) res" where
  "WriteAt f bs off d =
     (if \<not> fopen f \<or> \<not> fwr f then (Inl ErrIO, d)
      else (case fault d of
         (Some n, d) \<Rightarrow> (Inl ErrIO,
           set_file f (splice (content (the_file d f)) off (take n bs)) (min (durable (the_file d f)) off) d)
       | (None, d) \<Rightarrow> (Inr (),
           set_file f (splice (content (the_file d f)) off bs) (min (durable (the_file d f)) off) d)))"

text \<open>\<open>f.Write\<close> at the end of a file that is only appended to.\<close>

definition fileAppend :: "ofile \<Rightarrow> bytes \<Rightarrow> fs \<Rightarrow> (fs, unit) res" where
  "fileAppend f bs d = WriteAt f bs (length (content (the_file d f))) d"

text \<open>\<open>bw.Write(p)\<close> of a \<open>bufio.Writer\<close> of 1 MiB: what does not fit goes to the file.\<close>

definition bufWrite :: "ofile \<Rightarrow> bytes \<Rightarrow> bytes \<Rightarrow> fs \<Rightarrow> (fs, bytes) res" where
  "bufWrite f buf p d =
     (if length buf + length p \<le> 2 ^ 20 then (Inr (buf @ p), d)
      else andThen (fileAppend f (buf @ p) d) (\<lambda>_ d. (Inr [], d)))"

definition Truncate :: "ofile \<Rightarrow> nat \<Rightarrow> fs \<Rightarrow> (fs, unit) res" where
  "Truncate f n d =
     (if \<not> fopen f \<or> \<not> fwr f then (Inl ErrIO, d)
      else (case fault d of
         (Some _, d) \<Rightarrow> (Inl ErrIO, d)
       | (None, d) \<Rightarrow> (Inr (),
           (let c = content (the_file d f) in
            set_file f (take n (c @ replicate (n - length c) 0)) (min (durable (the_file d f)) n) d))))"

definition SyncFile :: "ofile \<Rightarrow> fs \<Rightarrow> (fs, unit) res" where
  "SyncFile f d =
     (if \<not> fopen f then (Inl ErrIO, d)
      else (case fault d of
         (Some _, d) \<Rightarrow> (Inl ErrIO, d)
       | (None, d) \<Rightarrow> (Inr (),
           (let c = content (the_file d f) in set_file f c (length c) d))))"

definition Remove :: "bytes \<Rightarrow> fs \<Rightarrow> (fs, unit) res" where
  "Remove name d = (case map_of (dir d) name of
       None \<Rightarrow> (Inl ErrNotExist, d)
     | Some _ \<Rightarrow> (case fault d of
         (Some _, d) \<Rightarrow> (Inl ErrIO, d)
       | (None, d) \<Rightarrow> (Inr (), d\<lparr>dir := AList.delete name (dir d)\<rparr>)))"

definition Rename :: "bytes \<Rightarrow> bytes \<Rightarrow> fs \<Rightarrow> (fs, unit) res" where
  "Rename old new d = (case map_of (dir d) old of
       None \<Rightarrow> (Inl ErrNotExist, d)
     | Some i \<Rightarrow> (case fault d of
         (Some _, d) \<Rightarrow> (Inl ErrIO, d)
       | (None, d) \<Rightarrow>
           if (case map_of (dir d) new of None \<Rightarrow> False | Some j \<Rightarrow> isdir (inodes d ! j)) then (Inl ErrIO, d)
           else (Inr (), d\<lparr>dir := AList.update new i (AList.delete old (dir d))\<rparr>)))"

text \<open>\<open>os.ReadDir\<close>: the names in order, with \<open>IsDir\<close>.\<close>

definition ReadDir :: "fs \<Rightarrow> (fs, (bytes \<times> bool) list) res" where
  "ReadDir d = (case fault d of
       (Some _, d) \<Rightarrow> (Inl ErrIO, d)
     | (None, d) \<Rightarrow> (Inr (map (\<lambda>(n, i). (n, isdir (inodes d ! i))) (sort_key fst (dir d))), d))"

text \<open>\<open>syncDir\<close> of \<open>store.go\<close>: open the directory, fsync it.\<close>

definition syncDir :: "fs \<Rightarrow> (fs, unit) res" where
  "syncDir d = (case fault d of
       (Some _, d) \<Rightarrow> (Inl ErrIO, d)
     | (None, d) \<Rightarrow> (case fault d of
         (Some _, d) \<Rightarrow> (Inl ErrIO, d)
       | (None, d) \<Rightarrow> (Inr (), d\<lparr>ddir := dir d\<rparr>)))"

section \<open>Strings and numbers\<close>

definition lit :: "string \<Rightarrow> bytes" where
  "lit s = map (\<lambda>c. of_nat (of_char c)) s"

definition HasSuffix :: "bytes \<Rightarrow> bytes \<Rightarrow> bool" where
  "HasSuffix s suf \<longleftrightarrow> length suf \<le> length s \<and> drop (length s - length suf) s = suf"

definition TrimSuffix :: "bytes \<Rightarrow> bytes \<Rightarrow> bytes" where
  "TrimSuffix s suf = (if HasSuffix s suf then take (length s - length suf) s else s)"

text \<open>Decimal digits of a number, as \<open>%d\<close> prints them, and padded with zeros to ten, as \<open>%010d\<close> does.\<close>

fun digits :: "nat \<Rightarrow> bytes" where
  "digits n = (if n < 10 then [of_nat (48 + n)] else digits (n div 10) @ [of_nat (48 + n mod 10)])"

declare digits.simps [simp del]

definition digits10 :: "nat \<Rightarrow> bytes" where
  "digits10 n = replicate (10 - length (digits n)) 48 @ digits n"

definition is_digit :: "byte \<Rightarrow> bool" where
  "is_digit b \<longleftrightarrow> 48 \<le> b \<and> b \<le> 57"

text \<open>\<open>strconv.ParseUint(s, 10, bits)\<close>: digits only, at least one, and in range.\<close>

definition digits_value :: "bytes \<Rightarrow> nat" where
  "digits_value s = foldl (\<lambda>n b. 10 * n + (unat b - 48)) 0 s"

definition ParseUint :: "bytes \<Rightarrow> nat \<Rightarrow> nat option" where
  "ParseUint s bits =
     (if s \<noteq> [] \<and> list_all is_digit s \<and> digits_value s < 2 ^ bits then Some (digits_value s) else None)"

section \<open>Facts about names and numbers\<close>

lemma find_SomeD: "find P xs = Some x \<Longrightarrow> P x \<and> x \<in> set xs"
  by (induction xs) (auto split: if_splits)

lemma lit_append: "lit (a @ b) = lit a @ lit b"
  by (simp add: lit_def)

lemma HasSuffix_append [simp]: "HasSuffix (a @ s) s"
  by (simp add: HasSuffix_def)

lemma TrimSuffix_append [simp]: "TrimSuffix (a @ s) s = a"
  by (simp add: TrimSuffix_def)

lemma TrimSuffix_id: "HasSuffix s suf \<Longrightarrow> TrimSuffix s suf @ suf = s"
  by (simp add: TrimSuffix_def HasSuffix_def) (metis append_take_drop_id)

lemma digit_value: "m < 10 \<Longrightarrow> unat (of_nat (48 + m) :: byte) - 48 = m"
  by (simp add: unat_of_nat del: of_nat_add)

lemma digit_is_digit: "m < 10 \<Longrightarrow> is_digit (of_nat (48 + m))"
proof -
  assume m: "m < 10"
  then have u: "unat (of_nat (48 + m) :: byte) = 48 + m" by (simp add: unat_of_nat del: of_nat_add)
  show ?thesis unfolding is_digit_def word_le_nat_alt u using m by simp
qed

lemma digits_value_snoc: "digits_value (s @ [b]) = 10 * digits_value s + (unat b - 48)"
  by (simp add: digits_value_def)

lemma digits_value_digits [simp]: "digits_value (digits n) = n"
proof (induction n rule: digits.induct)
  case (1 n)
  then show ?case
    by (subst digits.simps) (simp add: digits_value_snoc digit_value del: of_nat_add; simp add: digits_value_def digit_value del: of_nat_add)
qed

lemma digits_are_digits [simp]: "list_all is_digit (digits n)"
proof (induction n rule: digits.induct)
  case (1 n)
  then show ?case by (subst digits.simps) (simp add: digit_is_digit del: of_nat_add)
qed

lemma digits_not_Nil [simp]: "digits n \<noteq> []"
  by (subst digits.simps) simp

lemma length_digits: "n < 10 ^ k \<Longrightarrow> 0 < k \<Longrightarrow> length (digits n) \<le> k"
proof (induction k arbitrary: n)
  case (Suc k)
  show ?case
  proof (cases "n < 10")
    case False
    then have "k \<noteq> 0" using Suc.prems by (cases k) auto
    moreover have "n div 10 < 10 ^ k" using Suc.prems by (simp add: less_mult_imp_div_less mult.commute)
    ultimately show ?thesis using Suc.IH [of "n div 10"] False by (subst digits.simps) simp
  qed (subst digits.simps, simp)
qed simp

lemma foldl_zeros: "foldl (\<lambda>n (b::byte). 10 * n + (unat b - 48)) 0 (replicate k 48) = 0"
  by (induction k) simp_all

lemma digits_value_digits10 [simp]: "digits_value (digits10 n) = n"
  using digits_value_digits [of n] by (simp add: digits10_def digits_value_def foldl_zeros)

lemma ParseUint_digits: "n < 2 ^ bits \<Longrightarrow> ParseUint (digits n) bits = Some n"
  by (simp add: ParseUint_def)

lemma zeros_are_digits [simp]: "list_all is_digit (replicate k 48)"
  by (induction k) (simp_all add: is_digit_def)

lemma ParseUint_digits10: "n < 2 ^ bits \<Longrightarrow> ParseUint (digits10 n) bits = Some n"
proof -
  assume n: "n < 2 ^ bits"
  have "digits10 n \<noteq> []" and "list_all is_digit (digits10 n)" by (simp_all add: digits10_def)
  with n show ?thesis by (simp add: ParseUint_def)
qed

lemma ParseUint_bound: "ParseUint s bits = Some n \<Longrightarrow> n < 2 ^ bits"
  by (auto simp: ParseUint_def split: if_splits)

lemma digits10_inj: "digits10 m = digits10 n \<longleftrightarrow> m = n"
  by (metis digits_value_digits10)

section \<open>Facts about files\<close>

lemma fault_frame: "fault d = (x, d') \<Longrightarrow> d' = d\<lparr>faults := faults d'\<rparr>"
  by (auto simp: fault_def split: list.splits nat.splits)

lemma fault_fields:
  assumes "fault d = (x, d')"
  shows "dir d' = dir d" "ddir d' = ddir d" "inodes d' = inodes d"
  by (subst fault_frame [OF assms], simp)+

lemma fault_snd [simp]:
  "dir (snd (fault d)) = dir d" "ddir (snd (fault d)) = ddir d" "inodes (snd (fault d)) = inodes d"
  by (rule fault_fields [OF prod.collapse [symmetric]])+

lemma fault_none [simp]: "faults d = [] \<Longrightarrow> fault d = (None, d)"
  by (simp add: fault_def)

lemma take_splice: "n \<le> off \<Longrightarrow> off \<le> length c \<Longrightarrow> take n (splice c off bs) = take n c"
  by (simp add: splice_def)

lemma length_splice: "off \<le> length c \<Longrightarrow> length (splice c off bs) = max (length c) (off + length bs)"
  by (simp add: splice_def)

lemma take_splice_end: "off \<le> length c \<Longrightarrow> take (off + length bs) (splice c off bs) = take off c @ bs"
  by (simp add: splice_def)

text \<open>
  The effect of a call on the inodes: at most one file changes, below a bound it keeps its bytes.
\<close>

lemma set_file_simps [simp]:
  "dir (set_file f c n d) = dir d" "ddir (set_file f c n d) = ddir d"
  "faults (set_file f c n d) = faults d" "length (inodes (set_file f c n d)) = length (inodes d)"
  by (simp_all add: set_file_def)

lemma content_set_file:
  "ino f < length (inodes d) \<Longrightarrow>
   content (inodes (set_file f c n d) ! i) = (if i = ino f then c else content (inodes d ! i))"
  by (simp add: set_file_def the_file_def)

text \<open>
  Reads change nothing but the pending faults; calls on an open file change nothing but the
  file's inode.
\<close>

definition same_disk :: "fs \<Rightarrow> fs \<Rightarrow> bool" where
  "same_disk d d' \<longleftrightarrow> dir d' = dir d \<and> ddir d' = ddir d \<and> inodes d' = inodes d"

definition only_file :: "nat \<Rightarrow> fs \<Rightarrow> fs \<Rightarrow> bool" where
  "only_file i d d' \<longleftrightarrow> dir d' = dir d \<and> ddir d' = ddir d \<and> length (inodes d') = length (inodes d) \<and>
     (\<forall>j. j \<noteq> i \<longrightarrow> inodes d' ! j = inodes d ! j) \<and> isdir (inodes d' ! i) = isdir (inodes d ! i)"

lemma only_file_trans: "only_file i d d' \<Longrightarrow> only_file i d' d'' \<Longrightarrow> only_file i d d''"
  by (simp add: only_file_def)

lemma same_disk_only: "same_disk d d' \<Longrightarrow> only_file i d d'"
  by (simp add: only_file_def same_disk_def)

lemma fault_same: "fault d = (x, d') \<Longrightarrow> same_disk d d'"
  by (simp add: same_disk_def fault_fields)

lemma ReadAt_same: "ReadAt f n off d = (r, d') \<Longrightarrow> same_disk d d'"
  by (auto simp: ReadAt_def Let_def same_disk_def split: if_splits prod.splits option.splits dest: fault_fields)

lemma set_file_only: "only_file (ino f) d (set_file f c n d)"
  by (cases "ino f < length (inodes d)") (simp_all add: only_file_def set_file_def the_file_def list_update_beyond)

lemma set_file_fault_only: "fault d = (x, d') \<Longrightarrow> only_file (ino f) d (set_file f c n d')"
  by (rule only_file_trans [OF same_disk_only [OF fault_same] set_file_only])

lemma fault_only: "fault d = (x, d') \<Longrightarrow> only_file i d d'"
  by (rule same_disk_only [OF fault_same])

lemma only_file_refl [simp]: "only_file i d d"
  by (simp add: only_file_def)

lemma WriteAt_only: "WriteAt f bs off d = (r, d') \<Longrightarrow> only_file (ino f) d d'"
  by (auto simp: WriteAt_def split: if_splits prod.splits option.splits intro: set_file_fault_only)

lemma fileAppend_only: "fileAppend f bs d = (r, d') \<Longrightarrow> only_file (ino f) d d'"
  by (simp add: fileAppend_def WriteAt_only)

lemma Truncate_only: "Truncate f n d = (r, d') \<Longrightarrow> only_file (ino f) d d'"
  by (auto simp: Truncate_def Let_def split: if_splits prod.splits option.splits intro: set_file_fault_only fault_only)

lemma SyncFile_only: "SyncFile f d = (r, d') \<Longrightarrow> only_file (ino f) d d'"
  by (auto simp: SyncFile_def Let_def split: if_splits prod.splits option.splits intro: set_file_fault_only fault_only)

text \<open>What the calls do to the bytes of the file.\<close>

lemma SyncFile_content: "SyncFile f d = (r, d') \<Longrightarrow> content (inodes d' ! i) = content (inodes d ! i)"
  by (cases "ino f < length (inodes d)")
     (auto simp: SyncFile_def Let_def set_file_def the_file_def nth_list_update list_update_beyond split_beta
        split: if_splits option.splits)

lemma WriteAt_prefix:
  assumes "WriteAt f bs off d = (r, d')" and "ino f < length (inodes d)"
    and "off \<le> length (content (inodes d ! ino f))"
  shows "take off (content (inodes d' ! ino f)) = take off (content (inodes d ! ino f))"
    and "off \<le> length (content (inodes d' ! ino f))"
  using assms
  by (auto simp: WriteAt_def set_file_def the_file_def take_splice length_splice split_beta
      split: if_splits option.splits)

lemma WriteAt_written:
  assumes "WriteAt f bs off d = (Inr x, d')" and "ino f < length (inodes d)"
    and "off \<le> length (content (inodes d ! ino f))"
  shows "take (off + length bs) (content (inodes d' ! ino f)) = take off (content (inodes d ! ino f)) @ bs"
    and "off + length bs \<le> length (content (inodes d' ! ino f))"
  using assms
  by (auto simp: WriteAt_def set_file_def the_file_def take_splice_end length_splice split_beta
      split: if_splits option.splits)

lemma Truncate_prefix:
  assumes "Truncate f n d = (r, d')" and "ino f < length (inodes d)"
    and "n \<le> length (content (inodes d ! ino f))"
  shows "take n (content (inodes d' ! ino f)) = take n (content (inodes d ! ino f))"
    and "n \<le> length (content (inodes d' ! ino f))"
  using assms
  by (auto simp: Truncate_def Let_def set_file_def the_file_def split_beta split: if_splits option.splits)

text \<open>Calls without faults.\<close>

lemma fileAppend_ok:
  assumes "faults d = []" "fopen f" "fwr f"
  shows "fileAppend f bs d = (Inr (), set_file f (content (the_file d f) @ bs) (min (durable (the_file d f)) (length (content (the_file d f)))) d)"
  using assms by (simp add: fileAppend_def WriteAt_def splice_def)

lemma bufWrite_ok:
  assumes "faults d = []" "fopen f" "fwr f" "ino f < length (inodes d)"
  obtains b d' where "bufWrite f buf p d = (Inr b, d')" "faults d' = []" "dir d' = dir d"
    "length (inodes d') = length (inodes d)"
    "content (the_file d' f) @ b = content (the_file d f) @ buf @ p"
    "\<forall>i. i \<noteq> ino f \<longrightarrow> inodes d' ! i = inodes d ! i" "isdir (inodes d' ! ino f) = isdir (inodes d ! ino f)"
proof (cases "length buf + length p \<le> 2 ^ 20")
  case True
  show ?thesis by (rule that [of "buf @ p" d]) (use True assms in \<open>simp_all add: bufWrite_def\<close>)
next
  case False
  show ?thesis
    by (rule that [of "[]" "snd (fileAppend f (buf @ p) d)"])
       (use False assms in \<open>simp_all add: bufWrite_def fileAppend_ok the_file_def content_set_file set_file_def\<close>)
qed

end
