(* ===== verification/Datafile.thy ===== *)
theory Datafile
  imports Log_Record Files
begin

text \<open>
  Index locators, data files and hint files, \<open>internal/engine/datafile.go\<close>, and \<open>buildHint\<close> of
  \<open>compact.go\<close>.

  The lemmas show that file names are injective in the file id and parse back, that a data file
  returns a stored record or an error, and that a hint file that was committed replays exactly
  the entries that were added, for every pattern of I/O errors on the way.
\<close>

section \<open>Locators and data files\<close>

record entry =
  pos :: nat
  eseq :: u64
  fileID :: u32
  esize :: u32
  tomb :: bool

record datafile =
  did :: u32
  dpath :: bytes
  dfile :: ofile
  dsize :: nat

definition dataSuffix :: bytes where "dataSuffix = lit ''.data''"
definition hintSuffix :: bytes where "hintSuffix = lit ''.hint''"
definition hintMagic :: bytes where "hintMagic = lit ''GOKVHNT1''"
definition hintHeaderSize :: nat where "hintHeaderSize = 25"

definition dataPath :: "u32 \<Rightarrow> bytes" where
  "dataPath i = digits10 (unat i) @ dataSuffix"

definition hintPath :: "u32 \<Rightarrow> bytes" where
  "hintPath i = digits10 (unat i) @ hintSuffix"

definition createDataFile :: "u32 \<Rightarrow> fs \<Rightarrow> (fs, datafile) res" where
  "createDataFile i d =
     andThen (openExcl (dataPath i) d) (\<lambda>f d.
       (Inr \<lparr> did = i, dpath = dataPath i, dfile = f, dsize = 0 \<rparr>, d))"

definition openDataFile :: "u32 \<Rightarrow> bool \<Rightarrow> fs \<Rightarrow> (fs, datafile) res" where
  "openDataFile i write d =
     andThen (openFile (dataPath i) write d) (\<lambda>f d.
     andThen (fileSize f d) (\<lambda>n d.
       (Inr \<lparr> did = i, dpath = dataPath i, dfile = f, dsize = n \<rparr>, d)))"

definition close :: "datafile \<Rightarrow> datafile" where
  "close df = df\<lparr>dfile := closeFile (dfile df)\<rparr>"

text \<open>The error of \<open>decodeRecord\<close> is wrapped with the position; no caller looks at the text.\<close>

definition readRecord :: "datafile \<Rightarrow> entry \<Rightarrow> fs \<Rightarrow> (fs, krecord \<times> bytes) res" where
  "readRecord df e d =
     andThen (ReadAt (dfile df) (unat (esize e)) (pos e) d) (\<lambda>buf d.
       (case decodeRecord buf of Inl er \<Rightarrow> (Inl er, d) | Inr r \<Rightarrow> (Inr (r, buf), d)))"

text \<open>\<open>scanFile\<close> on the path of a data file; a read error ends the file early.\<close>

definition scanDataFile :: "u32 \<Rightarrow> 's visitor \<Rightarrow> 's \<Rightarrow> fs \<Rightarrow> (nat \<times> error option \<times> 's) \<times> fs" where
  "scanDataFile i fn st d =
     (case openFile (dataPath i) False d of
        (Inl er, d) \<Rightarrow> (scanFile (Inl er) fn st, d)
      | (Inr f, d) \<Rightarrow> (case readAll f d of ((bs, _), d) \<Rightarrow> (scanFile (Inr bs) fn st, d)))"

definition listDataFiles :: "fs \<Rightarrow> (fs, u32 list) res" where
  "listDataFiles d =
     andThen (ReadDir d) (\<lambda>ents d.
       (Inr (sort (concat (map (\<lambda>(name, isd).
          if isd \<or> \<not> HasSuffix name dataSuffix then []
          else (case ParseUint (TrimSuffix name dataSuffix) 32 of None \<Rightarrow> [] | Some n \<Rightarrow> [of_nat n]))
          ents))), d))"

section \<open>Hint files\<close>

record hintWriter =
  hf :: ofile
  hbuf :: bytes
  tmp :: bytes
  dest :: bytes

definition tmpPath :: "bytes \<Rightarrow> bytes" where
  "tmpPath name = name @ lit ''.tmp''"

definition newHintWriter :: "u32 \<Rightarrow> fs \<Rightarrow> (fs, hintWriter) res" where
  "newHintWriter i d =
     (let dst = hintPath i; tm = tmpPath dst in
      andThen (openTrunc tm d) (\<lambda>f d.
        (case bufWrite f [] hintMagic d of
           (Inl er, d) \<Rightarrow> (Inl er, ignore (Remove tm d))
         | (Inr b, d) \<Rightarrow> (Inr \<lparr> hf = f, hbuf = b, tmp = tm, dest = dst \<rparr>, d))))"

definition hint_header :: "bytes \<Rightarrow> entry \<Rightarrow> byte \<Rightarrow> bytes" where
  "hint_header k e fl =
     (let b = replicate hintHeaderSize 0;
          b = put_at 0 (le_bytes 8 (eseq e)) b;
          b = put_at 8 [fl] b;
          b = put_at 9 (le_bytes 8 (of_nat (pos e) :: u64)) b;
          b = put_at 17 (le_bytes 4 (esize e)) b
      in put_at 21 (le_bytes 4 (of_nat (length k) :: u32)) b)"

definition add :: "bytes \<Rightarrow> entry \<Rightarrow> byte \<Rightarrow> hintWriter \<Rightarrow> fs \<Rightarrow> (fs, hintWriter) res" where
  "add k e fl h d =
     andThen (bufWrite (hf h) (hbuf h) (hint_header k e fl) d) (\<lambda>b d.
     andThen (bufWrite (hf h) b k d) (\<lambda>b d.
       (Inr (h\<lparr>hbuf := b\<rparr>), d)))"

definition abort :: "hintWriter \<Rightarrow> fs \<Rightarrow> fs" where
  "abort h d = ignore (Remove (tmp h) d)"

text \<open>\<open>commit\<close>: flush, fsync and close the temporary file, then rename it into place.\<close>

definition commit :: "hintWriter \<Rightarrow> fs \<Rightarrow> (fs, unit) res" where
  "commit h d =
     (case (if hbuf h = [] then (Inr (), d) else fileAppend (hf h) (hbuf h) d) of
        (Inl er, d) \<Rightarrow> (Inl er, abort h d)
      | (Inr _, d) \<Rightarrow> (case SyncFile (hf h) d of
          (Inl er, d) \<Rightarrow> (Inl er, abort h d)
        | (Inr _, d) \<Rightarrow> (case fault d of
            (Some _, d) \<Rightarrow> (Inl ErrIO, ignore (Remove (tmp h) d))
          | (None, d) \<Rightarrow> Rename (tmp h) (dest h) d)))"

text \<open>
  \<open>readHint\<close>: the loop over the entries behind the magic. \<open>failed\<close> tells a read error at the end
  of the bytes from the end of the file.
\<close>

type_synonym 's hint_visitor = "bytes \<Rightarrow> entry \<Rightarrow> byte \<Rightarrow> 's \<Rightarrow> 's"

function hint_loop :: "u32 \<Rightarrow> 's hint_visitor \<Rightarrow> bool \<Rightarrow> bytes \<Rightarrow> 's \<Rightarrow> error option \<times> 's" where
  "hint_loop i fn failed rest st =
     (if length rest < hintHeaderSize
      then (if rest = [] \<and> \<not> failed then None else Some ErrIO, st)
      else
        let keyLen = unat (le_word (bslice 21 25 rest) :: u32);
            tl = drop hintHeaderSize rest
        in
        if keyLen = 0 \<or> keyLen > MaxKeySize then (Some (ErrOther ''bad hint key length''), st)
        else if length tl < keyLen then (Some ErrIO, st)
        else hint_loop i fn failed (drop keyLen tl)
          (fn (take keyLen tl)
             \<lparr> pos = unat (le_word (bslice 9 17 rest) :: u64), eseq = le_word (bslice 0 8 rest),
               fileID = i, esize = le_word (bslice 17 21 rest), tomb = False \<rparr>
             (rest ! 8) st))"
  by pat_completeness auto
termination
  by (relation "measure (\<lambda>(i, fn, failed, rest, st). length rest)") (auto simp: hintHeaderSize_def)

declare hint_loop.simps [simp del]

definition readHint :: "u32 \<Rightarrow> 's hint_visitor \<Rightarrow> 's \<Rightarrow> fs \<Rightarrow> (error option \<times> 's) \<times> fs" where
  "readHint i fn st d =
     (case openFile (hintPath i) False d of
        (Inl er, d) \<Rightarrow> ((Some er, st), d)
      | (Inr f, d) \<Rightarrow> (case readAll f d of ((bs, failed), d) \<Rightarrow>
          if take (length hintMagic) bs \<noteq> hintMagic then ((Some (ErrOther ''bad hint header''), st), d)
          else (hint_loop i fn failed (drop (length hintMagic) bs) st, d)))"

definition removeOrphanHints :: "u32 list \<Rightarrow> fs \<Rightarrow> (fs, unit) res" where
  "removeOrphanHints dataIDs d =
     andThen (ReadDir d) (\<lambda>ents d.
       (Inr (), foldl (\<lambda>d (name, isd).
          if isd then d
          else if HasSuffix name (tmpPath hintSuffix) then ignore (Remove name d)
          else if HasSuffix name hintSuffix then
            (case ParseUint (TrimSuffix name hintSuffix) 32 of
               None \<Rightarrow> ignore (Remove name d)
             | Some n \<Rightarrow> if (of_nat n :: u32) \<in> set dataIDs then d else ignore (Remove name d))
          else d) d ents))"

definition hintExists :: "u32 \<Rightarrow> fs \<Rightarrow> bool \<times> fs" where
  "hintExists i d =
     (case statIsDir (hintPath i) d of (Inl _, d) \<Rightarrow> (False, d) | (Inr isd, d) \<Rightarrow> (\<not> isd, d))"

text \<open>\<open>buildHint\<close>: list every record of an immutable data file in a hint file.\<close>

definition hint_visitor :: "u32 \<Rightarrow> (hintWriter \<times> fs) visitor" where
  "hint_visitor i ps raw r = (\<lambda>(h, d).
     (case add (key r) \<lparr> pos = ps, eseq = rseq r, fileID = i, esize = of_nat (length raw), tomb = False \<rparr>
         (flags r) h d of
        (Inl er, d) \<Rightarrow> (Some er, (h, d))
      | (Inr h, d) \<Rightarrow> (None, (h, d))))"

definition buildHint :: "u32 \<Rightarrow> fs \<Rightarrow> (fs, unit) res" where
  "buildHint i d =
     andThen (newHintWriter i d) (\<lambda>h d.
       (case openFile (dataPath i) False d of
          (Inl er, d) \<Rightarrow> (Inl er, abort h d)
        | (Inr f, d) \<Rightarrow> (case readAll f d of ((bs, _), d) \<Rightarrow>
            (case scanFile (Inr bs) (hint_visitor i) (h, d) of
               (_, Some er, (h, d)) \<Rightarrow> (Inl er, abort h d)
             | (_, None, (h, d)) \<Rightarrow> andThen (commit h d) (\<lambda>_ d. syncDir d)))))"

section \<open>File names\<close>

lemmas name_consts [evals] = dataSuffix_def hintSuffix_def hintMagic_def hintHeaderSize_def tmpPath_def lit_def

lemma dataPath_inj [simp]: "dataPath i = dataPath j \<longleftrightarrow> i = j"
  by (simp add: dataPath_def digits10_inj word_unat_eq_iff)

lemma hintPath_inj [simp]: "hintPath i = hintPath j \<longleftrightarrow> i = j"
  by (simp add: hintPath_def digits10_inj word_unat_eq_iff)

lemma last_names [simp]:
  "last (dataPath i) = 97" "last (hintPath i) = 116" "last (tmpPath n) = 112"
  by (simp_all add: dataPath_def hintPath_def name_consts)

lemma names_differ [simp]:
  "dataPath i \<noteq> hintPath j" "hintPath j \<noteq> dataPath i" "dataPath i \<noteq> tmpPath n"
  "tmpPath n \<noteq> dataPath i" "hintPath i \<noteq> tmpPath n" "tmpPath n \<noteq> hintPath i"
  by (auto dest: arg_cong [of _ _ last])

lemma u32_fits: "unat (i :: u32) < 2 ^ 32"
  using unat_u32_bound [of i] by simp

lemma parse_dataPath: "ParseUint (TrimSuffix (dataPath i) dataSuffix) 32 = Some (unat i)"
  unfolding dataPath_def TrimSuffix_append by (rule ParseUint_digits10 [OF u32_fits])

lemma parse_hintPath: "ParseUint (TrimSuffix (hintPath i) hintSuffix) 32 = Some (unat i)"
  unfolding hintPath_def TrimSuffix_append by (rule ParseUint_digits10 [OF u32_fits])

section \<open>Hint entries\<close>

definition hint_bytes :: "bytes \<times> entry \<times> byte \<Rightarrow> bytes" where
  "hint_bytes x = (case x of (k, e, fl) \<Rightarrow>
     le_bytes 8 (eseq e) @ [fl] @ le_bytes 8 (of_nat (pos e) :: u64) @ le_bytes 4 (esize e) @
     le_bytes 4 (of_nat (length k) :: u32) @ k)"

definition hint_ok :: "bytes \<times> entry \<times> byte \<Rightarrow> bool" where
  "hint_ok x = (case x of (k, e, fl) \<Rightarrow> 0 < length k \<and> length k \<le> MaxKeySize \<and> pos e < 2 ^ 64)"

lemma hint_header_bytes: "hint_header k e fl @ k = hint_bytes (k, e, fl)"
proof -
  have 0: "replicate hintHeaderSize (0::byte) =
      replicate 8 0 @ [0] @ replicate 8 0 @ replicate 4 0 @ replicate 4 0"
    by (simp add: hintHeaderSize_def eval_nat_numeral)
  show ?thesis
    unfolding hint_header_def Let_def 0 by (simp add: put_at_def hint_bytes_def)
qed

lemma hint_fields:
  "bslice 0 8 (hint_bytes (k, e, fl) @ zs) = le_bytes 8 (eseq e)"
  "(hint_bytes (k, e, fl) @ zs) ! 8 = fl"
  "bslice 9 17 (hint_bytes (k, e, fl) @ zs) = le_bytes 8 (of_nat (pos e) :: u64)"
  "bslice 17 21 (hint_bytes (k, e, fl) @ zs) = le_bytes 4 (esize e)"
  "bslice 21 25 (hint_bytes (k, e, fl) @ zs) = le_bytes 4 (of_nat (length k) :: u32)"
  "drop 25 (hint_bytes (k, e, fl) @ zs) = k @ zs"
  "length (hint_bytes (k, e, fl)) = 25 + length k"
  "take 8 (hint_bytes (k, e, fl)) = le_bytes 8 (eseq e)" "drop 25 (hint_bytes (k, e, fl)) = k"
  by (simp_all add: hint_bytes_def bslice_def nth_append)

lemma hint_loop_entry:
  assumes "hint_ok (k, e, fl)"
  shows "hint_loop i fn failed (hint_bytes (k, e, fl) @ zs) st =
    hint_loop i fn failed zs (fn k (e\<lparr>fileID := i, tomb := False\<rparr>) fl st)"
proof -
  have k: "unat (of_nat (length k) :: u32) = length k" and p: "unat (of_nat (pos e) :: u64) = pos e"
    using assms by (simp_all add: hint_ok_def record_consts unat_of_nat)
  have "\<not> (length k = 0 \<or> length k > MaxKeySize)" using assms by (auto simp: hint_ok_def)
  moreover have upd: "e\<lparr>fileID := i, tomb := False\<rparr> =
      \<lparr> pos = pos e, eseq = eseq e, fileID = i, esize = esize e, tomb = False \<rparr>" by (cases e) simp
  ultimately show ?thesis
    unfolding upd
    by (subst hint_loop.simps)
       (simp add: hint_fields k p le_word_le_bytes hintHeaderSize_def Let_def)
qed

lemma hint_loop_all:
  "list_all hint_ok xs \<Longrightarrow>
   hint_loop i fn False (concat (map hint_bytes xs)) st =
     (None, foldl (\<lambda>st (k, e, fl). fn k (e\<lparr>fileID := i, tomb := False\<rparr>) fl st) st xs)"
proof (induction xs arbitrary: st)
  case Nil
  then show ?case by (simp add: hint_loop.simps hintHeaderSize_def)
next
  case (Cons x xs)
  then show ?case by (cases x) (simp add: hint_loop_entry)
qed

section \<open>Writing hints\<close>

text \<open>What a writer has taken so far: file and buffer together hold the magic and the entries.\<close>

definition hw_rep :: "u32 \<Rightarrow> hintWriter \<Rightarrow> fs \<Rightarrow> (bytes \<times> entry \<times> byte) list \<Rightarrow> bool" where
  "hw_rep i h d xs \<longleftrightarrow> dest h = hintPath i \<and> tmp h = tmpPath (hintPath i) \<and>
     fopen (hf h) \<and> fwr (hf h) \<and> ino (hf h) < length (inodes d) \<and> \<not> isdir (inodes d ! ino (hf h)) \<and>
     map_of (dir d) (tmp h) = Some (ino (hf h)) \<and>
     content (the_file d (hf h)) @ hbuf h = hintMagic @ concat (map hint_bytes xs)"

lemma add_ok:
  assumes "hw_rep i h d xs" and "faults d = []"
  obtains h' d' where "add k e fl h d = (Inr h', d')" "hw_rep i h' d' (xs @ [(k, e, fl)])"
    "faults d' = []" "hf h' = hf h" "dir d' = dir d" "length (inodes d') = length (inodes d)"
    "\<forall>j. j \<noteq> ino (hf h) \<longrightarrow> inodes d' ! j = inodes d ! j"
proof -
  have f: "fopen (hf h)" "fwr (hf h)" "ino (hf h) < length (inodes d)" using assms by (simp_all add: hw_rep_def)
  obtain b1 d1 where 1: "bufWrite (hf h) (hbuf h) (hint_header k e fl) d = (Inr b1, d1)" "faults d1 = []"
      "dir d1 = dir d" "length (inodes d1) = length (inodes d)"
      "content (the_file d1 (hf h)) @ b1 = content (the_file d (hf h)) @ hbuf h @ hint_header k e fl"
      "\<forall>j. j \<noteq> ino (hf h) \<longrightarrow> inodes d1 ! j = inodes d ! j" "isdir (inodes d1 ! ino (hf h)) = isdir (inodes d ! ino (hf h))"
    by (rule bufWrite_ok [OF assms(2) f, of "hbuf h" "hint_header k e fl"])
  obtain b2 d2 where 2: "bufWrite (hf h) b1 k d1 = (Inr b2, d2)" "faults d2 = []"
      "dir d2 = dir d1" "length (inodes d2) = length (inodes d1)"
      "content (the_file d2 (hf h)) @ b2 = content (the_file d1 (hf h)) @ b1 @ k"
      "\<forall>j. j \<noteq> ino (hf h) \<longrightarrow> inodes d2 ! j = inodes d1 ! j" "isdir (inodes d2 ! ino (hf h)) = isdir (inodes d1 ! ino (hf h))"
    by (rule bufWrite_ok [OF 1(2) f(1,2), of b1 k]) (use f(3) 1(4) in auto)
  have "content (the_file d2 (hf h)) @ b2 = (content (the_file d (hf h)) @ hbuf h) @ hint_header k e fl @ k"
    using 2(5) 1(5) by (metis append_assoc)
  then have "content (the_file d2 (hf h)) @ b2 = hintMagic @ concat (map hint_bytes (xs @ [(k, e, fl)]))"
    using assms(1) by (simp add: hw_rep_def hint_header_bytes)
  with 1 2 assms show ?thesis
    by (intro that [of "h\<lparr>hbuf := b2\<rparr>" d2]) (auto simp: add_def hw_rep_def)
qed

lemma newHintWriter_ok:
  assumes "fault d = (None, d0)" and "\<And>j. map_of (dir d) (tmpPath (hintPath i)) = Some j \<Longrightarrow>
      j < length (inodes d) \<and> \<not> isdir (inodes d ! j)"
  obtains h d' where "newHintWriter i d = (Inr h, d')" "hw_rep i h d' []" "faults d' = faults d0"
    "\<forall>n. n \<noteq> tmpPath (hintPath i) \<longrightarrow> map_of (dir d') n = map_of (dir d) n"
    "\<forall>j < length (inodes d). j \<noteq> ino (hf h) \<longrightarrow> inodes d' ! j = inodes d ! j"
    "length (inodes d) \<le> length (inodes d')"
    "ino (hf h) = length (inodes d) \<or> map_of (dir d) (tmpPath (hintPath i)) = Some (ino (hf h))"
    "distinct (map fst (dir d)) \<longrightarrow> distinct (map fst (dir d'))"
proof -
  have d0: "dir d0 = dir d" "inodes d0 = inodes d" using fault_frame [OF assms(1)] by (metis fs.select_convs fs.surjective fs.update_convs(4))+
  obtain f d1 where o: "openTrunc (tmpPath (hintPath i)) d = (Inr f, d1)" "faults d1 = faults d0"
      "fopen f" "fwr f" "ino f < length (inodes d1)" "content (the_file d1 f) = []"
      "map_of (dir d1) (tmpPath (hintPath i)) = Some (ino f)"
      "\<forall>n. n \<noteq> tmpPath (hintPath i) \<longrightarrow> map_of (dir d1) n = map_of (dir d) n"
      "\<forall>j < length (inodes d). j \<noteq> ino f \<longrightarrow> inodes d1 ! j = inodes d ! j"
      "length (inodes d) \<le> length (inodes d1)"
      "ino f = length (inodes d) \<or> map_of (dir d) (tmpPath (hintPath i)) = Some (ino f)"
      "distinct (map fst (dir d)) \<longrightarrow> distinct (map fst (dir d1))" "\<not> isdir (inodes d1 ! ino f)"
  proof (cases "map_of (dir d) (tmpPath (hintPath i))")
    case None
    show ?thesis
      by (rule that [of "\<lparr> ino = length (inodes d), fopen = True, fwr = True \<rparr>"
            "snd (openTrunc (tmpPath (hintPath i)) d)"])
         (use None assms d0 in \<open>simp_all add: openTrunc_def new_inode_def the_file_def nth_append update_conv' distinct_update\<close>)
  next
    case (Some j)
    show ?thesis
      by (rule that [of "\<lparr> ino = j, fopen = True, fwr = True \<rparr>" "snd (openTrunc (tmpPath (hintPath i)) d)"])
         (use Some assms d0 in \<open>simp_all add: openTrunc_def the_file_def set_file_def\<close>)
  qed
  then show ?thesis
    by (intro that [of "\<lparr> hf = f, hbuf = hintMagic, tmp = tmpPath (hintPath i), dest = hintPath i \<rparr>" d1])
       (simp_all add: newHintWriter_def bufWrite_def hw_rep_def Let_def name_consts)
qed

lemma commit_ok:
  assumes "hw_rep i h d xs" and "faults d = []"
    and "\<And>j. map_of (dir d) (hintPath i) = Some j \<Longrightarrow> \<not> isdir (inodes d ! j)"
    and "map_of (dir d) (hintPath i) \<noteq> Some (ino (hf h))"
  obtains d' where "commit h d = (Inr (), d')" "faults d' = []"
    "map_of (dir d') (hintPath i) = Some (ino (hf h))" "length (inodes d') = length (inodes d)"
    "content (inodes d' ! ino (hf h)) = hintMagic @ concat (map hint_bytes xs)"
    "durable (inodes d' ! ino (hf h)) = length (content (inodes d' ! ino (hf h)))"
    "\<forall>n. n \<noteq> hintPath i \<longrightarrow> n \<noteq> tmpPath (hintPath i) \<longrightarrow> map_of (dir d') n = map_of (dir d) n"
    "\<forall>j. j \<noteq> ino (hf h) \<longrightarrow> inodes d' ! j = inodes d ! j" "\<not> isdir (inodes d' ! ino (hf h))"
    "map_of (dir d') (tmpPath (hintPath i)) = None" "distinct (map fst (dir d)) \<longrightarrow> distinct (map fst (dir d'))"
proof -
  have f: "fopen (hf h)" "fwr (hf h)" "ino (hf h) < length (inodes d)" "\<not> isdir (inodes d ! ino (hf h))"
    and t: "map_of (dir d) (tmpPath (hintPath i)) = Some (ino (hf h))" "tmp h = tmpPath (hintPath i)" "dest h = hintPath i"
    using assms by (auto simp: hw_rep_def)
  obtain d1 where 1: "(if hbuf h = [] then (Inr (), d) else fileAppend (hf h) (hbuf h) d) = (Inr (), d1)"
      "faults d1 = []" "dir d1 = dir d" "length (inodes d1) = length (inodes d)"
      "content (the_file d1 (hf h)) = hintMagic @ concat (map hint_bytes xs)"
      "\<forall>j. j \<noteq> ino (hf h) \<longrightarrow> inodes d1 ! j = inodes d ! j" "\<not> isdir (inodes d1 ! ino (hf h))"
  proof (cases "hbuf h = []")
    case True
    then show ?thesis using assms by (intro that [of d]) (simp_all add: hw_rep_def)
  next
    case False
    then show ?thesis
      using assms f by (intro that [of "snd (fileAppend (hf h) (hbuf h) d)"])
        (simp_all add: fileAppend_ok hw_rep_def the_file_def set_file_def)
  qed
  have ren: "\<not> (case map_of (dir d) (hintPath i) of None \<Rightarrow> False | Some j \<Rightarrow> isdir (inodes d1 ! j))"
    using assms(3,4) 1(6) by (auto split: option.splits)
  show ?thesis
    using 1 f t ren
    by (intro that [of "snd (commit h d)"])
       (auto simp: commit_def SyncFile_def Rename_def Let_def set_file_def the_file_def
         update_conv' delete_conv' nth_list_update distinct_update distinct_delete split: option.splits)
qed

text \<open>The locators of the records of a log, as a scan computes them, with their flags.\<close>

fun log_entries :: "u32 \<Rightarrow> nat \<Rightarrow> krecord list \<Rightarrow> (bytes \<times> entry \<times> byte) list" where
  "log_entries i p [] = []"
| "log_entries i p (r # rs) =
     (key r, \<lparr> pos = p, eseq = rseq r, fileID = i, esize = of_nat (rec_size r), tomb = False \<rparr>, flags r)
     # log_entries i (p + rec_size r) rs"

lemma hint_visitor_add:
  "add (key r) \<lparr> pos = ps, eseq = rseq r, fileID = i, esize = of_nat (length raw), tomb = False \<rparr> (flags r) h d = (Inr h', d') \<Longrightarrow>
   hint_visitor i ps raw r (h, d) = (None, (h', d'))"
  by (simp add: hint_visitor_def)

lemma visit_hint:
  assumes "hw_rep i h d xs" and "faults d = []"
  obtains h' d' where "visit_all (hint_visitor i) p rs (h, d) = (p + length (encode_all rs), None, (h', d'))"
    "hw_rep i h' d' (xs @ log_entries i p rs)" "faults d' = []" "hf h' = hf h" "dir d' = dir d"
    "length (inodes d') = length (inodes d)"
    "\<forall>j. j \<noteq> ino (hf h) \<longrightarrow> inodes d' ! j = inodes d ! j"
  using assms
proof (induction rs arbitrary: p h d xs thesis)
  case Nil
  then show ?case by simp
next
  case (Cons r rs)
  let ?e = "\<lparr> pos = p, eseq = rseq r, fileID = i, esize = of_nat (rec_size r), tomb = False \<rparr>"
  obtain h1 d1 where 1: "add (key r) ?e (flags r) h d = (Inr h1, d1)"
      "hw_rep i h1 d1 (xs @ [(key r, ?e, flags r)])" "faults d1 = []" "hf h1 = hf h" "dir d1 = dir d"
      "length (inodes d1) = length (inodes d)" "\<forall>j. j \<noteq> ino (hf h) \<longrightarrow> inodes d1 ! j = inodes d ! j"
    by (rule add_ok [OF Cons.prems(2,3)])
  obtain h2 d2 where 2: "visit_all (hint_visitor i) (p + rec_size r) rs (h1, d1) =
        (p + rec_size r + length (encode_all rs), None, (h2, d2))"
      "hw_rep i h2 d2 ((xs @ [(key r, ?e, flags r)]) @ log_entries i (p + rec_size r) rs)" "faults d2 = []"
      "hf h2 = hf h1" "dir d2 = dir d1" "length (inodes d2) = length (inodes d1)"
      "\<forall>j. j \<noteq> ino (hf h1) \<longrightarrow> inodes d2 ! j = inodes d1 ! j"
    by (rule Cons.IH [OF _ 1(2,3)])
  show ?case
    by (rule Cons.prems(1) [of h2 d2]) (use 1 2 in \<open>simp_all add: hint_visitor_add add.assoc\<close>)
qed

lemma log_entries_ok:
  "list_all wf_rec rs \<Longrightarrow> p + length (encode_all rs) < 2 ^ 64 \<Longrightarrow> list_all hint_ok (log_entries i p rs)"
  by (induction rs arbitrary: p) (auto simp: hint_ok_def wf_rec_def)

lemma log_entries_upd [simp]:
  "map (\<lambda>(k, e, fl). (k, e\<lparr>fileID := i, tomb := False\<rparr>, fl)) (log_entries i p rs) = log_entries i p rs"
  by (induction rs arbitrary: p) simp_all

text \<open>The hint and its temporary file are not in the way: no directories, no shared inodes.\<close>

definition hint_free :: "u32 \<Rightarrow> fs \<Rightarrow> bool" where
  "hint_free i d \<longleftrightarrow> (\<forall>n j. map_of (dir d) n = Some j \<longrightarrow> j < length (inodes d)) \<and>
     (\<forall>j. map_of (dir d) (tmpPath (hintPath i)) = Some j \<longrightarrow>
        \<not> isdir (inodes d ! j) \<and> map_of (dir d) (dataPath i) \<noteq> Some j \<and> map_of (dir d) (hintPath i) \<noteq> Some j) \<and>
     (\<forall>j. map_of (dir d) (hintPath i) = Some j \<longrightarrow> \<not> isdir (inodes d ! j))"

text \<open>The bytes a read delivers when the next fault is \<open>fl\<close>.\<close>

definition cut :: "nat \<Rightarrow> bytes \<Rightarrow> bytes" where
  "cut fl c = (case fl of 0 \<Rightarrow> c | Suc n \<Rightarrow> take n c)"

lemma readHint_complete:
  assumes "faults d = []" and "map_of (dir d) (hintPath i) = Some j"
    and "content (inodes d ! j) = hintMagic @ concat (map hint_bytes xs)" and "list_all hint_ok xs"
  shows "readHint i fn st d =
    ((None, foldl (\<lambda>st (k, e, fl). fn k (e\<lparr>fileID := i, tomb := False\<rparr>) fl st) st xs), d)"
  using assms by (simp add: readHint_def openFile_def readAll_def the_file_def hint_loop_all)

lemma foldl_log_entries:
  "foldl (\<lambda>st (k, e, fl). fn k (e\<lparr>fileID := i, tomb := False\<rparr>) fl st) st (log_entries i p rs) =
   foldl (\<lambda>st (k, e, fl). fn k e fl st) st (log_entries i p rs)"
  by (induction rs arbitrary: st p) simp_all

lemma buildHint_ok:
  assumes "faults d = [0, 0, fl] \<or> faults d = [] \<and> fl = 0" and "hint_free i d" and "map_of (dir d) (dataPath i) = Some j"
    and "cut fl (content (inodes d ! j)) = encode_all rs @ tail"
    and "list_all wf_rec rs" and "no_record tail"
  obtains d' j' where "buildHint i d = (Inr (), d')" "faults d' = []"
    "map_of (dir d') (hintPath i) = Some j'"
    "content (inodes d' ! j') = hintMagic @ concat (map hint_bytes (log_entries i 0 rs))"
    "map_of (dir d') (dataPath i) = Some j" "inodes d' ! j = inodes d ! j"
    "ddir d' = dir d'" "durable (inodes d' ! j') = length (content (inodes d' ! j'))" "\<not> isdir (inodes d' ! j')"
    "j' < length (inodes d')" "length (inodes d) \<le> length (inodes d')"
    "\<forall>n. n \<noteq> hintPath i \<longrightarrow> n \<noteq> tmpPath (hintPath i) \<longrightarrow> map_of (dir d') n = map_of (dir d) n"
    "map_of (dir d') (tmpPath (hintPath i)) = None" "\<forall>k < length (inodes d). k \<noteq> j' \<longrightarrow> inodes d' ! k = inodes d ! k"
    "j' = length (inodes d) \<or> map_of (dir d) (tmpPath (hintPath i)) = Some j'"
    "distinct (map fst (dir d)) \<longrightarrow> distinct (map fst (dir d'))"
proof -
  define fl1 where "fl1 = (if faults d = [] then [] else [0, fl])"
  define fl2 where "fl2 = (if faults d = [] then [] else [fl])"
  have f0: "fault d = (None, d\<lparr>faults := fl1\<rparr>)" using assms(1) by (auto simp: fault_def fl1_def)
  have j: "j < length (inodes d)" using assms(2,3) by (simp add: hint_free_def)
  obtain h d1 where 1: "newHintWriter i d = (Inr h, d1)" "hw_rep i h d1 []" "faults d1 = fl1"
      "\<forall>n. n \<noteq> tmpPath (hintPath i) \<longrightarrow> map_of (dir d1) n = map_of (dir d) n"
      "\<forall>j < length (inodes d). j \<noteq> ino (hf h) \<longrightarrow> inodes d1 ! j = inodes d ! j"
      "length (inodes d) \<le> length (inodes d1)"
      "ino (hf h) = length (inodes d) \<or> map_of (dir d) (tmpPath (hintPath i)) = Some (ino (hf h))"
      "distinct (map fst (dir d)) \<longrightarrow> distinct (map fst (dir d1))"
    by (rule newHintWriter_ok [OF f0, of i]) (use assms(2) in \<open>auto simp: hint_free_def\<close>)
  have jh: "j \<noteq> ino (hf h)"
    using 1(7) assms(2,3) less_irrefl [of "length (inodes d)"] j unfolding hint_free_def by metis
  let ?f = "\<lparr> ino = j, fopen = True, fwr = False \<rparr>" and ?d1 = "d1\<lparr>faults := fl2\<rparr>" and ?d2 = "d1\<lparr>faults := []\<rparr>"
  have open_f: "openFile (dataPath i) False d1 = (Inr ?f, ?d1)"
    using 1(3,4) assms(3) by (auto simp: openFile_def fault_def fl1_def fl2_def)
  have read_f: "readAll ?f ?d1 = ((encode_all rs @ tail, fl \<noteq> 0), ?d2)"
    using 1(5) j jh assms(4)
    using assms(1) by (cases fl) (auto simp: readAll_def fault_def the_file_def cut_def fl2_def)
  have rep2: "hw_rep i h ?d2 []" using 1(2) by (auto simp: hw_rep_def the_file_def)
  have f2: "faults ?d2 = []" by simp
  obtain h3 d3 where 3: "visit_all (hint_visitor i) 0 rs (h, ?d2) = (0 + length (encode_all rs), None, (h3, d3))"
      "hw_rep i h3 d3 ([] @ log_entries i 0 rs)" "faults d3 = []" "hf h3 = hf h" "dir d3 = dir ?d2"
      "length (inodes d3) = length (inodes ?d2)" "\<forall>j. j \<noteq> ino (hf h) \<longrightarrow> inodes d3 ! j = inodes ?d2 ! j"
    by (rule visit_hint [OF rep2 f2])
  have hint_dir: "map_of (dir d3) (hintPath i) = map_of (dir d) (hintPath i)" using 3(5) 1(4) by simp
  have hf_new: "map_of (dir d3) (hintPath i) \<noteq> Some (ino (hf h3))"
    using hint_dir 3(4) 1(7) assms(2) less_irrefl [of "length (inodes d)"] unfolding hint_free_def by metis
  have not_dir: "\<not> isdir (inodes d3 ! j)" if "map_of (dir d3) (hintPath i) = Some j" for j
    using that hint_dir hf_new 3(4,7) 1(5) assms(2) by (auto simp: hint_free_def)
  obtain d4 where 4: "commit h3 d3 = (Inr (), d4)" "faults d4 = []"
      "map_of (dir d4) (hintPath i) = Some (ino (hf h3))" "length (inodes d4) = length (inodes d3)"
      "content (inodes d4 ! ino (hf h3)) = hintMagic @ concat (map hint_bytes ([] @ log_entries i 0 rs))"
      "durable (inodes d4 ! ino (hf h3)) = length (content (inodes d4 ! ino (hf h3)))"
      "\<forall>n. n \<noteq> hintPath i \<longrightarrow> n \<noteq> tmpPath (hintPath i) \<longrightarrow> map_of (dir d4) n = map_of (dir d3) n"
      "\<forall>j. j \<noteq> ino (hf h3) \<longrightarrow> inodes d4 ! j = inodes d3 ! j" "\<not> isdir (inodes d4 ! ino (hf h3))"
      "map_of (dir d4) (tmpPath (hintPath i)) = None" "distinct (map fst (dir d3)) \<longrightarrow> distinct (map fst (dir d4))"
    by (rule commit_ok [OF 3(2,3) not_dir hf_new])
  have "buildHint i d = (Inr (), d4\<lparr>ddir := dir d4\<rparr>)"
    using 1(1) open_f read_f 3(1) 4(1,2) assms(5,6)
    by (simp add: buildHint_def scanFile_def scan_loop_encode_all syncDir_def)
  moreover have "ino (hf h3) < length (inodes d4)" using 3(2) 4(4) by (simp add: hw_rep_def)
  ultimately show ?thesis
    using 1 3 4 jh j assms(3)
    by (intro that [of "d4\<lparr>ddir := dir d4\<rparr>" "ino (hf h3)"]) simp_all
qed

text \<open>Reading a record back through its locator.\<close>

lemma readRecord_locates:
  assumes "fopen (dfile df)" and "wf_rec r"
    and "bslice (pos e) (pos e + rec_size r) (content (the_file d (dfile df))) = encode r"
    and "esize e = encodedSize (length (key r)) (length (val r))"
  shows "fst (readRecord df e d) = (case fault d of (None, _) \<Rightarrow> Inr (r, encode r) | (Some _, _) \<Rightarrow> Inl ErrIO)"
proof -
  have n: "unat (esize e) = rec_size r" using wf_rec_encodedSize [OF assms(2)] assms(4) by simp
  have "length (bslice (pos e) (pos e + rec_size r) (content (the_file d (dfile df)))) = rec_size r"
    by (simp add: assms(3))
  then have "pos e + rec_size r \<le> length (content (the_file d (dfile df)))"
    using rec_size_pos [of r] unfolding length_bslice by linarith
  moreover have "the_file d' (dfile df) = the_file d (dfile df)" if "fault d = (x, d')" for x d'
    using fault_frame [OF that] by (metis fs.select_convs(3) fs.surjective fs.update_convs(4) the_file_def)
  ultimately show ?thesis
    using assms(1,3) decodeRecord_encode [OF wf_rec_bounds(3) [OF assms(2)]]
    by (auto simp: readRecord_def ReadAt_def n split: prod.splits option.splits)
qed

section \<open>Properties of data and hint files\<close>

text \<open>
  C34. A hint file replaces the scan it was built from: when \<open>buildHint\<close> reads the bytes of a data
  file, it commits a hint, leaves the data file alone, and \<open>readHint\<close> then hands out exactly the
  locators and flags of the intact records at the front of those bytes, in log order. The bytes
  are the whole file when the read succeeds (\<open>fl = 0\<close>), and only a prefix when it fails after
  \<open>n\<close> bytes (\<open>fl = Suc n\<close>): the error is not noticed and the hint is committed without the rest.
\<close>

theorem buildHint_replays_scan:
  assumes "faults d = [0, 0, fl]" and "hint_free i d" and "map_of (dir d) (dataPath i) = Some j"
    and "cut fl (content (inodes d ! j)) = encode_all rs @ tail"
    and "list_all wf_rec rs" and "no_record tail" and "length (encode_all rs) < 2 ^ 63"
  shows "\<exists>d'. buildHint i d = (Inr (), d') \<and> inodes d' ! j = inodes d ! j \<and>
    fst (readHint i fn st d') = (None, foldl (\<lambda>st (k, e, f). fn k e f st) st (log_entries i 0 rs))"
proof -
  obtain d' j' where b: "buildHint i d = (Inr (), d')" "faults d' = []"
      "map_of (dir d') (hintPath i) = Some j'"
      "content (inodes d' ! j') = hintMagic @ concat (map hint_bytes (log_entries i 0 rs))"
      "map_of (dir d') (dataPath i) = Some j" "inodes d' ! j = inodes d ! j"
    by (rule buildHint_ok [OF disjI1 [OF assms(1)] assms(2-6)])
  have "list_all hint_ok (log_entries i 0 rs)" using assms(5,7) by (intro log_entries_ok) simp_all
  from readHint_complete [OF b(2-4) this, of fn st] b(1,6) show ?thesis by (simp add: foldl_log_entries)
qed

definition disk_ex :: fs where
  "disk_ex = \<lparr> dir = [(dataPath 1, 0)], ddir = [], inodes = [\<lparr> isdir = False, content = encode rec_ex @ encode rec_ex, durable = 64 \<rparr>],
     faults = [0, 0, 0] \<rparr>"

theorem buildHint_replays_scan_witness:
  "\<exists>d'. buildHint 1 disk_ex = (Inr (), d') \<and>
    fst (readHint 1 (\<lambda>k e f acc. acc @ [(k, pos e, eseq e, f)]) [] d') =
      (None, [([0x6B], 0, 7, 2), ([0x6B], 32, 7, 2)])"
proof -
  have "length (encode_all [rec_ex, rec_ex]) < 2 ^ 63"
    by (simp add: rec_size_def rec_ex_def evals)
  moreover have "list_all wf_rec [rec_ex, rec_ex]" by (simp add: rec_ex_wf)
  ultimately have "\<exists>d'. buildHint 1 disk_ex = (Inr (), d') \<and> inodes d' ! 0 = inodes disk_ex ! 0 \<and>
    fst (readHint 1 (\<lambda>k e f acc. acc @ [(k, pos e, eseq e, f)]) [] d') =
      (None, foldl (\<lambda>st (k, e, f). st @ [(k, pos e, eseq e, f)]) [] (log_entries 1 0 [rec_ex, rec_ex]))"
    by (intro buildHint_replays_scan [where fl = 0 and tail = "[]"])
       (simp_all add: disk_ex_def hint_free_def cut_def)
  then show ?thesis by (auto simp: rec_size_def rec_ex_def record_consts)
qed

end
