(* ===== verification/Skiplist.thy ===== *)
theory Skiplist
  imports Datafile
begin

text \<open>
  The ordered half of the in-memory index, \<open>internal/engine/skiplist.go\<close>, on an explicit heap.

  A pointer \<open>*slnode\<close> is an address into a list of nodes (allocation appends to it), \<open>nil\<close>
  is \<open>None\<close>. The pointer-chasing loops are \<open>partial_function (option)\<close>: the value
  \<open>None\<close> stands for a loop that does not end, an index out of range or a nil dereference. The
  lemmas show that on a well-formed list none of these happens and that every operation has
  the effect of the corresponding operation on the sorted list of its nodes.
\<close>

section \<open>Nodes and lists\<close>

type_synonym addr = nat

record slnode =
  nkey :: bytes
  ent :: entry
  nxt :: "addr option list"

type_synonym slheap = "slnode list"

record skiplist =
  head :: addr
  level :: nat
  cnt :: nat
  rnd :: u64

definition slMaxLevel :: nat where "slMaxLevel = 20"
definition slBranchMask :: u64 where "slBranchMask = 3"

definition zero_entry :: entry where
  "zero_entry = \<lparr> pos = 0, eseq = 0, fileID = 0, esize = 0, tomb = False \<rparr>"

definition newSkiplist :: "slheap \<Rightarrow> skiplist \<times> slheap" where
  "newSkiplist h =
     (\<lparr> head = length h, level = 1, cnt = 0, rnd = 0x9E3779B97F4A7C15 \<rparr>,
      h @ [\<lparr> nkey = [], ent = zero_entry, nxt = replicate slMaxLevel None \<rparr>])"

text \<open>\<open>randomLevel\<close>: a step of the xorshift generator, then a level from its low bits.\<close>

definition xorshift :: "u64 \<Rightarrow> u64" where
  "xorshift r =
     (let r = r XOR push_bit 13 r;
          r = r XOR drop_bit 7 r
      in r XOR push_bit 17 r)"

function level_loop :: "nat \<Rightarrow> u64 \<Rightarrow> nat" where
  "level_loop lvl x =
     (if lvl < slMaxLevel \<and> x AND slBranchMask = 0 then level_loop (Suc lvl) (drop_bit 2 x) else lvl)"
  by pat_completeness auto
termination
  by (relation "measure (\<lambda>(lvl, x). slMaxLevel - lvl)") auto

declare level_loop.simps [simp del]

definition randomLevel :: "skiplist \<Rightarrow> nat \<times> skiplist" where
  "randomLevel s = (let r = xorshift (rnd s) in (level_loop 1 r, s\<lparr>rnd := r\<rparr>))"

definition Len :: "skiplist \<Rightarrow> nat" where
  "Len s = cnt s"

section \<open>Pointer operations\<close>

text \<open>\<open>*p\<close>, \<open>p.next[i]\<close> and \<open>p.next[i] = q\<close>; \<open>None\<close> where Go panics.\<close>

definition node_at :: "slheap \<Rightarrow> addr \<Rightarrow> slnode option" where
  "node_at h a = (if a < length h then Some (h ! a) else None)"

definition next_at :: "slheap \<Rightarrow> nat \<Rightarrow> addr \<Rightarrow> addr option option" where
  "next_at h i a = do {
     n \<leftarrow> node_at h a;
     if i < length (nxt n) then Some (nxt n ! i) else None }"

definition set_next :: "slheap \<Rightarrow> nat \<Rightarrow> addr \<Rightarrow> addr option \<Rightarrow> slheap option" where
  "set_next h i a q = do {
     n \<leftarrow> node_at h a;
     if i < length (nxt n) then Some (h[a := n\<lparr>nxt := (nxt n)[i := q]\<rparr>]) else None }"

section \<open>Operations\<close>

text \<open>The inner search loop \<open>for x.next[i] != nil && x.next[i].key < key { x = x.next[i] }\<close>.\<close>

partial_function (option) walk :: "slheap \<Rightarrow> bytes \<Rightarrow> nat \<Rightarrow> addr \<Rightarrow> addr option" where
  "walk h k i x = do {
     nx \<leftarrow> next_at h i x;
     case nx of
       None \<Rightarrow> Some x
     | Some y \<Rightarrow> do {
         n \<leftarrow> node_at h y;
         if nkey n < k then walk h k i y else Some x } }"

text \<open>The outer loop from level \<open>i - 1\<close> down to 0, recording the predecessors in \<open>prev\<close>.\<close>

fun descend :: "slheap \<Rightarrow> bytes \<Rightarrow> nat \<Rightarrow> addr \<Rightarrow> addr option list \<Rightarrow> (addr \<times> addr option list) option" where
  "descend h k 0 x prev = Some (x, prev)"
| "descend h k (Suc i) x prev = do {
     x' \<leftarrow> walk h k i x;
     descend h k i x' (prev[i := Some x']) }"

text \<open>\<open>for i := 0; i < lvl; i++ { n.next[i] = prev[i].next[i]; prev[i].next[i] = n }\<close>, from level \<open>i\<close>.\<close>

function link :: "slheap \<Rightarrow> addr \<Rightarrow> addr option list \<Rightarrow> nat \<Rightarrow> nat \<Rightarrow> slheap option" where
  "link h n prev i lvl =
     (if i < lvl then do {
        p \<leftarrow> prev ! i;
        q \<leftarrow> next_at h i p;
        h \<leftarrow> set_next h i n q;
        h \<leftarrow> set_next h i p (Some n);
        link h n prev (Suc i) lvl }
      else Some h)"
  by pat_completeness auto
termination
  by (relation "measure (\<lambda>(h, n, prev, i, lvl). lvl - i)") auto

declare link.simps [simp del]

definition insert_sl :: "slheap \<Rightarrow> skiplist \<Rightarrow> bytes \<Rightarrow> entry \<Rightarrow> (addr \<times> slheap \<times> skiplist) option" where
  "insert_sl h s k e = do {
     (x, prev) \<leftarrow> descend h k (level s) (head s) (replicate slMaxLevel None);
     nx \<leftarrow> next_at h 0 x;
     found \<leftarrow> (case nx of
         None \<Rightarrow> Some None
       | Some a \<Rightarrow> do { n \<leftarrow> node_at h a; Some (if nkey n = k then Some (a, n) else None) });
     case found of
       Some (a, n) \<Rightarrow> Some (a, h[a := n\<lparr>ent := e\<rparr>], s)
     | None \<Rightarrow> do {
         let (lvl, s) = randomLevel s;
         let prev = (if lvl > level s
           then foldl (\<lambda>p i. p[i := Some (head s)]) prev [level s ..< lvl] else prev);
         let s = (if lvl > level s then s\<lparr>level := lvl\<rparr> else s);
         let n = length h;
         h \<leftarrow> link (h @ [\<lparr> nkey = k, ent = e, nxt = replicate lvl None \<rparr>]) n prev 0 lvl;
         Some (n, h, s\<lparr>cnt := cnt s + 1\<rparr>) } }"

text \<open>The unlinking loop of \<open>remove\<close>, from level \<open>i\<close>, and the loop that lowers the level.\<close>

function unlink :: "slheap \<Rightarrow> addr \<Rightarrow> addr option list \<Rightarrow> nat \<Rightarrow> nat \<Rightarrow> slheap option" where
  "unlink h target prev i lvl =
     (if i < lvl then do {
        p \<leftarrow> prev ! i;
        q \<leftarrow> next_at h i p;
        h \<leftarrow> (if q = Some target
               then do { t \<leftarrow> next_at h i target; set_next h i p t }
               else Some h);
        unlink h target prev (Suc i) lvl }
      else Some h)"
  by pat_completeness auto
termination
  by (relation "measure (\<lambda>(h, target, prev, i, lvl). lvl - i)") auto

declare unlink.simps [simp del]

fun lower_level :: "slheap \<Rightarrow> addr \<Rightarrow> nat \<Rightarrow> nat option" where
  "lower_level h hp 0 = Some 0"
| "lower_level h hp (Suc l) =
     (if Suc l > 1 then do {
        q \<leftarrow> next_at h l hp;
        if q = None then lower_level h hp l else Some (Suc l) }
      else Some (Suc l))"

definition remove_sl :: "slheap \<Rightarrow> skiplist \<Rightarrow> bytes \<Rightarrow> (bool \<times> slheap \<times> skiplist) option" where
  "remove_sl h s k = do {
     (x, prev) \<leftarrow> descend h k (level s) (head s) (replicate slMaxLevel None);
     target \<leftarrow> next_at h 0 x;
     case target of
       None \<Rightarrow> Some (False, h, s)
     | Some t \<Rightarrow> do {
         n \<leftarrow> node_at h t;
         if nkey n \<noteq> k then Some (False, h, s)
         else do {
           h \<leftarrow> unlink h t prev 0 (level s);
           lvl \<leftarrow> lower_level h (head s) (level s);
           Some (True, h, s\<lparr>level := lvl, cnt := cnt s - 1\<rparr>) } } }"

definition seek :: "slheap \<Rightarrow> skiplist \<Rightarrow> bytes \<Rightarrow> addr option option" where
  "seek h s k = do {
     (x, _) \<leftarrow> descend h k (level s) (head s) (replicate slMaxLevel None);
     next_at h 0 x }"

text \<open>\<open>scan\<close>: the callback updates a state of its own and returns whether to go on.\<close>

partial_function (option) scan_from ::
  "slheap \<Rightarrow> bytes \<Rightarrow> (slnode \<Rightarrow> 's \<Rightarrow> bool \<times> 's) \<Rightarrow> addr option \<Rightarrow> 's \<Rightarrow> 's option" where
  "scan_from h endk fn p st = (case p of
       None \<Rightarrow> Some st
     | Some a \<Rightarrow> do {
         n \<leftarrow> node_at h a;
         if endk \<noteq> [] \<and> endk < nkey n then Some st
         else (case fn n st of (go, st') \<Rightarrow>
           if \<not> go then Some st'
           else do {
               q \<leftarrow> next_at h 0 a;
               scan_from h endk fn q st' }) })"

definition scan :: "slheap \<Rightarrow> skiplist \<Rightarrow> bytes \<Rightarrow> bytes \<Rightarrow> (slnode \<Rightarrow> 's \<Rightarrow> bool \<times> 's) \<Rightarrow> 's \<Rightarrow> 's option" where
  "scan h s start endk fn st = do {
     p \<leftarrow> seek h s start;
     scan_from h endk fn p st }"

section \<open>Linked paths\<close>

text \<open>\<open>path f x ys\<close>: following \<open>f\<close> from \<open>x\<close> visits exactly \<open>ys\<close> and then ends.\<close>

primrec path :: "(addr \<Rightarrow> addr option) \<Rightarrow> addr \<Rightarrow> addr list \<Rightarrow> bool" where
  "path f x [] \<longleftrightarrow> f x = None"
| "path f x (y # ys) \<longleftrightarrow> f x = Some y \<and> path f y ys"

lemma path_cong: "(\<And>a. a \<in> set (x # ys) \<Longrightarrow> f a = g a) \<Longrightarrow> path f x ys = path g x ys"
  by (induction ys arbitrary: x) auto

lemma path_start:
  "f n = g x \<Longrightarrow> (\<And>a. a \<in> set ys \<Longrightarrow> f a = g a) \<Longrightarrow> path f n ys = path g x ys"
proof (cases ys)
  case (Cons y zs)
  assume "f n = g x" and eq: "\<And>a. a \<in> set ys \<Longrightarrow> f a = g a"
  moreover have "path f y zs = path g y zs"
    using eq Cons by (intro path_cong) auto
  ultimately show ?thesis by (simp add: Cons)
qed simp

lemma path_suffix: "path f x (us @ vs) \<Longrightarrow> path f (last (x # us)) vs"
  by (induction us arbitrary: x) auto

lemma path_insert:
  assumes "path f x (us @ vs)" and "n \<notin> set (x # us @ vs)" and "distinct (x # us @ vs)"
  shows "path (f(last (x # us) := Some n, n := f (last (x # us)))) x (us @ n # vs)"
  using assms
proof (induction us arbitrary: x)
  case Nil
  have "path (f(x := Some n, n := f x)) n vs = path f x vs"
    using Nil.prems by (intro path_start) auto
  with Nil.prems show ?case by (simp add: fun_upd_def)
next
  case (Cons u us)
  then have "x \<noteq> last (u # us)" by (metis distinct.simps(2) last_in_set list.distinct(1) append_Cons Un_iff set_append)
  with Cons show ?case by auto
qed

lemma path_delete:
  assumes "path f x (us @ t # vs)" and "distinct (x # us @ t # vs)"
  shows "path (f(last (x # us) := f t)) x (us @ vs)"
  using assms
proof (induction us arbitrary: x)
  case Nil
  have "path (f(x := f t)) x vs = path f t vs"
    using Nil.prems by (intro path_start) auto
  with Nil.prems show ?case by (simp add: fun_upd_def)
next
  case (Cons u us)
  then have "x \<noteq> last (u # us)" by (metis distinct.simps(2) last_in_set list.distinct(1) append_Cons Un_iff set_append)
  with Cons show ?case by auto
qed

section \<open>The representation invariant\<close>

abbreviation nx :: "slheap \<Rightarrow> nat \<Rightarrow> addr \<Rightarrow> addr option" where
  "nx h i a \<equiv> nxt (h ! a) ! i"

abbreviation on_level :: "slheap \<Rightarrow> nat \<Rightarrow> addr \<Rightarrow> bool" where
  "on_level h i a \<equiv> i < length (nxt (h ! a))"

text \<open>
  The nodes of the list, in order, are \<open>as\<close>: the keys increase strictly, every level links
  exactly the nodes tall enough for it, and no node is taller than the list's level.
\<close>

definition sl_rep :: "slheap \<Rightarrow> skiplist \<Rightarrow> addr list \<Rightarrow> bool" where
  "sl_rep h s as \<longleftrightarrow>
     distinct (head s # as) \<and> (\<forall>a \<in> set (head s # as). a < length h) \<and>
     length (nxt (h ! head s)) = slMaxLevel \<and>
     (\<forall>a \<in> set as. 1 \<le> length (nxt (h ! a)) \<and> length (nxt (h ! a)) \<le> level s) \<and>
     1 \<le> level s \<and> level s \<le> slMaxLevel \<and>
     sorted_wrt (<) (map (\<lambda>a. nkey (h ! a)) as) \<and> cnt s = length as \<and>
     (\<forall>i < slMaxLevel. path (nx h i) (head s) (filter (on_level h i) as))"

definition below :: "slheap \<Rightarrow> bytes \<Rightarrow> addr list \<Rightarrow> addr list" where
  "below h k as = takeWhile (\<lambda>a. nkey (h ! a) < k) as"

definition rest :: "slheap \<Rightarrow> bytes \<Rightarrow> addr list \<Rightarrow> addr list" where
  "rest h k as = dropWhile (\<lambda>a. nkey (h ! a) < k) as"

lemma below_rest: "below h k as @ rest h k as = as"
  by (simp add: below_def rest_def)

lemma below_subset: "a \<in> set (below h k as) \<Longrightarrow> a \<in> set as"
  and rest_subset: "a \<in> set (rest h k as) \<Longrightarrow> a \<in> set as"
  by (auto simp: below_def rest_def dest: set_takeWhileD set_dropWhileD)

lemma below_tail_iff:
  assumes "rest h k as = t # hi" and "distinct as"
  shows "a \<in> set (below h k as @ hi) \<longleftrightarrow> a \<in> set as \<and> a \<noteq> t"
proof -
  have "distinct (below h k as @ t # hi)" and "set as = set (below h k as @ t # hi)"
    using assms by (metis below_rest)+
  then show ?thesis by auto
qed

lemma below_less: "a \<in> set (below h k as) \<Longrightarrow> nkey (h ! a) < k"
  by (auto simp: below_def dest: set_takeWhileD)

lemma rest_ge:
  assumes "sorted_wrt (<) (map (\<lambda>a. nkey (h ! a)) as)" and "a \<in> set (rest h k as)"
  shows "k \<le> nkey (h ! a)"
  using assms
proof (induction as)
  case (Cons b bs)
  then show ?case by (auto simp: rest_def not_less split: if_splits)
qed (simp add: rest_def)

text \<open>The predecessor of \<open>k\<close> on level \<open>i\<close>.\<close>

definition pred_at :: "slheap \<Rightarrow> skiplist \<Rightarrow> bytes \<Rightarrow> addr list \<Rightarrow> nat \<Rightarrow> addr" where
  "pred_at h s k as i = last (head s # filter (on_level h i) (below h k as))"

lemma next_at_eq [simp]: "a < length h \<Longrightarrow> i < length (nxt (h ! a)) \<Longrightarrow> next_at h i a = Some (nx h i a)"
  by (simp add: next_at_def node_at_def)

lemma node_at_eq [simp]: "a < length h \<Longrightarrow> node_at h a = Some (h ! a)"
  by (simp add: node_at_def)

lemma set_next_eq [simp]:
  "a < length h \<Longrightarrow> i < length (nxt (h ! a)) \<Longrightarrow>
   set_next h i a q = Some (h[a := (h ! a)\<lparr>nxt := (nxt (h ! a))[i := q]\<rparr>])"
  by (simp add: set_next_def)

lemma walk_path:
  assumes "path (nx h i) x (us @ vs)"
    and "\<And>a. a \<in> set (x # us @ vs) \<Longrightarrow> a < length h \<and> on_level h i a"
    and "\<And>a. a \<in> set us \<Longrightarrow> nkey (h ! a) < k"
    and "vs \<noteq> [] \<Longrightarrow> \<not> nkey (h ! hd vs) < k"
  shows "walk h k i x = Some (last (x # us))"
  using assms
proof (induction us arbitrary: x)
  case Nil
  then show ?case by (cases vs) (simp_all add: walk.simps)
next
  case (Cons u us)
  have "walk h k i u = Some (last (u # us))"
    using Cons.prems by (intro Cons.IH) auto
  with Cons.prems show ?case by (simp add: walk.simps [of h k i x])
qed

lemma sl_rep_valid:
  assumes "sl_rep h s as" and "i < slMaxLevel" and "a = head s \<or> a \<in> set as \<and> on_level h i a"
  shows "a < length h \<and> on_level h i a"
  using assms by (auto simp: sl_rep_def)

lemma walk_pred:
  assumes rep: "sl_rep h s as" and i: "i < slMaxLevel"
    and x: "x \<in> set (head s # filter (on_level h i) (below h k as))"
  shows "walk h k i x = Some (pred_at h s k as i)"
proof -
  let ?lo = "filter (on_level h i) (below h k as)" and ?hi = "filter (on_level h i) (rest h k as)"
  have as: "filter (on_level h i) as = ?lo @ ?hi"
    by (metis below_rest filter_append)
  from x obtain us vs where uv: "head s # ?lo = us @ x # vs" by (meson split_list)
  have "path (nx h i) (head s) (?lo @ ?hi)"
    using rep i by (simp add: sl_rep_def flip: as)
  then have "path (nx h i) x (vs @ ?hi)"
    using uv path_suffix [of "nx h i" "head s" "tl us @ [x]" "vs @ ?hi"] by (cases us) auto
  moreover have "last (x # vs) = pred_at h s k as i"
    unfolding pred_at_def uv by simp
  moreover have sub: "set (x # vs) \<subseteq> set (head s # ?lo)" unfolding uv by auto
  have valid: "a < length h \<and> on_level h i a" if "a \<in> set (x # vs @ ?hi)" for a
  proof (rule sl_rep_valid [OF rep i])
    show "a = head s \<or> a \<in> set as \<and> on_level h i a"
      using that sub below_subset [of a h k as] rest_subset [of a h k as] by auto
  qed
  moreover have "nkey (h ! a) < k" if "a \<in> set vs" for a
  proof -
    have "distinct (head s # below h k as @ rest h k as)"
      using rep by (simp add: sl_rep_def below_rest)
    then have "distinct (head s # ?lo)" by simp
    then have "a \<noteq> head s" using that uv by (cases us) auto
    then show ?thesis using that sub by (auto dest: below_less)
  qed
  moreover have "\<not> nkey (h ! hd ?hi) < k" if "?hi \<noteq> []"
    using that rest_ge [of h as "hd ?hi" k] rep hd_in_set [OF that] by (auto simp: sl_rep_def not_less)
  ultimately show ?thesis using walk_path [of h i x vs ?hi k] by metis
qed

lemma descend_pred:
  assumes "sl_rep h s as" and "i \<le> slMaxLevel" and "length prev = slMaxLevel"
    and "x = head s \<or> x \<in> set (below h k as) \<and> i \<le> length (nxt (h ! x))"
  shows "\<exists>prev'. descend h k i x prev = Some (if i = 0 then x else pred_at h s k as 0, prev') \<and>
     length prev' = slMaxLevel \<and>
     (\<forall>j. prev' ! j = (if j < i then Some (pred_at h s k as j) else prev ! j))"
  using assms
proof (induction i arbitrary: x prev)
  case (Suc i)
  have w: "walk h k i x = Some (pred_at h s k as i)"
    using Suc.prems by (intro walk_pred) auto
  have "pred_at h s k as i \<in> set (head s # filter (on_level h i) (below h k as))"
    unfolding pred_at_def by (rule last_in_set) simp
  then have "pred_at h s k as i = head s \<or>
      pred_at h s k as i \<in> set (below h k as) \<and> i \<le> length (nxt (h ! pred_at h s k as i))"
    by auto
  from Suc.IH [OF Suc.prems(1) _ _ this, of "prev[i := Some (pred_at h s k as i)]"] Suc.prems
  obtain prev' where "descend h k i (pred_at h s k as i) (prev[i := Some (pred_at h s k as i)])
        = Some (if i = 0 then pred_at h s k as i else pred_at h s k as 0, prev')"
      "length prev' = slMaxLevel"
      "\<forall>j. prev' ! j = (if j < i then Some (pred_at h s k as j) else prev[i := Some (pred_at h s k as i)] ! j)"
    by auto
  with w Suc.prems show ?case
    by (intro exI [of _ prev']) (auto simp: nth_list_update less_Suc_eq)
qed auto

section \<open>Heap updates\<close>

text \<open>\<open>h'\<close> has the nodes of \<open>h\<close>, with keys, entries and heights kept.\<close>

definition same_nodes :: "slheap \<Rightarrow> slheap \<Rightarrow> bool" where
  "same_nodes h h' \<longleftrightarrow> length h' = length h \<and>
     (\<forall>a. nkey (h' ! a) = nkey (h ! a) \<and> ent (h' ! a) = ent (h ! a) \<and>
          length (nxt (h' ! a)) = length (nxt (h ! a)))"

lemma same_nodes_refl [simp]: "same_nodes h h"
  by (simp add: same_nodes_def)

lemma same_nodes_trans: "same_nodes h h' \<Longrightarrow> same_nodes h' h'' \<Longrightarrow> same_nodes h h''"
  by (simp add: same_nodes_def)

lemma same_nodes_set:
  "a < length h \<Longrightarrow> same_nodes h (h[a := (h ! a)\<lparr>nxt := (nxt (h ! a))[i := q]\<rparr>])"
  by (auto simp: same_nodes_def nth_list_update)

lemma nx_set:
  "a < length h \<Longrightarrow> i < length (nxt (h ! a)) \<Longrightarrow>
   nx (h[a := (h ! a)\<lparr>nxt := (nxt (h ! a))[i := q]\<rparr>]) j b = (if b = a \<and> j = i then q else nx h j b)"
  by (auto simp: nth_list_update)

lemma link_spec:
  assumes "n < length h" and "length (nxt (h ! n)) = lvl" and "i \<le> lvl"
    and "\<And>j. j < lvl \<Longrightarrow> prev ! j = Some (pr j) \<and> pr j < length h \<and> pr j \<noteq> n \<and> on_level h j (pr j)"
  shows "\<exists>h'. link h n prev i lvl = Some h' \<and> same_nodes h h' \<and>
     (\<forall>j a. nx h' j a = (if i \<le> j \<and> j < lvl
        then ((nx h j)(pr j := Some n, n := nx h j (pr j))) a else nx h j a))"
  using assms
proof (induction "lvl - i" arbitrary: h i)
  case 0
  then show ?case by (intro exI [of _ h]) (auto simp: link.simps)
next
  case (Suc d)
  then have i: "i < lvl" by simp
  let ?p = "pr i" and ?q = "nx h i (pr i)"
  define h1 where "h1 = h[n := (h ! n)\<lparr>nxt := (nxt (h ! n))[i := ?q]\<rparr>]"
  define h2 where "h2 = h1[?p := (h1 ! ?p)\<lparr>nxt := (nxt (h1 ! ?p))[i := Some n]\<rparr>]"
  have p: "prev ! i = Some ?p" "?p < length h" "?p \<noteq> n" "on_level h i ?p"
    using Suc.prems(4) [OF i] by auto
  have s1: "same_nodes h h1" unfolding h1_def by (rule same_nodes_set) (rule Suc.prems)
  then have v1: "?p < length h1" "on_level h1 i ?p" "n < length h1"
    using p Suc.prems(1) by (simp_all add: same_nodes_def)
  have s2: "same_nodes h h2"
    using s1 same_nodes_set [OF v1(1)] unfolding h2_def by (rule same_nodes_trans)
  have nx2: "nx h2 j a = (if j = i then ((nx h j)(?p := Some n, n := ?q)) a else nx h j a)" for j a
    unfolding h2_def nx_set [OF v1(1,2)] unfolding h1_def
    using Suc.prems(1,2) i p(3) by (subst nx_set) auto
  have step: "link h n prev i lvl = link h2 n prev (Suc i) lvl"
    using i p Suc.prems(1,2) v1 unfolding link.simps [of h n prev i lvl] h2_def h1_def
    by (simp del: link.simps)
  have "\<exists>h'. link h2 n prev (Suc i) lvl = Some h' \<and> same_nodes h2 h' \<and>
     (\<forall>j a. nx h' j a = (if Suc i \<le> j \<and> j < lvl
        then ((nx h2 j)(pr j := Some n, n := nx h2 j (pr j))) a else nx h2 j a))"
    using Suc.hyps Suc.prems s2 i by (intro Suc.hyps(1)) (auto simp: same_nodes_def)
  then obtain h' where h': "link h2 n prev (Suc i) lvl = Some h'" "same_nodes h2 h'"
     "\<And>j a. nx h' j a = (if Suc i \<le> j \<and> j < lvl
        then ((nx h2 j)(pr j := Some n, n := nx h2 j (pr j))) a else nx h2 j a)"
    by blast
  have "nx h' j a = (if i \<le> j \<and> j < lvl
        then ((nx h j)(pr j := Some n, n := nx h j (pr j))) a else nx h j a)" for j a
    using i by (cases "j = i") (auto simp: h'(3) nx2)
  then show ?case
    using step h'(1) same_nodes_trans [OF s2 h'(2)] by auto
qed

lemma unlink_spec:
  assumes "t < length h" and "i \<le> lvl"
    and "\<And>j. j < lvl \<Longrightarrow> prev ! j = Some (pr j) \<and> pr j < length h \<and> on_level h j (pr j) \<and>
           (nx h j (pr j) = Some t \<longrightarrow> on_level h j t)"
  shows "\<exists>h'. unlink h t prev i lvl = Some h' \<and> same_nodes h h' \<and>
     (\<forall>j a. nx h' j a = (if i \<le> j \<and> j < lvl \<and> nx h j (pr j) = Some t
        then ((nx h j)(pr j := nx h j t)) a else nx h j a))"
  using assms
proof (induction "lvl - i" arbitrary: h i)
  case 0
  then show ?case by (intro exI [of _ h]) (auto simp: unlink.simps)
next
  case (Suc d)
  then have i: "i < lvl" by simp
  let ?p = "pr i"
  define h1 where "h1 = (if nx h i ?p = Some t
    then h[?p := (h ! ?p)\<lparr>nxt := (nxt (h ! ?p))[i := nx h i t]\<rparr>] else h)"
  have p: "prev ! i = Some ?p" "?p < length h" "on_level h i ?p" "nx h i ?p = Some t \<Longrightarrow> on_level h i t"
    using Suc.prems(3) [OF i] by auto
  have s1: "same_nodes h h1" unfolding h1_def using same_nodes_set [OF p(2)] by simp
  have nx1: "nx h1 j a = (if j = i \<and> nx h i ?p = Some t then ((nx h j)(?p := nx h i t)) a else nx h j a)" for j a
    unfolding h1_def using p by (auto simp: nth_list_update)
  have step: "unlink h t prev i lvl = unlink h1 t prev (Suc i) lvl"
    using i p Suc.prems(1) unfolding unlink.simps [of h t prev i lvl] h1_def by simp
  have "\<exists>h'. unlink h1 t prev (Suc i) lvl = Some h' \<and> same_nodes h1 h' \<and>
     (\<forall>j a. nx h' j a = (if Suc i \<le> j \<and> j < lvl \<and> nx h1 j (pr j) = Some t
        then ((nx h1 j)(pr j := nx h1 j t)) a else nx h1 j a))"
    using Suc.hyps Suc.prems s1 i
    by (intro Suc.hyps(1)) (auto simp: same_nodes_def nx1 split: if_splits)
  then obtain h' where h': "unlink h1 t prev (Suc i) lvl = Some h'" "same_nodes h1 h'"
     "\<And>j a. nx h' j a = (if Suc i \<le> j \<and> j < lvl \<and> nx h1 j (pr j) = Some t
        then ((nx h1 j)(pr j := nx h1 j t)) a else nx h1 j a)"
    by blast
  have "nx h' j a = (if i \<le> j \<and> j < lvl \<and> nx h j (pr j) = Some t
        then ((nx h j)(pr j := nx h j t)) a else nx h j a)" for j a
    using i by (cases "j = i") (auto simp: h'(3) nx1)
  then show ?case
    using step h'(1) same_nodes_trans [OF s1 h'(2)] by auto
qed

section \<open>Correctness of the operations\<close>

lemma below_rest_filter:
  "filter P as = filter P (below h k as) @ filter P (rest h k as)"
  by (metis below_rest filter_append)

lemma sl_rep_path:
  assumes "sl_rep h s as" and "i < slMaxLevel"
  shows "path (nx h i) (head s) (filter (on_level h i) (below h k as) @ filter (on_level h i) (rest h k as))"
  using assms unfolding below_rest_filter [symmetric] by (simp add: sl_rep_def)

lemma sl_rep_distinct: "sl_rep h s as \<Longrightarrow> distinct (head s # below h k as @ rest h k as)"
  by (simp add: sl_rep_def below_rest)

lemma level0_all:
  assumes "sl_rep h s as"
  shows "filter (on_level h 0) (below h k as) = below h k as" "filter (on_level h 0) (rest h k as) = rest h k as"
  using assms below_subset [of _ h k as] rest_subset [of _ h k as]
  by (fastforce simp: sl_rep_def filter_id_conv Suc_le_eq)+

lemma pred_at_valid:
  assumes "sl_rep h s as" and "i < slMaxLevel"
  shows "pred_at h s k as i < length h" "on_level h i (pred_at h s k as i)"
proof -
  have "pred_at h s k as i \<in> set (head s # filter (on_level h i) (below h k as))"
    unfolding pred_at_def by (rule last_in_set) simp
  then have "pred_at h s k as i = head s \<or> pred_at h s k as i \<in> set as \<and> on_level h i (pred_at h s k as i)"
    using below_subset by auto
  from sl_rep_valid [OF assms this] show "pred_at h s k as i < length h" "on_level h i (pred_at h s k as i)"
    by auto
qed

lemma pred_at_high:
  assumes "sl_rep h s as" and "level s \<le> i"
  shows "pred_at h s k as i = head s"
proof -
  have "filter (on_level h i) (below h k as) = []"
    using assms below_subset by (fastforce simp: sl_rep_def filter_empty_conv)
  then show ?thesis by (simp add: pred_at_def)
qed

lemma next_pred:
  assumes "sl_rep h s as" and "i < slMaxLevel"
  shows "nx h i (pred_at h s k as i) =
     (case filter (on_level h i) (rest h k as) of [] \<Rightarrow> None | a # _ \<Rightarrow> Some a)"
  using path_suffix [OF sl_rep_path [OF assms, of k]]
  by (auto simp: pred_at_def split: list.splits)

lemma next_pred_0:
  assumes "sl_rep h s as"
  shows "next_at h 0 (pred_at h s k as 0) = Some (case rest h k as of [] \<Rightarrow> None | a # _ \<Rightarrow> Some a)"
  using next_pred [OF assms, of 0 k] pred_at_valid [OF assms, of 0 k] level0_all [OF assms, of k]
  by (simp add: slMaxLevel_def)

lemma search:
  assumes "sl_rep h s as"
  obtains prev where "descend h k (level s) (head s) (replicate slMaxLevel None) = Some (pred_at h s k as 0, prev)"
    and "length prev = slMaxLevel" and "\<And>j. j < level s \<Longrightarrow> prev ! j = Some (pred_at h s k as j)"
  using descend_pred [OF assms, of "level s" "replicate slMaxLevel None" "head s" k] assms
  by (fastforce simp: sl_rep_def)

lemma seek_rep: "sl_rep h s as \<Longrightarrow> seek h s k = Some (case rest h k as of [] \<Rightarrow> None | a # _ \<Rightarrow> Some a)"
  by (rule search [of h s as k]) (simp_all add: seek_def next_pred_0)

lemma level_loop_bounds: "lvl \<le> slMaxLevel \<Longrightarrow> lvl \<le> level_loop lvl x \<and> level_loop lvl x \<le> slMaxLevel"
proof (induction lvl x rule: level_loop.induct)
  case (1 lvl x)
  then show ?case by (subst (1 2) level_loop.simps) (auto simp: Suc_le_eq)
qed

lemma randomLevel_bounds:
  "randomLevel s = (lvl, s') \<Longrightarrow> 1 \<le> lvl \<and> lvl \<le> slMaxLevel \<and> s' = s\<lparr>rnd := rnd s'\<rparr>"
  using level_loop_bounds [of 1 "xorshift (rnd s)"] by (auto simp: randomLevel_def Let_def slMaxLevel_def)

lemma foldl_set_nth:
  "j < length prev \<Longrightarrow>
   foldl (\<lambda>p i. p[i := v]) prev [m..<n] ! j = (if m \<le> j \<and> j < n then v else prev ! j)"
proof (induction n)
  case (Suc n)
  have len: "length (foldl (\<lambda>p i. p[i := v]) prev [m..<n]) = length prev" for n
    by (induction n) auto
  show ?case using Suc by (auto simp: nth_list_update len less_Suc_eq)
qed simp

lemma rest_hd_key:
  assumes "sl_rep h s as" and "rest h k as = a # hi" and "nkey (h ! a) \<noteq> k"
  shows "\<forall>b \<in> set as. nkey (h ! b) \<noteq> k"
proof
  fix b assume "b \<in> set as"
  then consider "b \<in> set (below h k as)" | "b \<in> set (a # hi)"
    using below_rest [of h k as] assms(2) by (metis Un_iff set_append)
  then show "nkey (h ! b) \<noteq> k"
  proof cases
    case 1
    then show ?thesis by (auto dest: below_less)
  next
    case 2
    have sorted: "sorted_wrt (<) (map (\<lambda>a. nkey (h ! a)) (below h k as @ a # hi))"
      using assms(1) below_rest [of h k as] by (simp add: sl_rep_def assms(2))
    have "k \<le> nkey (h ! a)"
      using assms rest_ge [of h as a k] by (auto simp: sl_rep_def)
    with 2 sorted assms(3) show ?thesis by (fastforce simp: sorted_wrt_append)
  qed
qed

text \<open>Overwriting the entry of a node keeps the structure.\<close>

lemma sl_rep_set_ent:
  assumes "sl_rep h s as" and "a < length h"
  shows "sl_rep (h[a := (h ! a)\<lparr>ent := e\<rparr>]) s as"
proof -
  let ?h = "h[a := (h ! a)\<lparr>ent := e\<rparr>]"
  have "nxt (?h ! b) = nxt (h ! b)" "nkey (?h ! b) = nkey (h ! b)" for b
    using assms(2) by (auto simp: nth_list_update)
  then show ?thesis using assms(1) by (simp add: sl_rep_def)
qed

lemma insert_sl_found:
  assumes "sl_rep h s as" and "rest h k as = a # hi" and "nkey (h ! a) = k"
  shows "insert_sl h s k e = Some (a, h[a := (h ! a)\<lparr>ent := e\<rparr>], s)"
proof -
  have "a \<in> set as" using assms(2) rest_subset [of a h k as] by simp
  then have "a < length h" using assms(1) by (simp add: sl_rep_def)
  then show ?thesis
    using assms by (rule_tac search [of h s as k]) (simp_all add: insert_sl_def next_pred_0)
qed

text \<open>
  The heap \<open>h'\<close> after linking a new node \<open>n\<close> of height \<open>lvl\<close> behind the predecessors of \<open>k\<close>.
\<close>

definition linked :: "slheap \<Rightarrow> skiplist \<Rightarrow> bytes \<Rightarrow> addr list \<Rightarrow> nat \<Rightarrow> slheap \<Rightarrow> bool" where
  "linked h s k as lvl h' \<longleftrightarrow>
     length h' = Suc (length h) \<and> nkey (h' ! length h) = k \<and> length (nxt (h' ! length h)) = lvl \<and>
     (\<forall>a < length h. nkey (h' ! a) = nkey (h ! a) \<and> length (nxt (h' ! a)) = length (nxt (h ! a))) \<and>
     (\<forall>j < lvl. \<forall>a \<le> length h. nx h' j a =
        ((nx h j)(pred_at h s k as j := Some (length h), length h := nx h j (pred_at h s k as j))) a) \<and>
     (\<forall>j \<ge> lvl. \<forall>a < length h. nx h' j a = nx h j a)"

lemma sl_rep_lt:
  assumes "sl_rep h s as" and "a \<in> set (head s # below h k as @ rest h k as)"
  shows "a < length h"
  using assms below_subset [of a h k as] rest_subset [of a h k as] by (auto simp: sl_rep_def)

lemma linked_path:
  assumes rep: "sl_rep h s as" and l: "linked h s k as lvl h'" and i: "i < slMaxLevel"
  shows "path (nx h' i) (head s) (filter (on_level h' i) (below h k as @ length h # rest h k as))"
proof -
  let ?n = "length h" and ?l = "filter (on_level h i) (below h k as)"
    and ?r = "filter (on_level h i) (rest h k as)"
  have fl: "filter (on_level h' i) (below h k as) = ?l" "filter (on_level h' i) (rest h k as) = ?r"
    using l sl_rep_lt [OF rep, where k = k] by (auto simp: linked_def intro: filter_cong)
  have lt: "a < ?n" if "a \<in> set (head s # ?l @ ?r)" for a
    using that sl_rep_lt [OF rep, of a k] by auto
  have d: "distinct (head s # ?l @ ?r)" using sl_rep_distinct [OF rep, of k] by auto
  note p = sl_rep_path [OF rep i, of k]
  show ?thesis
  proof (cases "i < lvl")
    case True
    have "path ((nx h i)(pred_at h s k as i := Some ?n, ?n := nx h i (pred_at h s k as i)))
        (head s) (?l @ ?n # ?r)"
      using path_insert [OF p _ d] lt unfolding pred_at_def by blast
    then have "path (nx h' i) (head s) (?l @ ?n # ?r)"
      using l True lt by (subst path_cong [where g = "(nx h i)(pred_at h s k as i := Some ?n, ?n := nx h i (pred_at h s k as i))"])
        (auto simp: linked_def less_imp_le)
    then show ?thesis using True l by (simp add: fl linked_def)
  next
    case False
    have "path (nx h' i) (head s) (?l @ ?r)"
      using p l False lt by (subst path_cong [where g = "nx h i"]) (auto simp: linked_def)
    then show ?thesis using False l by (simp add: fl linked_def)
  qed
qed

lemma linked_sorted:
  assumes rep: "sl_rep h s as" and l: "linked h s k as lvl h'"
    and new: "\<forall>b \<in> set as. nkey (h ! b) \<noteq> k"
  shows "sorted_wrt (<) (map (\<lambda>a. nkey (h' ! a)) (below h k as @ length h # rest h k as))"
proof -
  have eq: "map (\<lambda>a. nkey (h' ! a)) (below h k as) = map (\<lambda>a. nkey (h ! a)) (below h k as)"
    "map (\<lambda>a. nkey (h' ! a)) (rest h k as) = map (\<lambda>a. nkey (h ! a)) (rest h k as)"
    using l sl_rep_lt [OF rep, where k = k] by (auto simp: linked_def)
  have srt: "sorted_wrt (<) (map (\<lambda>a. nkey (h ! a)) (below h k as @ rest h k as))"
    using rep by (simp add: below_rest sl_rep_def)
  have "k < nkey (h ! a)" if "a \<in> set (rest h k as)" for a
  proof -
    have "k \<le> nkey (h ! a)" using rest_ge [OF _ that] rep by (simp add: sl_rep_def)
    then show ?thesis using new rest_subset [OF that] by (auto simp: order.strict_iff_order)
  qed
  moreover have "nkey (h' ! length h) = k" using l by (simp add: linked_def)
  ultimately show ?thesis
    using srt below_less [of _ h k as] unfolding map_append list.map eq
    by (auto simp: sorted_wrt_append)
qed

lemma linked_rep:
  assumes rep: "sl_rep h s as" and l: "linked h s k as lvl h'" and lvl: "1 \<le> lvl" "lvl \<le> slMaxLevel"
    and new: "\<forall>b \<in> set as. nkey (h ! b) \<noteq> k"
    and s': "head s' = head s" "level s' = max (level s) lvl" "cnt s' = Suc (cnt s)"
  shows "sl_rep h' s' (below h k as @ length h # rest h k as)"
  unfolding sl_rep_def
proof (intro conjI)
  let ?as = "below h k as @ length h # rest h k as"
  note lt = sl_rep_lt [OF rep, where k = k]
  show "distinct (head s' # ?as)"
    using sl_rep_distinct [OF rep, of k] lt by (fastforce simp: s')
  show "\<forall>a \<in> set (head s' # ?as). a < length h'"
    using lt l by (fastforce simp: s' linked_def)
  show "length (nxt (h' ! head s')) = slMaxLevel"
    using l rep by (simp add: s' sl_rep_def linked_def)
  have "1 \<le> length (nxt (h ! a)) \<and> length (nxt (h ! a)) \<le> level s"
    if "a \<in> set (below h k as) \<union> set (rest h k as)" for a
    using that rep below_subset [of a h k as] rest_subset [of a h k as] by (auto simp: sl_rep_def)
  then show "\<forall>a \<in> set ?as. 1 \<le> length (nxt (h' ! a)) \<and> length (nxt (h' ! a)) \<le> level s'"
    using l lt lvl by (fastforce simp: s' linked_def)
  show "1 \<le> level s'" "level s' \<le> slMaxLevel"
    using rep lvl by (auto simp: s' sl_rep_def)
  show "sorted_wrt (<) (map (\<lambda>a. nkey (h' ! a)) ?as)" using rep l new by (rule linked_sorted)
  show "cnt s' = length ?as"
    using rep arg_cong [OF below_rest [of h k as], of length] by (simp add: s' sl_rep_def)
  show "\<forall>i < slMaxLevel. path (nx h' i) (head s') (filter (on_level h' i) ?as)"
    using linked_path [OF rep l] by (simp add: s')
qed

lemma link_linked:
  assumes rep: "sl_rep h s as" and lvl: "lvl \<le> slMaxLevel"
    and prev: "\<And>j. j < lvl \<Longrightarrow> prev ! j = Some (pred_at h s k as j)"
  shows "\<exists>h'. link (h @ [\<lparr> nkey = k, ent = e, nxt = replicate lvl None \<rparr>]) (length h) prev 0 lvl = Some h' \<and>
     linked h s k as lvl h' \<and> ent (h' ! length h) = e \<and> (\<forall>a < length h. ent (h' ! a) = ent (h ! a))"
proof -
  define h0 where "h0 = h @ [\<lparr> nkey = k, ent = e, nxt = replicate lvl None \<rparr>]"
  have h0: "h0 ! a = h ! a" if "a < length h" for a using that by (simp add: h0_def nth_append)
  have h0n: "h0 ! length h = \<lparr> nkey = k, ent = e, nxt = replicate lvl None \<rparr>" "length h0 = Suc (length h)"
    by (simp_all add: h0_def)
  have pv: "pred_at h s k as j < length h \<and> on_level h j (pred_at h s k as j)" if "j < lvl" for j
    using pred_at_valid [OF rep, of j k] that lvl by auto
  have "\<exists>h'. link h0 (length h) prev 0 lvl = Some h' \<and> same_nodes h0 h' \<and>
     (\<forall>j a. nx h' j a = (if 0 \<le> j \<and> j < lvl
        then ((nx h0 j)(pred_at h s k as j := Some (length h), length h := nx h0 j (pred_at h s k as j))) a
        else nx h0 j a))"
    using prev pv by (intro link_spec) (fastforce simp: h0 h0n)+
  then obtain h' where h': "link h0 (length h) prev 0 lvl = Some h'" "same_nodes h0 h'"
    "\<And>j a. nx h' j a = (if j < lvl
        then ((nx h0 j)(pred_at h s k as j := Some (length h), length h := nx h0 j (pred_at h s k as j))) a
        else nx h0 j a)"
    by auto
  then have "linked h s k as lvl h'"
    using h0 h0n pv by (auto simp: linked_def same_nodes_def)
  moreover have "ent (h' ! length h) = e \<and> (\<forall>a < length h. ent (h' ! a) = ent (h ! a))"
    using h'(2) h0 h0n by (simp add: same_nodes_def)
  ultimately show ?thesis using h'(1) unfolding h0_def by blast
qed

lemma insert_sl_new:
  assumes rep: "sl_rep h s as" and new: "\<forall>b \<in> set as. nkey (h ! b) \<noteq> k"
  shows "\<exists>h' s'. insert_sl h s k e = Some (length h, h', s') \<and>
     sl_rep h' s' (below h k as @ length h # rest h k as) \<and> length h' = Suc (length h) \<and>
     nkey (h' ! length h) = k \<and> ent (h' ! length h) = e \<and>
     (\<forall>a < length h. nkey (h' ! a) = nkey (h ! a) \<and> ent (h' ! a) = ent (h ! a))"
proof -
  obtain lvl s1 where rl: "randomLevel s = (lvl, s1)" by fastforce
  then have lvl: "1 \<le> lvl" "lvl \<le> slMaxLevel" and "s1 = s\<lparr>rnd := rnd s1\<rparr>"
    using randomLevel_bounds by blast+
  then have s1: "head s1 = head s" "level s1 = level s" "cnt s1 = cnt s"
    by (metis skiplist.ext_inject skiplist.surjective skiplist.update_convs(4))+
  obtain prev where prev: "descend h k (level s) (head s) (replicate slMaxLevel None) = Some (pred_at h s k as 0, prev)"
    "length prev = slMaxLevel" "\<And>j. j < level s \<Longrightarrow> prev ! j = Some (pred_at h s k as j)"
    using search [OF rep] by metis
  define prev2 where "prev2 = (if lvl > level s
    then foldl (\<lambda>p i. p[i := Some (head s)]) prev [level s ..< lvl] else prev)"
  have p2: "prev2 ! j = Some (pred_at h s k as j)" if "j < lvl" for j
    using that prev(2,3) lvl pred_at_high [OF rep, of j k]
    by (auto simp: prev2_def foldl_set_nth not_less)
  obtain h' where h': "link (h @ [\<lparr> nkey = k, ent = e, nxt = replicate lvl None \<rparr>]) (length h) prev2 0 lvl = Some h'"
    "linked h s k as lvl h'" "ent (h' ! length h) = e" "\<forall>a < length h. ent (h' ! a) = ent (h ! a)"
    using link_linked [OF rep lvl(2) p2] by blast
  define s2 where "s2 = s1\<lparr>level := max (level s) lvl, cnt := Suc (cnt s)\<rparr>"
  have "case rest h k as of [] \<Rightarrow> True | a # _ \<Rightarrow> a < length h \<and> nkey (h ! a) \<noteq> k"
    using new rest_subset [of _ h k as] rep by (fastforce simp: sl_rep_def split: list.splits)
  then have res: "insert_sl h s k e = Some (length h, h', s2)"
    using h'(1) unfolding insert_sl_def prev(1) prev2_def s2_def
    by (auto simp: next_pred_0 [OF rep] rl s1 max_def split: list.splits)
  have "sl_rep h' s2 (below h k as @ length h # rest h k as)"
    using rep h'(2) lvl new by (rule linked_rep) (simp_all add: s2_def s1)
  with res h' show ?thesis by (simp add: linked_def)
qed

lemma sl_rep_unlinked_path:
  assumes rep: "sl_rep h s as" and hi: "rest h k as = t # hi" and i: "i < slMaxLevel"
    and same: "same_nodes h h'"
    and nx': "\<And>a. nx h' i a = (if nx h i (pred_at h s k as i) = Some t
        then ((nx h i)(pred_at h s k as i := nx h i t)) a else nx h i a)"
  shows "path (nx h' i) (head s) (filter (on_level h' i) (below h k as @ hi))"
proof -
  let ?l = "filter (on_level h i) (below h k as)" and ?r = "filter (on_level h i) hi"
  have fl: "filter (on_level h' i) (below h k as @ hi) = ?l @ ?r"
    using same by (simp add: same_nodes_def)
  note p = sl_rep_path [OF rep i, of k, unfolded hi]
  have d: "distinct (head s # below h k as @ t # hi)"
    using sl_rep_distinct [OF rep, of k] by (simp add: hi)
  show ?thesis
  proof (cases "on_level h i t")
    case True
    with p have p': "path (nx h i) (head s) (?l @ t # ?r)" by simp
    have d': "distinct (head s # ?l @ t # ?r)" using d by auto
    have "nx h i (pred_at h s k as i) = Some t"
      using next_pred [OF rep i, of k] True by (simp add: hi)
    then have "nx h' i = (nx h i)(last (head s # ?l) := nx h i t)"
      by (auto simp: nx' pred_at_def)
    then show ?thesis using path_delete [OF p' d'] by (simp only: fl)
  next
    case False
    with p have p': "path (nx h i) (head s) (?l @ ?r)" by simp
    have "nx h i (pred_at h s k as i) \<noteq> Some t"
      using next_pred [OF rep i, of k] False d by (auto simp: hi split: list.splits dest: filter_eq_ConsD)
    then have "nx h' i = nx h i" by (auto simp: nx')
    then show ?thesis using p' by (simp only: fl)
  qed
qed

text \<open>Lowering the level stops at a level above which no node is linked.\<close>

lemma lower_level_spec:
  assumes "hp < length h" and "length (nxt (h ! hp)) = slMaxLevel" and "1 \<le> l" and "l \<le> slMaxLevel"
  shows "\<exists>l'. lower_level h hp l = Some l' \<and> 1 \<le> l' \<and> l' \<le> l \<and> (\<forall>i. l' \<le> i \<and> i < l \<longrightarrow> nx h i hp = None)"
  using assms
proof (induction l)
  case (Suc l)
  show ?case
  proof (cases "Suc l > 1 \<and> nx h l hp = None")
    case True
    with Suc obtain l' where "lower_level h hp l = Some l'" "1 \<le> l'" "l' \<le> l"
        "\<forall>i. l' \<le> i \<and> i < l \<longrightarrow> nx h i hp = None"
      by auto
    with True Suc.prems show ?thesis
      by (intro exI [of _ l']) (auto simp: less_Suc_eq)
  next
    case False
    with Suc.prems show ?thesis by (intro exI [of _ "Suc l"]) auto
  qed
qed simp

lemma unlink_rep:
  assumes rep: "sl_rep h s as" and hi: "rest h k as = t # hi"
    and prev: "\<And>j. j < level s \<Longrightarrow> prev ! j = Some (pred_at h s k as j)"
  shows "\<exists>h'. unlink h t prev 0 (level s) = Some h' \<and> same_nodes h h' \<and>
     (\<forall>i < slMaxLevel. path (nx h' i) (head s) (filter (on_level h' i) (below h k as @ hi)))"
proof -
  let ?pr = "pred_at h s k as"
  have t: "t \<in> set as" using hi rest_subset [of t h k as] by simp
  have lv: "level s \<le> slMaxLevel" using rep by (simp add: sl_rep_def)
  have "prev ! j = Some (?pr j) \<and> ?pr j < length h \<and> on_level h j (?pr j) \<and>
      (nx h j (?pr j) = Some t \<longrightarrow> on_level h j t)" if "j < level s" for j
    using that prev pred_at_valid [OF rep, of j k] next_pred [OF rep, of j k] lv
    by (auto split: list.splits dest: filter_eq_ConsD)
  then have "\<exists>h'. unlink h t prev 0 (level s) = Some h' \<and> same_nodes h h' \<and>
     (\<forall>j a. nx h' j a = (if 0 \<le> j \<and> j < level s \<and> nx h j (?pr j) = Some t
        then ((nx h j)(?pr j := nx h j t)) a else nx h j a))"
    using t rep by (intro unlink_spec) (auto simp: sl_rep_def)
  then obtain h' where h': "unlink h t prev 0 (level s) = Some h'" "same_nodes h h'"
    "\<And>j a. nx h' j a = (if j < level s \<and> nx h j (?pr j) = Some t
        then ((nx h j)(?pr j := nx h j t)) a else nx h j a)"
    by auto
  have high: "nx h j (?pr j) \<noteq> Some t" if "level s \<le> j" "j < slMaxLevel" for j
    using next_pred [OF rep, of j k] that t rep
    by (fastforce simp: sl_rep_def split: list.splits dest: filter_eq_ConsD)
  have "nx h' i a = (if nx h i (?pr i) = Some t then ((nx h i)(?pr i := nx h i t)) a else nx h i a)"
    if "i < slMaxLevel" for i a
    using h'(3) high [of i] that by (cases "i < level s") auto
  then show ?thesis
    using sl_rep_unlinked_path [OF rep hi _ h'(2)] h'(1,2) by blast
qed

lemma lowered_rep:
  assumes rep: "sl_rep h s as" and as: "as = us @ t # vs" and same: "same_nodes h h'"
    and paths: "\<And>i. i < slMaxLevel \<Longrightarrow> path (nx h' i) (head s) (filter (on_level h' i) (us @ vs))"
  shows "\<exists>l. lower_level h' (head s) (level s) = Some l \<and>
     sl_rep h' (s\<lparr>level := l, cnt := cnt s - 1\<rparr>) (us @ vs)"
proof -
  have lv: "1 \<le> level s" "level s \<le> slMaxLevel" using rep by (simp_all add: sl_rep_def)
  then obtain l where l: "lower_level h' (head s) (level s) = Some l" "1 \<le> l" "l \<le> level s"
      "\<forall>i. l \<le> i \<and> i < level s \<longrightarrow> nx h' i (head s) = None"
    using lower_level_spec [of "head s" h' "level s"] rep same by (auto simp: sl_rep_def same_nodes_def)
  have short: "length (nxt (h' ! a)) \<le> l" if "a \<in> set (us @ vs)" for a
  proof (rule ccontr)
    assume long: "\<not> length (nxt (h' ! a)) \<le> l"
    have "length (nxt (h' ! a)) \<le> level s"
      using same rep that as by (auto simp: sl_rep_def same_nodes_def)
    with long lv have "l < slMaxLevel" "l < level s" by auto
    then have "filter (on_level h' l) (us @ vs) = []"
      using paths [of l] l(4) by (cases "filter (on_level h' l) (us @ vs)") auto
    then show False using long that by (auto simp: filter_empty_conv)
  qed
  have "sl_rep h' (s\<lparr>level := l, cnt := cnt s - 1\<rparr>) (us @ vs)"
    using rep same paths l lv short unfolding sl_rep_def same_nodes_def as
    by (auto simp: sorted_wrt_append)
  with l(1) show ?thesis by blast
qed

lemma remove_sl_found:
  assumes rep: "sl_rep h s as" and hi: "rest h k as = t # hi" and key: "nkey (h ! t) = k"
  shows "\<exists>h' s'. remove_sl h s k = Some (True, h', s') \<and> sl_rep h' s' (below h k as @ hi) \<and> same_nodes h h'"
proof -
  have tl: "t < length h" using rep rest_subset [of t h k as] by (simp add: sl_rep_def hi)
  obtain prev where prev: "descend h k (level s) (head s) (replicate slMaxLevel None) = Some (pred_at h s k as 0, prev)"
    "\<And>j. j < level s \<Longrightarrow> prev ! j = Some (pred_at h s k as j)"
    using search [OF rep] by metis
  obtain h' where h': "unlink h t prev 0 (level s) = Some h'" "same_nodes h h'"
    "\<And>i. i < slMaxLevel \<Longrightarrow> path (nx h' i) (head s) (filter (on_level h' i) (below h k as @ hi))"
    using unlink_rep [OF rep hi prev(2)] by blast
  have "as = below h k as @ t # hi" using below_rest [of h k as] by (simp add: hi)
  from lowered_rep [OF rep this h'(2,3)] obtain l where
    "lower_level h' (head s) (level s) = Some l"
    "sl_rep h' (s\<lparr>level := l, cnt := cnt s - 1\<rparr>) (below h k as @ hi)"
    by blast
  moreover from this have "remove_sl h s k = Some (True, h', s\<lparr>level := l, cnt := cnt s - 1\<rparr>)"
    using tl key h'(1) by (simp add: remove_sl_def prev(1) next_pred_0 [OF rep] hi)
  ultimately show ?thesis using h'(2) by blast
qed

lemma remove_sl_absent:
  assumes "sl_rep h s as" and "\<forall>a \<in> set as. nkey (h ! a) \<noteq> k"
  shows "remove_sl h s k = Some (False, h, s)"
proof -
  have "case rest h k as of [] \<Rightarrow> True | a # _ \<Rightarrow> a < length h \<and> nkey (h ! a) \<noteq> k"
    using assms rest_subset [of _ h k as] by (fastforce simp: sl_rep_def split: list.splits)
  then show ?thesis
    using assms(1) by (rule_tac search [of h s as k]) (auto simp: remove_sl_def next_pred_0 split: list.splits)
qed

lemma newSkiplist_rep: "newSkiplist h = (s, h') \<Longrightarrow> sl_rep h' s []"
  by (auto simp: newSkiplist_def sl_rep_def slMaxLevel_def nth_append)

text \<open>What a scan does on the list of nodes: stop at the end key, or when the callback says so.\<close>

fun scan_nodes :: "bytes \<Rightarrow> (slnode \<Rightarrow> 's \<Rightarrow> bool \<times> 's) \<Rightarrow> slnode list \<Rightarrow> 's \<Rightarrow> 's" where
  "scan_nodes endk fn [] st = st"
| "scan_nodes endk fn (n # ns) st =
     (if endk \<noteq> [] \<and> endk < nkey n then st
      else (case fn n st of (go, st') \<Rightarrow> if go then scan_nodes endk fn ns st' else st'))"

lemma scan_from_path:
  assumes "path (nx h 0) x ys" and "\<And>a. a \<in> set (x # ys) \<Longrightarrow> a < length h \<and> on_level h 0 a"
  shows "scan_from h endk fn (nx h 0 x) st = Some (scan_nodes endk fn (map ((!) h) ys) st)"
  using assms
proof (induction ys arbitrary: x st)
  case Nil
  then show ?case by (simp add: scan_from.simps)
next
  case (Cons y ys)
  have IH: "scan_from h endk fn (nx h 0 y) st' = Some (scan_nodes endk fn (map ((!) h) ys) st')" for st'
    using Cons.prems by (intro Cons.IH) auto
  obtain go st' where "fn (h ! y) st = (go, st')" by fastforce
  then show ?case
    using Cons.prems IH [of st'] by (auto simp: scan_from.simps [of h endk fn "Some y"])
qed

lemma seek_path:
  assumes "sl_rep h s as"
  obtains p where "seek h s k = Some (nx h 0 p)" and "path (nx h 0) p (rest h k as)"
    and "\<forall>a \<in> set (p # rest h k as). a < length h \<and> on_level h 0 a"
proof -
  let ?p = "pred_at h s k as 0"
  have "0 < slMaxLevel" by (simp add: slMaxLevel_def)
  from path_suffix [OF sl_rep_path [OF assms this, of k]]
  have "path (nx h 0) ?p (rest h k as)"
    unfolding pred_at_def level0_all [OF assms] .
  moreover have "a < length h \<and> on_level h 0 a" if "a \<in> set (?p # rest h k as)" for a
    using that pred_at_valid [OF assms, of 0 k] rest_subset [of a h k as] assms
    by (auto simp: slMaxLevel_def sl_rep_def Suc_le_eq)
  moreover have "seek h s k = Some (nx h 0 ?p)"
    using seek_rep [OF assms, of k] next_pred [OF assms, of 0 k] level0_all [OF assms, of k]
    by (simp add: slMaxLevel_def)
  ultimately show ?thesis using that by blast
qed

lemma scan_rep:
  assumes "sl_rep h s as"
  shows "scan h s start endk fn st = Some (scan_nodes endk fn (map ((!) h) (rest h start as)) st)"
proof -
  obtain p where p: "seek h s start = Some (nx h 0 p)" "path (nx h 0) p (rest h start as)"
    "\<forall>a \<in> set (p # rest h start as). a < length h \<and> on_level h 0 a" by (rule seek_path [OF assms])
  from p(2,3) have "scan_from h endk fn (nx h 0 p) st = Some (scan_nodes endk fn (map ((!) h) (rest h start as)) st)"
    by (intro scan_from_path) auto
  then show ?thesis using p(1) by (simp add: scan_def)
qed

end
