(* ===== verification/Index.thy ===== *)
theory Index
  imports Skiplist "HOL-Library.Multiset"
begin

text \<open>
  The in-memory index of \<open>internal/engine/store.go\<close>: the fields \<open>keys\<close> (a hash map from keys to
  nodes) and \<open>order\<close> (the skip list over the same nodes) of a \<open>Store\<close>, and the accesses the store
  makes to them. The two halves share nodes, so \<open>n.ent = e\<close> is seen through both.

  The locale \<open>ordered_index\<close> is what the store relies on: lookups after updates and deletions,
  and a key-ordered listing that agrees with the lookups. Its lemmas (the listing is determined
  by the lookups; applying records in any order leaves the newest one of every key) are proved
  once and used by the store through the interpretation on the two structures.
\<close>

section \<open>The index and its accesses\<close>

record index =
  heap :: slheap
  order :: skiplist
  keys :: "(bytes \<times> addr) list"

definition new_index :: "slheap \<Rightarrow> index" where
  "new_index h = (let (s, h) = newSkiplist h in \<lparr> heap = h, order = s, keys = [] \<rparr>)"

text \<open>\<open>n, ok := s.keys[k]\<close> and then \<open>n.ent\<close>.\<close>

definition idx_lookup :: "index \<Rightarrow> bytes \<Rightarrow> entry option" where
  "idx_lookup ix k = map_option (\<lambda>a. ent (heap ix ! a)) (map_of (keys ix) k)"

text \<open>\<open>n.ent = e\<close> on the node of a known key, \<open>s.keys[k] = s.order.insert(k, e)\<close> otherwise.\<close>

definition idx_put :: "bytes \<Rightarrow> entry \<Rightarrow> index \<Rightarrow> index option" where
  "idx_put k e ix = (case map_of (keys ix) k of
       Some a \<Rightarrow> do {
         n \<leftarrow> node_at (heap ix) a;
         Some (ix\<lparr>heap := (heap ix)[a := n\<lparr>ent := e\<rparr>]\<rparr>) }
     | None \<Rightarrow> do {
         (a, h, s) \<leftarrow> insert_sl (heap ix) (order ix) k e;
         Some (ix\<lparr>heap := h, order := s, keys := AList.update k a (keys ix)\<rparr>) })"

text \<open>\<open>delete(s.keys, k); s.order.remove(k)\<close>.\<close>

definition idx_del :: "bytes \<Rightarrow> index \<Rightarrow> index option" where
  "idx_del k ix = do {
     (_, h, s) \<leftarrow> remove_sl (heap ix) (order ix) k;
     Some (ix\<lparr>heap := h, order := s, keys := AList.delete k (keys ix)\<rparr>) }"

text \<open>
  \<open>applyRecovered\<close>: install an entry unless the index already holds one of the same or a higher
  sequence number for the key.
\<close>

definition applyRecovered :: "bytes \<Rightarrow> entry \<Rightarrow> bool \<Rightarrow> index \<Rightarrow> index option" where
  "applyRecovered k e tmb ix =
     (let e = e\<lparr>tomb := tmb\<rparr> in
      case idx_lookup ix k of
        Some old \<Rightarrow> if eseq old \<ge> eseq e then Some ix else idx_put k e ix
      | None \<Rightarrow> idx_put k e ix)"

section \<open>Abstraction and invariant\<close>

fun level0 :: "nat \<Rightarrow> slheap \<Rightarrow> addr option \<Rightarrow> addr list" where
  "level0 (Suc f) h (Some a) = a # level0 f h (nx h 0 a)"
| "level0 _ h _ = []"

text \<open>The nodes of a list, bottom level first to last; at most one per heap cell.\<close>

definition addrs :: "slheap \<Rightarrow> skiplist \<Rightarrow> addr list" where
  "addrs h s = level0 (length h) h (nx h 0 (head s))"

definition inorder :: "index \<Rightarrow> (bytes \<times> entry) list" where
  "inorder ix = map (\<lambda>a. (nkey (heap ix ! a), ent (heap ix ! a))) (addrs (heap ix) (order ix))"

definition index_inv :: "index \<Rightarrow> bool" where
  "index_inv ix \<longleftrightarrow>
     sl_rep (heap ix) (order ix) (addrs (heap ix) (order ix)) \<and> distinct (map fst (keys ix)) \<and>
     (\<forall>k a. map_of (keys ix) k = Some a \<longleftrightarrow>
        a \<in> set (addrs (heap ix) (order ix)) \<and> nkey (heap ix ! a) = k)"

lemma level0_path: "path (nx h 0) x ys \<Longrightarrow> length ys \<le> f \<Longrightarrow> level0 f h (nx h 0 x) = ys"
proof (induction ys arbitrary: x f)
  case (Cons y ys)
  then show ?case by (cases f) auto
qed simp

lemma sl_rep_addrs:
  assumes "sl_rep h s as"
  shows "addrs h s = as"
proof -
  have "path (nx h 0) (head s) as"
    using sl_rep_path [OF assms, of 0 "[]"] level0_all [OF assms, of "[]"] below_rest [of h "[]" as]
    by (simp add: slMaxLevel_def)
  moreover have "length (head s # as) \<le> length h"
  proof -
    have "card (set (head s # as)) \<le> card {..<length h}"
      using assms by (intro card_mono) (auto simp: sl_rep_def)
    then show ?thesis using assms by (simp add: sl_rep_def distinct_card)
  qed
  ultimately show ?thesis by (simp add: addrs_def level0_path)
qed

lemma sl_rep_key_inj:
  assumes "sl_rep h s as" and "a \<in> set as" and "b \<in> set as" and "nkey (h ! a) = nkey (h ! b)"
  shows "a = b"
proof -
  have "sorted_wrt (<) (map (\<lambda>a. nkey (h ! a)) as)" using assms(1) by (simp add: sl_rep_def)
  then have "distinct (map (\<lambda>a. nkey (h ! a)) as)" by (simp add: strict_sorted_iff)
  then show ?thesis using assms(2-4) by (simp add: distinct_map inj_on_def)
qed

lemma rest_of_key:
  assumes "sl_rep h s as" and "a \<in> set as" and "nkey (h ! a) = k"
  obtains hi where "rest h k as = a # hi"
proof (cases "rest h k as")
  case Nil
  then have "a \<in> set (below h k as)" using below_rest [of h k as] assms(2) by simp
  then show ?thesis using assms(3) by (auto dest: below_less)
next
  case (Cons b hi)
  then have "nkey (h ! b) = k" using rest_hd_key [OF assms(1) Cons] assms(2,3) by blast
  then have "b = a"
    using sl_rep_key_inj [OF assms(1) _ assms(2)] assms(3) rest_subset [of b h k as] Cons by simp
  with Cons that show ?thesis by simp
qed

lemma new_index_inv: "index_inv (new_index h)"
proof -
  obtain s h' where n: "newSkiplist h = (s, h')" by fastforce
  from newSkiplist_rep [OF this] have "sl_rep h' s []" .
  with n show ?thesis
    by (simp add: new_index_def index_inv_def sl_rep_addrs [OF \<open>sl_rep h' s []\<close>])
qed

lemma new_index_inorder: "inorder (new_index h) = []"
proof -
  obtain s h' where n: "newSkiplist h = (s, h')" by fastforce
  from newSkiplist_rep [OF this] have "sl_rep h' s []" .
  with n show ?thesis by (simp add: new_index_def inorder_def sl_rep_addrs [OF \<open>sl_rep h' s []\<close>])
qed

lemma inorder_sorted: "index_inv ix \<Longrightarrow> sorted_wrt (<) (map fst (inorder ix))"
  by (simp add: index_inv_def inorder_def sl_rep_def comp_def)

lemma idx_lookup_inorder:
  assumes "index_inv ix"
  shows "idx_lookup ix k = map_of (inorder ix) k"
proof -
  let ?as = "addrs (heap ix) (order ix)"
  have inv: "map_of (keys ix) k = Some a \<longleftrightarrow> a \<in> set ?as \<and> nkey (heap ix ! a) = k" for a
    using assms by (simp add: index_inv_def)
  have d: "distinct (map fst (inorder ix))"
    using inorder_sorted [OF assms] by (simp add: strict_sorted_iff)
  show ?thesis
  proof (cases "map_of (keys ix) k")
    case None
    then have "\<forall>a \<in> set ?as. nkey (heap ix ! a) \<noteq> k" using inv by auto
    then have "k \<notin> fst ` set (inorder ix)" by (auto simp: inorder_def)
    then have "map_of (inorder ix) k = None" by (simp add: map_of_eq_None_iff)
    then show ?thesis using None by (simp add: idx_lookup_def)
  next
    case (Some a)
    then have "(k, ent (heap ix ! a)) \<in> set (inorder ix)" using inv by (auto simp: inorder_def)
    then show ?thesis using Some d by (simp add: idx_lookup_def)
  qed
qed

lemma idx_put_ok:
  assumes inv: "index_inv ix"
  shows "\<exists>ix'. idx_put k e ix = Some ix' \<and> index_inv ix' \<and> idx_lookup ix' = (idx_lookup ix)(k \<mapsto> e)"
proof (cases "map_of (keys ix) k")
  case (Some a)
  let ?ix = "ix\<lparr>heap := (heap ix)[a := (heap ix ! a)\<lparr>ent := e\<rparr>]\<rparr>"
  let ?as = "addrs (heap ix) (order ix)"
  have rep: "sl_rep (heap ix) (order ix) ?as" using inv by (simp add: index_inv_def)
  have a: "a \<in> set ?as" "nkey (heap ix ! a) = k" using inv Some by (auto simp: index_inv_def)
  then have al: "a < length (heap ix)" using rep by (simp add: sl_rep_def)
  have rep': "sl_rep (heap ?ix) (order ?ix) ?as" using sl_rep_set_ent [OF rep al] by simp
  have inv': "index_inv ?ix"
    using inv rep' al unfolding index_inv_def sl_rep_addrs [OF rep']
    by (auto simp: nth_list_update)
  moreover have "idx_lookup ?ix k' = ((idx_lookup ix)(k \<mapsto> e)) k'" for k'
  proof (cases "map_of (keys ix) k'")
    case (Some b)
    then have "nkey (heap ix ! b) = k'" using inv by (simp add: index_inv_def)
    with Some \<open>map_of (keys ix) k = Some a\<close> a al show ?thesis
      by (auto simp: idx_lookup_def nth_list_update)
  qed (use Some in \<open>auto simp: idx_lookup_def\<close>)
  ultimately show ?thesis using Some al by (auto simp: idx_put_def)
next
  case None
  let ?h = "heap ix" and ?as = "addrs (heap ix) (order ix)"
  have rep: "sl_rep ?h (order ix) ?as" using inv by (simp add: index_inv_def)
  have "\<forall>b \<in> set ?as. nkey (?h ! b) \<noteq> k" using inv None by (fastforce simp: index_inv_def)
  from insert_sl_new [OF rep this] obtain h' s' where
    ins: "insert_sl ?h (order ix) k e = Some (length ?h, h', s')" and
    rep': "sl_rep h' s' (below ?h k ?as @ length ?h # rest ?h k ?as)" and
    new: "nkey (h' ! length ?h) = k" "ent (h' ! length ?h) = e" and
    old: "\<forall>a < length ?h. nkey (h' ! a) = nkey (?h ! a) \<and> ent (h' ! a) = ent (?h ! a)"
    by blast
  let ?ix = "ix\<lparr>heap := h', order := s', keys := AList.update k (length ?h) (keys ix)\<rparr>"
  have "set (below ?h k ?as) \<union> set (rest ?h k ?as) = set ?as"
    by (metis below_rest set_append)
  then have mem: "set (addrs h' s') = {length ?h} \<union> set ?as"
    by (auto simp: sl_rep_addrs [OF rep'])
  have lt: "a \<in> set ?as \<Longrightarrow> a < length ?h" for a using rep by (simp add: sl_rep_def)
  have km: "map_of (keys ix) k' = Some a \<longleftrightarrow> a \<in> set ?as \<and> nkey (?h ! a) = k'" for k' a
    using inv by (simp add: index_inv_def)
  have "index_inv ?ix"
    unfolding index_inv_def
  proof (intro conjI allI)
    show "sl_rep (heap ?ix) (order ?ix) (addrs (heap ?ix) (order ?ix))"
      using rep' by (simp add: sl_rep_addrs)
    show "distinct (map fst (keys ?ix))" using inv by (simp add: index_inv_def distinct_update)
    fix k' a
    show "map_of (keys ?ix) k' = Some a \<longleftrightarrow>
        a \<in> set (addrs (heap ?ix) (order ?ix)) \<and> nkey (heap ?ix ! a) = k'"
      using None new old lt km [of k' a]
      by (cases "k' = k") (auto simp: mem update_conv')
  qed
  moreover have "idx_lookup ?ix k' = ((idx_lookup ix)(k \<mapsto> e)) k'" for k'
  proof (cases "map_of (keys ix) k'")
    case (Some a)
    then have "ent (h' ! a) = ent (?h ! a)" using km lt old by blast
    with Some new show ?thesis by (auto simp: idx_lookup_def update_conv')
  qed (use new in \<open>auto simp: idx_lookup_def update_conv'\<close>)
  ultimately show ?thesis using None ins by (auto simp: idx_put_def)
qed

lemma idx_del_ok:
  assumes inv: "index_inv ix"
  shows "\<exists>ix'. idx_del k ix = Some ix' \<and> index_inv ix' \<and> idx_lookup ix' = (idx_lookup ix)(k := None)"
proof -
  let ?h = "heap ix" and ?as = "addrs (heap ix) (order ix)"
  have rep: "sl_rep ?h (order ix) ?as" using inv by (simp add: index_inv_def)
  have km: "map_of (keys ix) k' = Some a \<longleftrightarrow> a \<in> set ?as \<and> nkey (?h ! a) = k'" for k' a
    using inv by (simp add: index_inv_def)
  obtain b h' s' as' where rem: "remove_sl ?h (order ix) k = Some (b, h', s')"
    and rep': "sl_rep h' s' as'" and same: "same_nodes ?h h'"
    and mem: "\<And>a. a \<in> set as' \<longleftrightarrow> a \<in> set ?as \<and> nkey (?h ! a) \<noteq> k"
  proof (cases "map_of (keys ix) k")
    case None
    then have absent: "\<forall>a \<in> set ?as. nkey (?h ! a) \<noteq> k" using km [of k] by simp
    show ?thesis
      by (rule that [OF remove_sl_absent [OF rep absent] rep]) (use absent in auto)
  next
    case (Some t)
    then have t: "t \<in> set ?as" "nkey (?h ! t) = k" using km [of k t] by auto
    obtain hi where hi: "rest ?h k ?as = t # hi" by (rule rest_of_key [OF rep t])
    have "distinct ?as" using rep by (simp add: sl_rep_def)
    then have "a \<in> set (below ?h k ?as @ hi) \<longleftrightarrow> a \<in> set ?as \<and> nkey (?h ! a) \<noteq> k" for a
      using below_tail_iff [OF hi, of a] t sl_rep_key_inj [OF rep _ t(1), of a] by auto
    note mem = this
    from remove_sl_found [OF rep hi t(2)] obtain h' s' where
      r: "remove_sl ?h (order ix) k = Some (True, h', s')"
        "sl_rep h' s' (below ?h k ?as @ hi)" "same_nodes ?h h'"
      by blast
    show ?thesis by (rule that [OF r mem])
  qed
  let ?ix = "ix\<lparr>heap := h', order := s', keys := AList.delete k (keys ix)\<rparr>"
  have "index_inv ?ix"
    unfolding index_inv_def
  proof (intro conjI allI)
    show "sl_rep (heap ?ix) (order ?ix) (addrs (heap ?ix) (order ?ix))"
      using rep' by (simp add: sl_rep_addrs)
    show "distinct (map fst (keys ?ix))" using inv by (simp add: index_inv_def distinct_delete)
    fix k' a
    show "map_of (keys ?ix) k' = Some a \<longleftrightarrow>
        a \<in> set (addrs (heap ?ix) (order ?ix)) \<and> nkey (heap ?ix ! a) = k'"
      using same mem km [of k' a]
      by (cases "k' = k") (auto simp: sl_rep_addrs [OF rep'] delete_conv' same_nodes_def)
  qed
  moreover have "idx_lookup ?ix k' = ((idx_lookup ix)(k := None)) k'" for k'
    using same by (cases "map_of (keys ix) k'") (auto simp: idx_lookup_def delete_conv' same_nodes_def)
  ultimately show ?thesis using rem by (auto simp: idx_del_def)
qed

section \<open>The interface the store relies on\<close>

locale ordered_index =
  fixes empty :: 't
    and lookup :: "'t \<Rightarrow> 'k::linorder \<Rightarrow> 'v option"
    and put :: "'k \<Rightarrow> 'v \<Rightarrow> 't \<Rightarrow> 't option"
    and del :: "'k \<Rightarrow> 't \<Rightarrow> 't option"
    and listing :: "'t \<Rightarrow> ('k \<times> 'v) list"
    and inv :: "'t \<Rightarrow> bool"
  assumes empty_inv: "inv empty"
    and empty_listing: "listing empty = []"
    and listing_sorted: "inv t \<Longrightarrow> sorted_wrt (<) (map fst (listing t))"
    and lookup_listing: "inv t \<Longrightarrow> lookup t k = map_of (listing t) k"
    and put_ok: "inv t \<Longrightarrow> \<exists>t'. put k v t = Some t' \<and> inv t' \<and> lookup t' = (lookup t)(k \<mapsto> v)"
    and del_ok: "inv t \<Longrightarrow> \<exists>t'. del k t = Some t' \<and> inv t' \<and> lookup t' = (lookup t)(k := None)"
begin

lemma put_SomeD: "inv t \<Longrightarrow> put k v t = Some t' \<Longrightarrow> inv t' \<and> lookup t' = (lookup t)(k \<mapsto> v)"
  using put_ok [of t k v] by auto

lemma del_SomeD: "inv t \<Longrightarrow> del k t = Some t' \<Longrightarrow> inv t' \<and> lookup t' = (lookup t)(k := None)"
  using del_ok [of t k] by auto

lemma empty_lookup: "lookup empty k = None"
  by (simp add: lookup_listing empty_inv empty_listing)

lemma listing_distinct: "inv t \<Longrightarrow> distinct (map fst (listing t))"
  using listing_sorted by (simp add: strict_sorted_iff)

lemma listing_iff: "inv t \<Longrightarrow> (k, v) \<in> set (listing t) \<longleftrightarrow> lookup t k = Some v"
  by (simp add: lookup_listing listing_distinct)

lemma dom_lookup: "inv t \<Longrightarrow> dom (lookup t) = set (map fst (listing t))"
proof -
  assume "inv t"
  then have "lookup t = map_of (listing t)" by (intro ext lookup_listing)
  then show ?thesis by (simp add: dom_map_of_conv_image_fst)
qed

text \<open>The listing is a function of the lookups.\<close>

lemma listing_unique:
  assumes "inv t" and "inv t'" and "lookup t = lookup t'"
  shows "listing t = listing t'"
proof -
  have "set (map fst (listing t)) = set (map fst (listing t'))"
    using dom_lookup [OF assms(1)] dom_lookup [OF assms(2)] assms(3) by argo
  then have "map fst (listing t) = map fst (listing t')"
    using assms(1,2) by (intro strict_sorted_equal listing_sorted)
  moreover have "map_of (listing t) = map_of (listing t')"
    by (rule ext) (simp add: assms flip: lookup_listing)
  ultimately show ?thesis
    using listing_distinct [OF assms(1)] by (intro map_of_eq_listing)
qed

end

section \<open>Newest record wins\<close>

text \<open>The effect of \<open>applyRecovered\<close> on a map, for any way \<open>ver\<close> of ranking the values.\<close>

definition newest :: "('v \<Rightarrow> 'o::linorder) \<Rightarrow> ('k \<rightharpoonup> 'v) \<Rightarrow> 'k \<times> 'v \<Rightarrow> ('k \<rightharpoonup> 'v)" where
  "newest ver m x = (case x of (k, v) \<Rightarrow>
     (case m k of Some w \<Rightarrow> if ver v \<le> ver w then m else m(k \<mapsto> v) | None \<Rightarrow> m(k \<mapsto> v)))"

lemma newest_other [simp]: "k' \<noteq> k \<Longrightarrow> newest ver m (k, v) k' = m k'"
  by (simp add: newest_def split: option.splits)

lemma newest_same:
  "newest ver m (k, v) k = (case m k of Some w \<Rightarrow> Some (if ver v \<le> ver w then w else v) | None \<Rightarrow> Some v)"
  by (simp add: newest_def split: option.splits)

text \<open>No two different values of the same key have the same rank.\<close>

definition ranked :: "('v \<Rightarrow> 'o::linorder) \<Rightarrow> ('k \<times> 'v) set \<Rightarrow> bool" where
  "ranked ver X \<longleftrightarrow> (\<forall>k v w. (k, v) \<in> X \<longrightarrow> (k, w) \<in> X \<longrightarrow> ver v = ver w \<longrightarrow> v = w)"

lemma ranked_subset: "ranked ver X \<Longrightarrow> Y \<subseteq> X \<Longrightarrow> ranked ver Y"
  unfolding ranked_def by blast

lemma foldl_newest_None: "foldl (newest ver) m xs k = None \<longleftrightarrow> m k = None \<and> k \<notin> fst ` set xs"
proof (induction xs arbitrary: m)
  case (Cons x xs)
  obtain k' v where x: "x = (k', v)" by fastforce
  show ?case using Cons [of "newest ver m x"] by (cases "k' = k") (auto simp: x newest_same split: option.splits)
qed simp

lemma foldl_newest_Some:
  "foldl (newest ver) m xs k = Some v \<Longrightarrow>
     (m k = Some v \<or> (k, v) \<in> set xs) \<and> (\<forall>w. (k, w) \<in> set xs \<longrightarrow> ver w \<le> ver v) \<and>
     (\<forall>w. m k = Some w \<longrightarrow> w = v \<or> ver w < ver v)"
proof (induction xs arbitrary: v rule: rev_induct)
  case (snoc x xs)
  obtain k' u where x: "x = (k', u)" by fastforce
  let ?m = "foldl (newest ver) m xs"
  have step: "newest ver ?m (k', u) k = Some v" using snoc.prems by (simp add: x)
  show ?case
  proof (cases "k' = k")
    case False
    then have "?m k = Some v" using step by simp
    from snoc.IH [OF this] False show ?thesis by (auto simp: x)
  next
    case True
    show ?thesis
    proof (cases "?m k")
      case None
      then have "v = u" using step True by (simp add: newest_same)
      moreover have "m k = None \<and> k \<notin> fst ` set xs" using None unfolding foldl_newest_None .
      ultimately show ?thesis by (force simp: x True)
    next
      case (Some w)
      then have v: "v = (if ver u \<le> ver w then w else u)" using step True by (simp add: newest_same)
      from snoc.IH [OF Some] v show ?thesis by (auto simp: x True not_le intro: order.trans less_imp_le)
    qed
  qed
qed simp

lemma foldl_newest_set:
  assumes "set xs = set ys" and "ranked ver (set xs)"
  shows "foldl (newest ver) m xs = foldl (newest ver) m ys"
proof
  fix k
  show "foldl (newest ver) m xs k = foldl (newest ver) m ys k"
  proof (cases "foldl (newest ver) m xs k")
    case None
    then have "foldl (newest ver) m ys k = None" unfolding foldl_newest_None assms(1) .
    with None show ?thesis by simp
  next
    case (Some v)
    then obtain w where w: "foldl (newest ver) m ys k = Some w"
      using assms(1) foldl_newest_None [of ver m xs k] foldl_newest_None [of ver m ys k] by fastforce
    note v' = foldl_newest_Some [OF Some] and w' = foldl_newest_Some [OF w]
    have "v = w"
    proof (cases "m k = Some v \<or> m k = Some w")
      case True
      then show ?thesis using v' w' unfolding assms(1) by (elim disjE) (force dest: leD)+
    next
      case False
      then have "(k, v) \<in> set xs" "(k, w) \<in> set xs" using v' w' assms(1) by auto
      moreover from this have "ver v = ver w" using v' w' assms(1) by (intro antisym) auto
      ultimately show ?thesis using assms(2) by (auto simp: ranked_def)
    qed
    then show ?thesis using Some w by simp
  qed
qed

text \<open>
  A replica that applies messages, each a list of ranked values, and keeps the newest one of every
  key. \<open>apply_seq\<close> applies a list of messages and is undefined if one of them fails.
\<close>

locale newest_wins =
  fixes inv :: "'s \<Rightarrow> bool"
    and state :: "'s \<Rightarrow> 'k \<rightharpoonup> 'v"
    and app :: "'m \<Rightarrow> 's \<Rightarrow> 's option"
    and apply_seq :: "'m list \<Rightarrow> 's \<Rightarrow> 's option"
    and load :: "'m \<Rightarrow> ('k \<times> 'v) list"
    and good :: "'m \<Rightarrow> bool"
    and ver :: "'v \<Rightarrow> 'o::linorder"
  assumes app_state: "inv s \<Longrightarrow> good m \<Longrightarrow> app m s = Some t \<Longrightarrow> inv t \<and> state t = foldl (newest ver) (state s) (load m)"
    and apply_Nil: "apply_seq [] s = Some s"
    and apply_Cons: "apply_seq (m # ms) s = Option.bind (app m s) (apply_seq ms)"
begin

lemma apply_state:
  "inv s \<Longrightarrow> list_all good ms \<Longrightarrow> apply_seq ms s = Some t \<Longrightarrow>
     inv t \<and> state t = foldl (newest ver) (state s) (concat (map load ms))"
proof (induction ms arbitrary: s)
  case (Cons m ms)
  then obtain u where u: "app m s = Some u" "apply_seq ms u = Some t" by (auto simp: apply_Cons bind_eq_Some_conv)
  with Cons.prems app_state [OF _ _ u(1)] Cons.IH [OF _ _ u(2)] show ?case by simp
qed (simp add: apply_Nil)

text \<open>Neither order nor grouping nor repetition matters.\<close>

lemma converge:
  assumes "inv s" "inv s'" and "state s = state s'" and "list_all good ms" "list_all good ms'"
    and "set (concat (map load ms)) = set (concat (map load ms'))" and "ranked ver (set (concat (map load ms)))"
    and "apply_seq ms s = Some t" "apply_seq ms' s' = Some t'"
  shows "state t = state t'"
  using apply_state [OF assms(1,4,8)] apply_state [OF assms(2,5,9)] foldl_newest_set [OF assms(6,7)] assms(3) by simp

text \<open>A replica that has some of the values of a log and applies the others has them all.\<close>

lemma catch_up:
  assumes "inv s" and "list_all good ms" and "apply_seq ms s = Some t"
    and "state s = foldl (newest ver) m old" and "set (old @ concat (map load ms)) = set full" and "ranked ver (set full)"
  shows "state t = foldl (newest ver) m full"
proof -
  have "state t = foldl (newest ver) m (old @ concat (map load ms))" using apply_state [OF assms(1-3)] assms(4) by simp
  also have "\<dots> = foldl (newest ver) m full" by (rule foldl_newest_set) (use assms(5,6) in simp_all)
  finally show ?thesis .
qed

end

context ordered_index
begin

text \<open>Any way of applying values that updates when the value is newer folds to \<open>newest\<close>.\<close>

lemma apply_newest:
  assumes "inv t"
    and "\<And>t k v. app (k, v) t = (case lookup t k of
        Some w \<Rightarrow> if ver v \<le> ver w then Some t else put k v t | None \<Rightarrow> put k v t)"
  shows "\<exists>t'. app x t = Some t' \<and> inv t' \<and> lookup t' = newest ver (lookup t) x"
proof -
  obtain k v where x: "x = (k, v)" by fastforce
  obtain t' where "put k v t = Some t'" "inv t'" "lookup t' = (lookup t)(k \<mapsto> v)"
    using put_ok [OF assms(1)] by blast
  then show ?thesis
    using assms(1) by (auto simp: x assms(2) newest_def split: option.splits)
qed

end

section \<open>The model's index implements the interface\<close>

interpretation ix: ordered_index "new_index h" idx_lookup idx_put idx_del inorder index_inv for h
  by unfold_locales
     (auto simp: new_index_inv new_index_inorder inorder_sorted idx_lookup_inorder
       intro: idx_put_ok idx_del_ok)

text \<open>A run of \<open>applyRecovered\<close> calls, as recovery makes them for the records it reads.\<close>

primrec applyRecovered_all :: "(bytes \<times> entry \<times> bool) list \<Rightarrow> index \<Rightarrow> index option" where
  "applyRecovered_all [] ix = Some ix"
| "applyRecovered_all (x # xs) ix =
     (case x of (k, e, tmb) \<Rightarrow> do { ix \<leftarrow> applyRecovered k e tmb ix; applyRecovered_all xs ix })"

abbreviation located :: "bytes \<times> entry \<times> bool \<Rightarrow> bytes \<times> entry" where
  "located x \<equiv> (case x of (k, e, tmb) \<Rightarrow> (k, e\<lparr>tomb := tmb\<rparr>))"

lemma applyRecovered_newest:
  assumes "index_inv ix"
  shows "\<exists>ix'. applyRecovered k e tmb ix = Some ix' \<and> index_inv ix' \<and>
    idx_lookup ix' = newest eseq (idx_lookup ix) (k, e\<lparr>tomb := tmb\<rparr>)"
proof -
  let ?app = "\<lambda>(k, e) ix. applyRecovered k e (tomb e) ix"
  have same: "e\<lparr>tomb := tomb e\<rparr> = e" for e :: entry by simp
  have "\<exists>ix'. ?app (k, e\<lparr>tomb := tmb\<rparr>) ix = Some ix' \<and> index_inv ix' \<and>
      idx_lookup ix' = newest eseq (idx_lookup ix) (k, e\<lparr>tomb := tmb\<rparr>)"
    by (rule ix.apply_newest [OF assms]) (simp add: applyRecovered_def same Let_def)
  then show ?thesis by (simp add: applyRecovered_def Let_def)
qed

lemma applyRecovered_all_newest:
  assumes "index_inv ix"
  shows "\<exists>ix'. applyRecovered_all xs ix = Some ix' \<and> index_inv ix' \<and>
    idx_lookup ix' = foldl (newest eseq) (idx_lookup ix) (map located xs)"
  using assms
proof (induction xs arbitrary: ix)
  case (Cons x xs)
  obtain k e tmb where x: "x = (k, e, tmb)" by (cases x)
  obtain ix1 where "applyRecovered k e tmb ix = Some ix1" "index_inv ix1"
      "idx_lookup ix1 = newest eseq (idx_lookup ix) (k, e\<lparr>tomb := tmb\<rparr>)"
    using applyRecovered_newest [OF Cons.prems] by blast
  with Cons.IH [of ix1] show ?case by (simp add: x)
qed simp

text \<open>What a collecting scan sees, on sorted listings.\<close>

lemma scan_nodes_collect:
  assumes "sorted_wrt (<) (map nkey ns)"
  shows "scan_nodes endk (\<lambda>n acc. (True, acc @ [f n])) ns acc =
    acc @ map f (filter (\<lambda>n. endk = [] \<or> nkey n \<le> endk) ns)"
  using assms
proof (induction ns arbitrary: acc)
  case (Cons n ns)
  have "filter (\<lambda>n. nkey n \<le> endk) ns = []" if "endk < nkey n"
    using Cons.prems that by (auto simp: filter_empty_conv)
  with Cons show ?case by (auto simp: not_less)
qed simp

lemma rest_filter:
  assumes "sorted_wrt (<) (map (\<lambda>a. nkey (h ! a)) as)"
  shows "rest h k as = filter (\<lambda>a. k \<le> nkey (h ! a)) as"
  using assms
proof (induction as)
  case (Cons a as)
  have "filter (\<lambda>a. k \<le> nkey (h ! a)) as = as" if "k \<le> nkey (h ! a)"
    using Cons.prems that by (auto simp: filter_id_conv)
  with Cons show ?case by (auto simp: rest_def not_less)
qed (simp add: rest_def)

section \<open>Properties of the index\<close>

text \<open>
  C38. Storing an entry in the index, whether the key is new (a node is allocated and linked into
  every level it reaches) or known (its node is overwritten), always succeeds, keeps the hash
  map and the skip list consistent, and has exactly the effect of a map update: the key-ordered
  listing stays strictly sorted and changes at that key only.
\<close>

theorem idx_put_refines:
  assumes "index_inv ix"
  shows "\<exists>ix'. idx_put k e ix = Some ix' \<and> index_inv ix' \<and>
    sorted_wrt (<) (map fst (inorder ix')) \<and>
    map_of (inorder ix') = (map_of (inorder ix))(k \<mapsto> e)"
proof -
  obtain ix' where p: "idx_put k e ix = Some ix'" "index_inv ix'" "idx_lookup ix' = (idx_lookup ix)(k \<mapsto> e)"
    using ix.put_ok [OF assms] by blast
  have "map_of (inorder ix') = idx_lookup ix'" "map_of (inorder ix) = idx_lookup ix"
    using ix.lookup_listing p(2) assms by (simp_all add: fun_eq_iff)
  with p show ?thesis by (simp add: ix.listing_sorted)
qed

theorem idx_put_refines_witness:
  "\<exists>ix'. idx_put [0x61] zero_entry (new_index []) = Some ix' \<and> index_inv ix' \<and>
    map_of (inorder ix') [0x61] = Some zero_entry"
  using idx_put_refines [OF new_index_inv [of "[]"], of "[0x61]" zero_entry] by auto

text \<open>
  C39. Forgetting a key (the entry of a retired tombstone) unlinks its node from every level, never
  fails, keeps the two halves of the index consistent and removes exactly that key.
\<close>

theorem idx_del_refines:
  assumes "index_inv ix"
  shows "\<exists>ix'. idx_del k ix = Some ix' \<and> index_inv ix' \<and>
    sorted_wrt (<) (map fst (inorder ix')) \<and>
    map_of (inorder ix') = (map_of (inorder ix))(k := None)"
proof -
  obtain ix' where p: "idx_del k ix = Some ix'" "index_inv ix'" "idx_lookup ix' = (idx_lookup ix)(k := None)"
    using ix.del_ok [OF assms] by blast
  have "map_of (inorder ix') = idx_lookup ix'" "map_of (inorder ix) = idx_lookup ix"
    using ix.lookup_listing p(2) assms by (simp_all add: fun_eq_iff)
  with p show ?thesis by (simp add: ix.listing_sorted)
qed

theorem idx_del_refines_witness:
  "\<exists>ix ix'. idx_put [0x61] zero_entry (new_index []) = Some ix \<and> idx_del [0x61] ix = Some ix' \<and>
    map_of (inorder ix') [0x61] = None"
proof -
  obtain ix where "idx_put [0x61] zero_entry (new_index []) = Some ix" "index_inv ix"
    using ix.put_ok [OF new_index_inv] by blast
  with idx_del_refines [of ix "[0x61]"] show ?thesis by auto
qed

text \<open>
  C40. A skip-list scan over \<open>[start, end]\<close> (an empty end means to the last key) visits exactly
  the entries of the index in that range, each once, in key order.
\<close>

theorem scan_range:
  assumes "index_inv ix"
  shows "scan (heap ix) (order ix) start endk (\<lambda>n acc. (True, acc @ [(nkey n, ent n)])) [] =
    Some (filter (\<lambda>(k, e). start \<le> k \<and> (endk = [] \<or> k \<le> endk)) (inorder ix))"
proof -
  let ?h = "heap ix" and ?as = "addrs (heap ix) (order ix)"
  have rep: "sl_rep ?h (order ix) ?as" using assms by (simp add: index_inv_def)
  have sorted: "sorted_wrt (<) (map (\<lambda>a. nkey (?h ! a)) ?as)" using rep by (simp add: sl_rep_def)
  have "sorted_wrt (<) (map nkey (map ((!) ?h) (rest ?h start ?as)))"
    using sorted by (simp add: rest_filter [OF sorted] sorted_wrt_map sorted_wrt_filter)
  note collect = scan_nodes_collect [OF this, of endk "\<lambda>n. (nkey n, ent n)" "[]"]
  show ?thesis
    unfolding scan_rep [OF rep] collect
    by (simp add: rest_filter [OF sorted] inorder_def filter_map o_def conj_commute)
qed

theorem scan_range_witness:
  "\<exists>ix. idx_put [0x61] zero_entry (new_index []) = Some ix \<and>
    scan (heap ix) (order ix) [0x62] [] (\<lambda>n acc. (True, acc @ [(nkey n, ent n)])) [] =
      Some (filter (\<lambda>(k, e). [0x62] \<le> k \<and> ([] = [] \<or> k \<le> [])) (inorder ix))"
proof -
  obtain ix where "idx_put [0x61] zero_entry (new_index []) = Some ix" "index_inv ix"
    using ix.put_ok [OF new_index_inv] by blast
  with scan_range [of ix "[0x62]" "[]"] show ?thesis by auto
qed



end
