(* ===== verification/Manifest.thy ===== *)
theory Manifest
  imports Files
begin

text \<open>
  The compaction watermark, \<open>internal/engine/manifest.go\<close>: a text file \<open>MANIFEST\<close> with a line
  \<open>merge_seq=<n>\<close>, replaced atomically through a temporary file.
\<close>

section \<open>Strings\<close>

definition manifestPath :: bytes where "manifestPath = lit ''MANIFEST''"
definition manifestTmp :: bytes where "manifestTmp = manifestPath @ lit ''.tmp''"
definition mergeSeqKey :: bytes where "mergeSeqKey = lit ''merge_seq''"

text \<open>\<open>strings.Split(s, "\n")\<close> and \<open>strings.Cut(s, "=")\<close>.\<close>

fun split_lines :: "bytes \<Rightarrow> bytes list" where
  "split_lines [] = [[]]"
| "split_lines (b # bs) =
     (if b = 10 then [] # split_lines bs
      else (case split_lines bs of [] \<Rightarrow> [[b]] | l # ls \<Rightarrow> (b # l) # ls))"

definition cut_eq :: "bytes \<Rightarrow> (bytes \<times> bytes) option" where
  "cut_eq s = (case dropWhile (\<lambda>b. b \<noteq> 61) s of [] \<Rightarrow> None | _ # v \<Rightarrow> Some (takeWhile (\<lambda>b. b \<noteq> 61) s, v))"

text \<open>\<open>strings.TrimSpace\<close>: the UTF-8 encodings of the code points that \<open>unicode.IsSpace\<close> accepts.\<close>

definition spaces :: "bytes list" where
  "spaces = [[9], [10], [11], [12], [13], [32], [0xC2, 0x85], [0xC2, 0xA0], [0xE1, 0x9A, 0x80],
     [0xE2, 0x80, 0x80], [0xE2, 0x80, 0x81], [0xE2, 0x80, 0x82], [0xE2, 0x80, 0x83], [0xE2, 0x80, 0x84],
     [0xE2, 0x80, 0x85], [0xE2, 0x80, 0x86], [0xE2, 0x80, 0x87], [0xE2, 0x80, 0x88], [0xE2, 0x80, 0x89],
     [0xE2, 0x80, 0x8A], [0xE2, 0x80, 0xA8], [0xE2, 0x80, 0xA9], [0xE2, 0x80, 0xAF], [0xE2, 0x81, 0x9F],
     [0xE3, 0x80, 0x80]]"

lemma spaces_nonempty: "sp \<in> set spaces \<Longrightarrow> sp \<noteq> []"
  by (auto simp: spaces_def)

function trimLeft :: "bytes \<Rightarrow> bytes" where
  "trimLeft s = (case find (\<lambda>sp. take (length sp) s = sp) spaces of
     None \<Rightarrow> s | Some sp \<Rightarrow> trimLeft (drop (length sp) s))"
  by pat_completeness auto
termination
proof (relation "measure length")
  fix s sp assume "find (\<lambda>sp. take (length sp) s = sp) spaces = Some sp"
  then have "take (length sp) s = sp" "sp \<noteq> []"
    by (auto dest!: find_SomeD spaces_nonempty)
  then show "(drop (length sp) s, s) \<in> measure length"
    using length_take [of "length sp" s] by (cases sp) auto
qed simp

function trimRight :: "bytes \<Rightarrow> bytes" where
  "trimRight s = (case find (HasSuffix s) spaces of
     None \<Rightarrow> s | Some sp \<Rightarrow> trimRight (TrimSuffix s sp))"
  by pat_completeness auto
termination
proof (relation "measure length")
  fix s sp assume "find (HasSuffix s) spaces = Some sp"
  then have "HasSuffix s sp" "sp \<noteq> []"
    by (auto dest!: find_SomeD spaces_nonempty)
  then show "(TrimSuffix s sp, s) \<in> measure length"
    using TrimSuffix_id [of s sp] by (metis in_measure length_append less_add_same_cancel1 length_greater_0_conv)
qed simp

declare trimLeft.simps [simp del] trimRight.simps [simp del]

definition TrimSpace :: "bytes \<Rightarrow> bytes" where
  "TrimSpace s = trimRight (trimLeft s)"

section \<open>Reading and writing\<close>

fun manifest_lines :: "bytes list \<Rightarrow> u64" where
  "manifest_lines [] = 0"
| "manifest_lines (line # ls) =
     (case cut_eq (TrimSpace line) of
        None \<Rightarrow> manifest_lines ls
      | Some (k, v) \<Rightarrow>
          if k \<noteq> mergeSeqKey then manifest_lines ls
          else (case ParseUint v 64 of Some n \<Rightarrow> of_nat n | None \<Rightarrow> manifest_lines ls))"

definition readManifest :: "fs \<Rightarrow> u64 \<times> fs" where
  "readManifest d =
     (case openFile manifestPath False d of
        (Inl _, d) \<Rightarrow> (0, d)
      | (Inr f, d) \<Rightarrow> (case readAll f d of
          ((_, True), d) \<Rightarrow> (0, d)
        | ((b, False), d) \<Rightarrow> (manifest_lines (split_lines b), d)))"

definition manifest_text :: "u64 \<Rightarrow> bytes" where
  "manifest_text n = lit ''merge_seq='' @ digits (unat n) @ [10]"

definition writeManifest :: "u64 \<Rightarrow> fs \<Rightarrow> (fs, unit) res" where
  "writeManifest n d =
     andThen (openTrunc manifestTmp d) (\<lambda>f d.
       (case fileAppend f (manifest_text n) d of
          (Inl er, d) \<Rightarrow> (Inl er, ignore (Remove manifestTmp d))
        | (Inr _, d) \<Rightarrow> (case SyncFile f d of
            (Inl er, d) \<Rightarrow> (Inl er, ignore (Remove manifestTmp d))
          | (Inr _, d) \<Rightarrow>
              andThen (Rename manifestTmp manifestPath d) (\<lambda>_ d. syncDir d))))"

section \<open>The text round trip\<close>

lemma manifest_paths_differ [simp]: "manifestTmp \<noteq> manifestPath" "manifestPath \<noteq> manifestTmp"
  by (simp_all add: manifestTmp_def manifestPath_def lit_def)

lemma split_lines_line: "10 \<notin> set l \<Longrightarrow> split_lines (l @ [10]) = [l, []]"
  by (induction l) auto

lemma trimLeft_id: "hd s \<notin> set (map hd spaces) \<Longrightarrow> trimLeft s = s"
proof -
  assume hd: "hd s \<notin> set (map hd spaces)"
  have "find (\<lambda>sp. take (length sp) s = sp) spaces = None"
  proof (rule ccontr)
    assume "find (\<lambda>sp. take (length sp) s = sp) spaces \<noteq> None"
    then obtain sp where sp: "sp \<in> set spaces" "take (length sp) s = sp" by (auto simp: find_None_iff)
    then have "hd sp = hd s" using spaces_nonempty [OF sp(1)] by (metis hd_take length_greater_0_conv)
    with hd sp(1) show False by (metis imageI list.set_map)
  qed
  then show ?thesis by (simp add: trimLeft.simps)
qed

lemma trimRight_id: "last s \<notin> set (map last spaces) \<Longrightarrow> trimRight s = s"
proof -
  assume la: "last s \<notin> set (map last spaces)"
  have "find (HasSuffix s) spaces = None"
  proof (rule ccontr)
    assume "find (HasSuffix s) spaces \<noteq> None"
    then obtain sp where sp: "sp \<in> set spaces" "HasSuffix s sp" by (auto simp: find_None_iff)
    then have "last sp = last s" using spaces_nonempty [OF sp(1)] by (metis TrimSuffix_id last_appendR)
    with la sp(1) show False by (metis imageI list.set_map)
  qed
  then show ?thesis by (simp add: trimRight.simps)
qed

lemma digits_last: "is_digit (last (digits n))"
  using digits_are_digits [of n] digits_not_Nil [of n] by (metis last_in_set list_all_iff)

lemma digit_not_special: "is_digit b \<Longrightarrow> b \<noteq> 10 \<and> b \<noteq> 61 \<and> b \<notin> set (map last spaces)"
  by (auto simp: is_digit_def spaces_def)

lemma manifest_text_value: "manifest_lines (split_lines (manifest_text n)) = n"
proof -
  let ?l = "lit ''merge_seq='' @ digits (unat n)"
  have "10 \<notin> set (digits (unat n))"
    using digits_are_digits [of "unat n"] digit_not_special by (auto simp: list_all_iff)
  then have lines: "split_lines (manifest_text n) = [?l, []]"
    unfolding manifest_text_def by (subst append_assoc [symmetric], intro split_lines_line) (auto simp: lit_def)
  have "trimLeft ?l = ?l" by (rule trimLeft_id) (simp add: lit_def spaces_def)
  moreover have "trimRight ?l = ?l"
    using digit_not_special [OF digits_last [of "unat n"]] by (intro trimRight_id) simp
  ultimately have trim: "TrimSpace ?l = ?l" by (simp add: TrimSpace_def)
  have "cut_eq ?l = Some (mergeSeqKey, digits (unat n))"
    by (simp add: cut_eq_def lit_def mergeSeqKey_def)
  moreover have "ParseUint (digits (unat n)) 64 = Some (unat n)"
    using unsigned_less [of n] by (intro ParseUint_digits) simp
  ultimately show ?thesis by (simp add: lines trim)
qed

section \<open>Atomic replacement\<close>

text \<open>What a reader finds, when the read itself succeeds.\<close>

definition manifest_value :: "fs \<Rightarrow> u64" where
  "manifest_value d = fst (readManifest (d\<lparr>faults := []\<rparr>))"

lemma manifest_value_alt:
  "manifest_value d = (case map_of (dir d) manifestPath of
     None \<Rightarrow> 0 | Some j \<Rightarrow> manifest_lines (split_lines (content (inodes d ! j))))"
  by (simp add: manifest_value_def readManifest_def openFile_def readAll_def the_file_def split: option.splits)

lemma manifest_value_only:
  "only_file i d d' \<Longrightarrow> map_of (dir d) manifestPath \<noteq> Some i \<Longrightarrow> manifest_value d' = manifest_value d"
  by (auto simp: manifest_value_alt only_file_def split: option.splits)

lemma Remove_manifestTmp: "manifest_value (ignore (Remove manifestTmp d)) = manifest_value d"
  by (auto simp: manifest_value_alt Remove_def ignore_def delete_conv' split_beta split: option.splits)

text \<open>Opening the temporary file does not touch the manifest.\<close>

lemma openTrunc_tmp:
  assumes "openTrunc manifestTmp d = (r, d')"
    and wf: "\<forall>n j. map_of (dir d) n = Some j \<longrightarrow> j < length (inodes d)"
    and sep: "\<forall>j. map_of (dir d) manifestTmp = Some j \<longrightarrow> map_of (dir d) manifestPath \<noteq> Some j"
  shows "manifest_value d' = manifest_value d"
    and "r = Inr f \<Longrightarrow> fopen f \<and> fwr f \<and> ino f < length (inodes d') \<and> content (the_file d' f) = [] \<and>
      map_of (dir d') manifestTmp = Some (ino f) \<and> map_of (dir d') manifestPath \<noteq> Some (ino f)"
proof -
  have fresh: "map_of (dir d) manifestPath \<noteq> Some (length (inodes d))" using wf less_irrefl by metis
  have "manifest_value d' = manifest_value d \<and> (\<forall>f. r = Inr f \<longrightarrow> fopen f \<and> fwr f \<and> ino f < length (inodes d') \<and>
      content (the_file d' f) = [] \<and> map_of (dir d') manifestTmp = Some (ino f) \<and> map_of (dir d') manifestPath \<noteq> Some (ino f))"
    using assms(1) wf sep fresh
    by (auto simp: openTrunc_def split_beta Let_def manifest_value_alt new_inode_def the_file_def nth_append update_conv'
        set_file_def nth_list_update split: option.splits if_splits)
  then show "manifest_value d' = manifest_value d"
    and "r = Inr f \<Longrightarrow> fopen f \<and> fwr f \<and> ino f < length (inodes d') \<and> content (the_file d' f) = [] \<and>
      map_of (dir d') manifestTmp = Some (ino f) \<and> map_of (dir d') manifestPath \<noteq> Some (ino f)"
    by blast+
qed

lemma Rename_manifest:
  assumes "Rename manifestTmp manifestPath d = (r, d')" and "map_of (dir d) manifestTmp = Some i"
  shows "manifest_value d' = (case r of Inl _ \<Rightarrow> manifest_value d | Inr _ \<Rightarrow> manifest_lines (split_lines (content (inodes d ! i))))"
  using assms by (auto simp: Rename_def manifest_value_alt update_conv' split_beta split: option.splits if_splits)

lemma syncDir_manifest: "syncDir d = (r, d') \<Longrightarrow> manifest_value d' = manifest_value d"
  by (auto simp: syncDir_def manifest_value_alt split_beta split: option.splits)

text \<open>
  C35. Replacing the watermark is atomic under every pattern of I/O errors: after \<open>writeManifest\<close>,
  a reader finds the new value if the call succeeded, and the old or the new value, never a
  mixture or nothing, if it failed at any point.
\<close>

theorem writeManifest_atomic:
  assumes "\<forall>n j. map_of (dir d) n = Some j \<longrightarrow> j < length (inodes d)"
    and "\<forall>j. map_of (dir d) manifestTmp = Some j \<longrightarrow> map_of (dir d) manifestPath \<noteq> Some j"
  shows "case writeManifest n d of
      (Inr _, d') \<Rightarrow> manifest_value d' = n
    | (Inl _, d') \<Rightarrow> manifest_value d' = manifest_value d \<or> manifest_value d' = n"
proof (cases "openTrunc manifestTmp d")
  case (Pair r1 d1)
  note o = openTrunc_tmp [OF Pair assms]
  show ?thesis
  proof (cases r1)
    case (Inl er)
    then show ?thesis using o(1) by (simp add: writeManifest_def Pair)
  next
    case (Inr f)
    note f = o(2) [OF Inr]
    obtain r2 d2 where 2: "fileAppend f (manifest_text n) d1 = (r2, d2)" by fastforce
    obtain r3 d3 where 3: "SyncFile f d2 = (r3, d3)" by fastforce
    note o2 = fileAppend_only [OF 2] and o3 = SyncFile_only [OF 3]
    have v2: "manifest_value d2 = manifest_value d" using manifest_value_only [OF o2] f o(1) by simp
    have v3: "manifest_value d3 = manifest_value d" using manifest_value_only [OF o3] o2 f v2 by (simp add: only_file_def)
    have tmp: "map_of (dir d3) manifestTmp = Some (ino f)" using f o2 o3 by (simp add: only_file_def)
    have written: "content (inodes d3 ! ino f) = manifest_text n" if "r2 = Inr ()" "r3 = Inr ()"
      using 2 3 f that
      by (auto simp: fileAppend_def WriteAt_def SyncFile_def splice_def set_file_def the_file_def Let_def
          split_beta split: if_splits option.splits)
    obtain r4 d4 where 4: "Rename manifestTmp manifestPath d3 = (r4, d4)" by fastforce
    obtain r5 d5 where 5: "syncDir d4 = (r5, d5)" by fastforce
    show ?thesis
      using v2 v3 written Rename_manifest [OF 4 tmp] syncDir_manifest [OF 5] Pair Inr 2 3 4 5
      by (auto simp: writeManifest_def Remove_manifestTmp manifest_text_value split: sum.splits)
  qed
qed

theorem writeManifest_atomic_witness:
  "\<exists>d'. writeManifest 42 \<lparr> dir = [], ddir = [], inodes = [], faults = [] \<rparr> = (Inr (), d') \<and> manifest_value d' = 42"
  using writeManifest_atomic [of "\<lparr> dir = [], ddir = [], inodes = [], faults = [] \<rparr>" 42]
  by (simp add: writeManifest_def openTrunc_def new_inode_def fileAppend_def WriteAt_def SyncFile_def Rename_def syncDir_def
      the_file_def set_file_def Let_def)

end
