(* ===== verification/Store.thy ===== *)
theory Store
  imports Index Manifest
begin

text \<open>
  The store, \<open>internal/engine/store.go\<close>: its state, the write path (\<open>Put\<close>, \<open>BatchPut\<close>,
  \<open>Delete\<close>), the read path (\<open>Get\<close>), syncing, counters, observers and \<open>Close\<close>.

  An operation runs under the store's write lock, so it is a function from states to states; its
  result is an error or a value. A \<open>*datafile\<close> is an index into \<open>dfs\<close>, so that \<open>active\<close> and the
  map \<open>files\<close> share the object whose size an append changes. \<open>time.Now()\<close> is an argument. A
  goroutine started by a write (the hint of a retired file) is a pending job of the state. An
  observer is represented by its id and by the calls it received (\<open>outbox\<close>).

  The lemmas establish the store invariant (every index entry locates an intact record of its key
  in an open file, and the counters are those of the index) for every operation, and the abstract
  behaviour of each as a map from keys to values, under every pattern of I/O errors.
\<close>

section \<open>State\<close>

datatype SyncMode = SyncInterval | SyncAlways | SyncNever

type_synonym dfptr = nat

record store =
  maxFileSize :: nat
  syncMode :: SyncMode
  ix :: index
  active :: "dfptr option"
  nextID :: u32
  seq :: u64
  dirty :: bool
  files :: "(u32 \<times> dfptr) list"
  dfs :: "datafile list"
  obs :: "u64 list"
  obsID :: u64
  outbox :: "(u64 \<times> u64 \<times> bytes) list"
  live :: int
  total :: int
  nLive :: int
  nPut :: u64
  nGet :: u64
  nDel :: u64
  nScan :: u64
  nMiss :: u64
  compacting :: bool
  mergeSeq :: u64
  hintJobs :: "u32 list"
  closed :: bool
  disk :: fs

definition on_disk :: "(fs \<Rightarrow> (fs, 'a) res) \<Rightarrow> store \<Rightarrow> (store, 'a) res" where
  "on_disk f s = (case f (disk s) of (r, d) \<Rightarrow> (r, s\<lparr>disk := d\<rparr>))"

section \<open>Write path\<close>

definition validateKey :: "bytes \<Rightarrow> error option" where
  "validateKey k = (if length k = 0 then Some ErrEmptyKey
     else if length k > MaxKeySize then Some ErrKeyTooLarge else None)"

definition openNewActive :: "store \<Rightarrow> (store, unit) res" where
  "openNewActive s =
     andThen (on_disk (createDataFile (nextID s)) s) (\<lambda>df s.
       let p = length (dfs s);
           s = s\<lparr>nextID := nextID s + 1, dfs := dfs s @ [df],
                 files := AList.update (did df) p (files s), active := Some p\<rparr>
       in on_disk syncDir s)"

definition maybeRotateLocked :: "nat \<Rightarrow> store \<Rightarrow> (store, unit) res" where
  "maybeRotateLocked incoming s =
     (case active s of
        None \<Rightarrow> (Inl Panic, s)
      | Some p \<Rightarrow>
          let cur = dsize (dfs s ! p) in
          if cur = 0 \<or> cur + incoming \<le> maxFileSize s then (Inr (), s)
          else
            andThen (on_disk (SyncFile (dfile (dfs s ! p))) s) (\<lambda>_ s.
            andThen (openNewActive s) (\<lambda>_ s.
              (Inr (), s\<lparr>dirty := False, hintJobs := hintJobs s @ [did (dfs s ! p)]\<rparr>))))"

text \<open>\<open>indexApplyLocked\<close>: the single place where a write changes the index and the live counters.\<close>

definition indexApplyLocked :: "bytes \<Rightarrow> entry \<Rightarrow> bool \<Rightarrow> store \<Rightarrow> store option" where
  "indexApplyLocked k e tmb s =
     (let e = e\<lparr>tomb := tmb\<rparr>;
          count = (\<lambda>s. if tmb then s else s\<lparr>live := live s + int (unat (esize e)), nLive := nLive s + 1\<rparr>)
      in
      case idx_lookup (ix s) k of
        Some old \<Rightarrow>
          if eseq old \<ge> eseq e then Some s
          else
            let s = (if tomb old then s
                     else s\<lparr>live := live s - int (unat (esize old)), nLive := nLive s - 1\<rparr>)
            in do { x \<leftarrow> idx_put k e (ix s); Some (count (s\<lparr>ix := x\<rparr>)) }
      | None \<Rightarrow> do { x \<leftarrow> idx_put k e (ix s); Some (count (s\<lparr>ix := x\<rparr>)) })"

fun index_recs :: "nat \<Rightarrow> u32 \<Rightarrow> (u32 \<times> krecord) list \<Rightarrow> store \<Rightarrow> store option" where
  "index_recs base i [] s = Some s"
| "index_recs base i ((off, r) # xs) s = do {
     s \<leftarrow> indexApplyLocked (key r)
       \<lparr> pos = base + unat off, eseq = rseq r, fileID = i,
         esize = encodedSize (length (key r)) (length (val r)), tomb = False \<rparr> (tombstone r) s;
     index_recs base i xs s }"

definition notify :: "u64 \<Rightarrow> bytes \<Rightarrow> store \<Rightarrow> store" where
  "notify maxSeq raw s = s\<lparr>outbox := outbox s @ map (\<lambda>i. (i, maxSeq, raw)) (obs s)\<rparr>"

text \<open>The loop that encodes a batch and records the offset of each record as a \<open>uint32\<close>.\<close>

definition encode_batch :: "krecord list \<Rightarrow> bytes \<times> u32 list" where
  "encode_batch recs =
     foldl (\<lambda>(buf, offs) r. (appendRecord buf r, offs @ [of_nat (length buf)])) ([], []) recs"

definition writeLocked :: "krecord list \<Rightarrow> store \<Rightarrow> (store, unit) res" where
  "writeLocked recs s =
     (let (buf, offs) = encode_batch recs in
      andThen (maybeRotateLocked (length buf) s) (\<lambda>_ s.
        (case active s of
           None \<Rightarrow> (Inl Panic, s)
         | Some p \<Rightarrow>
             let af = dfs s ! p; base = dsize af in
             (case WriteAt (dfile af) buf base (disk s) of
                (Inl er, d) \<Rightarrow> (Inl er, s\<lparr>disk := ignore (Truncate (dfile af) base d)\<rparr>)
              | (Inr _, d) \<Rightarrow>
                  let s = s\<lparr>disk := d, dfs := (dfs s)[p := af\<lparr>dsize := base + length buf\<rparr>],
                            total := total s + int (length buf), dirty := True\<rparr>
                  in
                  andThen
                    (if syncMode s = SyncAlways
                     then andThen (on_disk (SyncFile (dfile af)) s) (\<lambda>_ s. (Inr (), s\<lparr>dirty := False\<rparr>))
                     else (Inr (), s))
                    (\<lambda>_ s.
                      (case index_recs base (did af) (zip offs recs) s of
                         None \<Rightarrow> (Inl Panic, s)
                       | Some s \<Rightarrow>
                           if recs = [] then (Inl Panic, s)
                           else (Inr (), notify (rseq (last recs)) buf s)))))))"

text \<open>\<open>appendLocked\<close>: number the records, then write them; a failed write does not give numbers back.\<close>

fun assign_seqs :: "u64 \<Rightarrow> krecord list \<Rightarrow> krecord list \<times> u64" where
  "assign_seqs n [] = ([], n)"
| "assign_seqs n (r # rs) = (let (rs, m) = assign_seqs (n + 1) rs in (r\<lparr>rseq := n + 1\<rparr> # rs, m))"

definition appendLocked :: "krecord list \<Rightarrow> store \<Rightarrow> (store, unit) res" where
  "appendLocked recs s =
     (let (recs, n) = assign_seqs (seq s) recs in writeLocked recs (s\<lparr>seq := n\<rparr>))"

definition Put :: "u64 \<Rightarrow> bytes \<Rightarrow> bytes \<Rightarrow> store \<Rightarrow> (store, unit) res" where
  "Put now k v s =
     (case validateKey k of
        Some er \<Rightarrow> (Inl er, s)
      | None \<Rightarrow>
          if length v > MaxValueSize then (Inl ErrValueTooLong, s)
          else if closed s then (Inl ErrClosed, s)
          else
            andThen (appendLocked [\<lparr> ts = now, rseq = 0, flags = 0, key = k, val = v \<rparr>] s) (\<lambda>_ s.
              (Inr (), s\<lparr>nPut := nPut s + 1\<rparr>)))"

fun check_batch :: "(bytes \<times> bytes) list \<Rightarrow> error option" where
  "check_batch [] = None"
| "check_batch ((k, v) # kvs) =
     (case validateKey k of
        Some er \<Rightarrow> Some er
      | None \<Rightarrow> if length v > MaxValueSize then Some ErrValueTooLong else check_batch kvs)"

definition batch_recs :: "u64 \<Rightarrow> (bytes \<times> bytes) list \<Rightarrow> krecord list" where
  "batch_recs now kvs =
     map (\<lambda>(i, k, v). \<lparr> ts = now, rseq = 0,
         flags = (if i = length kvs - 1 then flagBatch OR flagBatchEnd else flagBatch), key = k, val = v \<rparr>)
       (zip [0..<length kvs] kvs)"

definition BatchPut :: "u64 \<Rightarrow> bytes list \<Rightarrow> bytes list \<Rightarrow> store \<Rightarrow> (store, unit) res" where
  "BatchPut now ks vs s =
     (if length ks \<noteq> length vs then (Inl ErrBatchLen, s)
      else if length ks = 0 then (Inr (), s)
      else (case check_batch (zip ks vs) of
          Some er \<Rightarrow> (Inl er, s)
        | None \<Rightarrow>
            if closed s then (Inl ErrClosed, s)
            else
              andThen (appendLocked (batch_recs now (zip ks vs)) s) (\<lambda>_ s.
                (Inr (), s\<lparr>nPut := nPut s + of_nat (length ks)\<rparr>))))"

definition Delete :: "u64 \<Rightarrow> bytes \<Rightarrow> store \<Rightarrow> (store, unit) res" where
  "Delete now k s =
     (case validateKey k of
        Some er \<Rightarrow> (Inl er, s)
      | None \<Rightarrow>
          if (case idx_lookup (ix s) k of None \<Rightarrow> True | Some e \<Rightarrow> tomb e) then (Inl ErrKeyNotFound, s)
          else if closed s then (Inl ErrClosed, s)
          else
            andThen (appendLocked [\<lparr> ts = now, rseq = 0, flags = flagTombstone, key = k, val = [] \<rparr>] s) (\<lambda>_ s.
              (Inr (), s\<lparr>nDel := nDel s + 1\<rparr>)))"

section \<open>Read path\<close>

definition readValue :: "entry \<Rightarrow> store \<Rightarrow> (store, bytes) res" where
  "readValue e s =
     (case map_of (files s) (fileID e) of
        None \<Rightarrow> (Inl errFileGone, s)
      | Some p \<Rightarrow>
          andThen (on_disk (readRecord (dfs s ! p) e) s) (\<lambda>(r, _) s.
            if rseq r \<noteq> eseq e then (Inl (ErrOther ''index points at another sequence number''), s)
            else if tombstone r then (Inl ErrKeyNotFound, s)
            else (Inr (val r), s)))"

text \<open>
  The retry loop of \<open>Get\<close>. Other operations can run between the lookup and the read and between
  two attempts; \<open>env1 n\<close> and \<open>env2 n\<close> are what they do to the state in those two gaps of the
  attempt with \<open>n\<close> tries left.
\<close>

fun get_loop :: "(nat \<Rightarrow> store \<Rightarrow> store) \<Rightarrow> (nat \<Rightarrow> store \<Rightarrow> store) \<Rightarrow> nat \<Rightarrow> bytes \<Rightarrow> store \<Rightarrow> (store, bytes) res" where
  "get_loop env1 env2 0 k s = (Inl (ErrOther ''read lost a race with compaction''), s)"
| "get_loop env1 env2 (Suc n) k s =
     (case idx_lookup (ix s) k of
        None \<Rightarrow> (Inl ErrKeyNotFound, s\<lparr>nMiss := nMiss s + 1\<rparr>)
      | Some e \<Rightarrow>
          if tomb e then (Inl ErrKeyNotFound, s\<lparr>nMiss := nMiss s + 1\<rparr>)
          else (case readValue e (env1 n s) of
              (Inl errFileGone, s) \<Rightarrow> get_loop env1 env2 n k (env2 n s)
            | r \<Rightarrow> r))"

definition Get_with :: "(nat \<Rightarrow> store \<Rightarrow> store) \<Rightarrow> (nat \<Rightarrow> store \<Rightarrow> store) \<Rightarrow> bytes \<Rightarrow> store \<Rightarrow> (store, bytes) res" where
  "Get_with env1 env2 k s =
     (case validateKey k of
        Some er \<Rightarrow> (Inl er, s)
      | None \<Rightarrow> get_loop env1 env2 4 k (s\<lparr>nGet := nGet s + 1\<rparr>))"

abbreviation Get :: "bytes \<Rightarrow> store \<Rightarrow> (store, bytes) res" where
  "Get \<equiv> Get_with (\<lambda>_ s. s) (\<lambda>_ s. s)"

section \<open>Housekeeping\<close>

definition recountLocked :: "store \<Rightarrow> store" where
  "recountLocked s =
     (let es = filter (\<lambda>e. \<not> tomb e) (map (\<lambda>(k, a). ent (heap (ix s) ! a)) (keys (ix s))) in
      s\<lparr>live := sum_list (map (\<lambda>e. int (unat (esize e))) es), nLive := int (length es)\<rparr>)"

definition SyncStore :: "store \<Rightarrow> (store, unit) res" where
  "SyncStore s =
     (if \<not> dirty s then (Inr (), s)
      else (case active s of
          None \<Rightarrow> (Inr (), s)
        | Some p \<Rightarrow>
            andThen (on_disk (SyncFile (dfile (dfs s ! p))) s) (\<lambda>_ s. (Inr (), s\<lparr>dirty := False\<rparr>))))"

definition deadBytes :: "store \<Rightarrow> int" where
  "deadBytes s = (if total s - live s > 0 then total s - live s else 0)"

definition StoreLen :: "store \<Rightarrow> int" where
  "StoreLen s = nLive s"

definition Seq :: "store \<Rightarrow> u64" where
  "Seq s = seq s"

definition MergeSeq :: "store \<Rightarrow> u64" where
  "MergeSeq s = mergeSeq s"

definition Compacting :: "store \<Rightarrow> bool" where
  "Compacting s = compacting s"

text \<open>
  The caller's part of \<open>StartCompaction\<close>: claim the flag. The merge runs on a goroutine of its own.
\<close>

definition StartCompaction :: "store \<Rightarrow> bool \<times> store" where
  "StartCompaction s = (if compacting s then (False, s) else (True, s\<lparr>compacting := True\<rparr>))"

text \<open>\<open>Reclaimable\<close> is a quotient of two integers; the pair is kept.\<close>

record StatsRec =
  stKeys :: int
  stTombstones :: int
  stFiles :: nat
  stLive :: int
  stDead :: int
  stSeq :: u64
  stPuts :: u64
  stGets :: u64
  stDeletes :: u64
  stScans :: u64
  stMisses :: u64
  stReclaimable :: "int \<times> int"
  stCompacting :: bool

definition Stats :: "store \<Rightarrow> StatsRec" where
  "Stats s =
     (let lv = live s; dead = deadBytes s;
          ratio = (if lv + dead > 0 then (dead, lv + dead) else (0, 1))
      in \<lparr> stKeys = nLive s, stTombstones = int (length (keys (ix s))) - nLive s, stFiles = length (files s),
           stLive = lv, stDead = dead, stSeq = Seq s, stPuts = nPut s, stGets = nGet s, stDeletes = nDel s,
           stScans = nScan s, stMisses = nMiss s, stReclaimable = ratio, stCompacting = Compacting s \<rparr>)"

definition AddObserver :: "store \<Rightarrow> u64 \<times> store" where
  "AddObserver s = (let i = obsID s + 1 in (i, s\<lparr>obsID := i, obs := obs s @ [i]\<rparr>))"

definition cancelObserver :: "u64 \<Rightarrow> store \<Rightarrow> store" where
  "cancelObserver i s = s\<lparr>obs := removeAll i (obs s)\<rparr>"

definition closeFiles :: "store \<Rightarrow> store" where
  "closeFiles s =
     s\<lparr>dfs := foldl (\<lambda>ds (_, p). ds[p := close (ds ! p)]) (dfs s) (files s), files := []\<rparr>"

text \<open>The pending hint jobs run to completion before \<open>Close\<close> goes on (\<open>wg.Wait\<close>).\<close>

definition runHintJobs :: "store \<Rightarrow> store" where
  "runHintJobs s = s\<lparr>disk := foldl (\<lambda>d i. ignore (buildHint i d)) (disk s) (hintJobs s), hintJobs := []\<rparr>"

definition CloseStore :: "store \<Rightarrow> (store, unit) res" where
  "CloseStore s =
     (if closed s then (Inr (), s)
      else
        let s = s\<lparr>closed := True\<rparr>;
            (r, s) = (case active s of
                None \<Rightarrow> (Inr (), s)
              | Some p \<Rightarrow>
                  if dirty s
                  then (case on_disk (SyncFile (dfile (dfs s ! p))) s of (r, s) \<Rightarrow> (r, s\<lparr>dirty := False\<rparr>))
                  else (Inr (), s))
        in (r, closeFiles (runHintJobs s)))"

section \<open>Logs and locators\<close>

text \<open>The log of a file: what has been appended to it, up to the size the store knows.\<close>

definition log_of :: "(u32 \<times> dfptr) list \<Rightarrow> datafile list \<Rightarrow> fs \<Rightarrow> u32 \<Rightarrow> bytes" where
  "log_of fl ds d i = (case map_of fl i of
     None \<Rightarrow> [] | Some p \<Rightarrow> take (dsize (ds ! p)) (content (inodes d ! ino (dfile (ds ! p)))))"

abbreviation logs :: "store \<Rightarrow> u32 \<Rightarrow> bytes" where
  "logs s \<equiv> log_of (files s) (dfs s) (disk s)"

definition stored :: "(u32 \<Rightarrow> bytes) \<Rightarrow> entry \<Rightarrow> krecord \<Rightarrow> bool" where
  "stored L e r \<longleftrightarrow> wf_rec r \<and> esize e = encodedSize (length (key r)) (length (val r)) \<and>
     pos e + rec_size r \<le> length (L (fileID e)) \<and>
     bslice (pos e) (pos e + rec_size r) (L (fileID e)) = encode r \<and>
     rseq r = eseq e \<and> tombstone r = tomb e"

definition rec_of :: "(u32 \<Rightarrow> bytes) \<Rightarrow> entry \<Rightarrow> krecord" where
  "rec_of L e = projr (decodeRecord (bslice (pos e) (pos e + unat (esize e)) (L (fileID e))))"

text \<open>What a record says about its key: a version, and the value unless it is a tombstone.\<close>

definition payload :: "krecord \<Rightarrow> u64 \<times> bytes option" where
  "payload r = (rseq r, if tombstone r then None else Some (val r))"

definition view_of :: "index \<Rightarrow> (u32 \<Rightarrow> bytes) \<Rightarrow> bytes \<Rightarrow> (u64 \<times> bytes option) option" where
  "view_of x L k = map_option (\<lambda>e. payload (rec_of L e)) (idx_lookup x k)"

abbreviation view :: "store \<Rightarrow> bytes \<Rightarrow> (u64 \<times> bytes option) option" where
  "view s \<equiv> view_of (ix s) (logs s)"

text \<open>The abstract state: the map from live keys to values.\<close>

definition contents_of :: "(bytes \<Rightarrow> (u64 \<times> bytes option) option) \<Rightarrow> bytes \<Rightarrow> bytes option" where
  "contents_of m k = (case m k of Some (_, Some v) \<Rightarrow> Some v | _ \<Rightarrow> None)"

abbreviation contents :: "store \<Rightarrow> bytes \<Rightarrow> bytes option" where
  "contents s \<equiv> contents_of (view s)"

lemma stored_size: "stored L e r \<Longrightarrow> unat (esize e) = rec_size r"
  by (simp add: stored_def wf_rec_encodedSize)

lemma rec_of_stored: "stored L e r \<Longrightarrow> rec_of L e = r"
  using wf_rec_bounds(3) [of r]
  by (simp add: rec_of_def stored_size) (simp add: stored_def decodeRecord_encode)

lemma bslice_prefix: "j \<le> length xs \<Longrightarrow> bslice i j (xs @ ys) = bslice i j xs"
  by (simp add: bslice_def)

definition log_ext :: "(u32 \<Rightarrow> bytes) \<Rightarrow> (u32 \<Rightarrow> bytes) \<Rightarrow> bool" where
  "log_ext L L' \<longleftrightarrow> (\<forall>i. \<exists>zs. L' i = L i @ zs)"

lemma log_ext_append: "log_ext L (L(i := L i @ zs))"
  by (auto simp: log_ext_def)

lemma stored_ext:
  assumes "stored L e r" and "log_ext L L'"
  shows "stored L' e r"
proof -
  obtain zs where zs: "L' (fileID e) = L (fileID e) @ zs" using assms(2) by (auto simp: log_ext_def)
  show ?thesis using assms(1) unfolding stored_def zs by (simp add: bslice_prefix)
qed

section \<open>The store invariant\<close>

definition files_ok :: "(u32 \<times> dfptr) list \<Rightarrow> datafile list \<Rightarrow> fs \<Rightarrow> bool" where
  "files_ok fl ds d \<longleftrightarrow> distinct (map fst fl) \<and>
     (\<forall>i p. map_of fl i = Some p \<longrightarrow>
        p < length ds \<and> did (ds ! p) = i \<and> dpath (ds ! p) = dataPath i \<and> fopen (dfile (ds ! p)) \<and>
        ino (dfile (ds ! p)) < length (inodes d) \<and>
        dsize (ds ! p) \<le> length (content (inodes d ! ino (dfile (ds ! p)))) \<and>
        map_of (dir d) (dataPath i) = Some (ino (dfile (ds ! p)))) \<and>
     (\<forall>i j p q. map_of fl i = Some p \<longrightarrow> map_of fl j = Some q \<longrightarrow>
        ino (dfile (ds ! p)) = ino (dfile (ds ! q)) \<longrightarrow> i = j)"

text \<open>
  The active file is one of the open files and writable, or closed (which is what a \<open>Reset\<close> that
  could not create a new file leaves behind).
\<close>

definition active_ok :: "dfptr option \<Rightarrow> (u32 \<times> dfptr) list \<Rightarrow> datafile list \<Rightarrow> bool" where
  "active_ok a fl ds \<longleftrightarrow> (\<exists>p. a = Some p \<and> p < length ds \<and>
     (\<not> fopen (dfile (ds ! p)) \<or> map_of fl (did (ds ! p)) = Some p \<and> fwr (dfile (ds ! p))))"

definition index_ok :: "index \<Rightarrow> (u32 \<Rightarrow> bytes) \<Rightarrow> bool" where
  "index_ok x L \<longleftrightarrow> index_inv x \<and>
     (\<forall>k e. idx_lookup x k = Some e \<longrightarrow> (\<exists>r. stored L e r \<and> key r = k))"

definition live_size :: "entry option \<Rightarrow> int" where
  "live_size eo = (case eo of None \<Rightarrow> 0 | Some e \<Rightarrow> if tomb e then 0 else int (unat (esize e)))"

definition live_one :: "entry option \<Rightarrow> int" where
  "live_one eo = (case eo of None \<Rightarrow> 0 | Some e \<Rightarrow> if tomb e then 0 else 1)"

definition counts_ok :: "index \<Rightarrow> int \<Rightarrow> int \<Rightarrow> bool" where
  "counts_ok x lv n \<longleftrightarrow>
     lv = (\<Sum>k \<in> dom (idx_lookup x). live_size (idx_lookup x k)) \<and>
     n = (\<Sum>k \<in> dom (idx_lookup x). live_one (idx_lookup x k))"

definition store_inv :: "store \<Rightarrow> bool" where
  "store_inv s \<longleftrightarrow> files_ok (files s) (dfs s) (disk s) \<and> active_ok (active s) (files s) (dfs s) \<and>
     index_ok (ix s) (logs s) \<and> counts_ok (ix s) (live s) (nLive s)"

lemma files_okD:
  assumes "files_ok fl ds d" and "map_of fl i = Some p"
  shows "p < length ds" "did (ds ! p) = i" "fopen (dfile (ds ! p))" "dpath (ds ! p) = dataPath i"
    "ino (dfile (ds ! p)) < length (inodes d)"
    "dsize (ds ! p) \<le> length (content (inodes d ! ino (dfile (ds ! p))))"
    "map_of (dir d) (dataPath i) = Some (ino (dfile (ds ! p)))"
  using assms by (auto simp: files_ok_def)

lemma files_ok_inj:
  "files_ok fl ds d \<Longrightarrow> map_of fl i = Some p \<Longrightarrow> map_of fl j = Some q \<Longrightarrow>
   ino (dfile (ds ! p)) = ino (dfile (ds ! q)) \<Longrightarrow> i = j"
  by (auto simp: files_ok_def)

text \<open>A change of the disk that keeps the directory and the known part of every file.\<close>

lemma files_ok_frame:
  assumes "files_ok fl ds d" and "dir d' = dir d" and "length (inodes d) \<le> length (inodes d')"
    and "\<And>i p. map_of fl i = Some p \<Longrightarrow>
      take (dsize (ds ! p)) (content (inodes d' ! ino (dfile (ds ! p)))) =
        take (dsize (ds ! p)) (content (inodes d ! ino (dfile (ds ! p)))) \<and>
      dsize (ds ! p) \<le> length (content (inodes d' ! ino (dfile (ds ! p))))"
  shows "files_ok fl ds d'" and "log_of fl ds d' = log_of fl ds d"
proof -
  have "ino (dfile (ds ! p)) < length (inodes d')" if "map_of fl i = Some p" for i p
    using files_okD(5) [OF assms(1) that] assms(3) by simp
  then show "files_ok fl ds d'"
    using assms unfolding files_ok_def by auto
  show "log_of fl ds d' = log_of fl ds d"
    using assms(4) by (auto simp: log_of_def split: option.splits)
qed

lemma files_ok_same_disk:
  assumes "files_ok fl ds d" and "same_disk d d'"
  shows "files_ok fl ds d'" and "log_of fl ds d' = log_of fl ds d"
  using files_ok_frame [OF assms(1), of d'] assms files_okD(6) [OF assms(1)] by (auto simp: same_disk_def)

lemma files_ok_sync:
  assumes "files_ok fl ds d" and "SyncFile f d = (r, d')"
  shows "files_ok fl ds d'" and "log_of fl ds d' = log_of fl ds d"
  using files_ok_frame [OF assms(1), of d'] SyncFile_only [OF assms(2)] SyncFile_content [OF assms(2)]
    files_okD(6) [OF assms(1)]
  by (auto simp: only_file_def)

text \<open>A new, empty file under a fresh name.\<close>

lemma createDataFile_Inr:
  assumes "createDataFile i d = (Inr df, d')"
  shows "df = \<lparr> did = i, dpath = dataPath i, dfile = \<lparr> ino = length (inodes d), fopen = True, fwr = True \<rparr>, dsize = 0 \<rparr>"
    and "map_of (dir d) (dataPath i) = None"
    and "dir d' = AList.update (dataPath i) (length (inodes d)) (dir d)"
    and "inodes d' = inodes d @ [new_inode]"
  using assms by (auto simp: createDataFile_def andThen_Inr openExcl_def split_beta split: option.splits if_splits)

lemma createDataFile_Inl: "createDataFile i d = (Inl er, d') \<Longrightarrow> same_disk d d' \<and> er = ErrIO"
  by (auto simp: createDataFile_def andThen_Inl openExcl_def same_disk_def split_beta split: option.splits if_splits)

lemma files_ok_create:
  assumes "files_ok fl ds d" and "createDataFile i d = (Inr df, d')"
  shows "files_ok (AList.update i (length ds) fl) (ds @ [df]) d'"
    and "log_of (AList.update i (length ds) fl) (ds @ [df]) d' = log_of fl ds d"
    and "map_of fl i = None"
proof -
  note c = createDataFile_Inr [OF assms(2)]
  show fresh: "map_of fl i = None"
    using files_okD(7) [OF assms(1), of i] c(2) by (cases "map_of fl i") auto
  have old: "p < length ds" "ino (dfile (ds ! p)) < length (inodes d)" "j \<noteq> i" if "map_of fl j = Some p" for j p
    using files_okD [OF assms(1) that] fresh that by auto
  show "files_ok (AList.update i (length ds) fl) (ds @ [df]) d'"
    unfolding files_ok_def
  proof (intro conjI allI impI)
    show "distinct (map fst (AList.update i (length ds) fl))"
      using assms(1) by (simp add: files_ok_def distinct_update)
  next
    fix j p assume j: "map_of (AList.update i (length ds) fl) j = Some p"
    let ?n = "(ds @ [df]) ! p"
    show "p < length (ds @ [df])" "did ?n = j" "dpath ?n = dataPath j" "fopen (dfile ?n)"
      "ino (dfile ?n) < length (inodes d')" "dsize ?n \<le> length (content (inodes d' ! ino (dfile ?n)))"
      "map_of (dir d') (dataPath j) = Some (ino (dfile ?n))"
      using j old [of j p] files_okD [OF assms(1), of j p] c
      by (auto simp: update_conv' nth_append new_inode_def split: if_splits)
  next
    fix j k p q
    assume "map_of (AList.update i (length ds) fl) j = Some p" "map_of (AList.update i (length ds) fl) k = Some q"
      "ino (dfile ((ds @ [df]) ! p)) = ino (dfile ((ds @ [df]) ! q))"
    then show "j = k"
      using old [of j p] old [of k q] files_ok_inj [OF assms(1), of j p k q] c
      by (auto simp: update_conv' nth_append split: if_splits)
  qed
  show "log_of (AList.update i (length ds) fl) (ds @ [df]) d' = log_of fl ds d"
  proof
    fix j
    show "log_of (AList.update i (length ds) fl) (ds @ [df]) d' j = log_of fl ds d j"
      using old [of j] fresh c
      by (auto simp: log_of_def update_conv' nth_append new_inode_def split: option.splits)
  qed
qed

text \<open>Appending at the end of the log of one file.\<close>

lemma files_ok_append:
  assumes "files_ok fl ds d" and "map_of fl i = Some p"
    and "WriteAt (dfile (ds ! p)) buf (dsize (ds ! p)) d = (Inr x, d')"
  shows "files_ok fl (ds[p := (ds ! p)\<lparr>dsize := dsize (ds ! p) + length buf\<rparr>]) d'"
    and "log_of fl (ds[p := (ds ! p)\<lparr>dsize := dsize (ds ! p) + length buf\<rparr>]) d' =
      (log_of fl ds d)(i := log_of fl ds d i @ buf)"
proof -
  let ?ds = "ds[p := (ds ! p)\<lparr>dsize := dsize (ds ! p) + length buf\<rparr>]"
  note ok = files_okD [OF assms(1)] and o = WriteAt_only [OF assms(3)]
  note w = WriteAt_written [OF assms(3) ok(5,6) [OF assms(2)]]
  have other: "j = i" if "map_of fl j = Some q" "ino (dfile (ds ! q)) = ino (dfile (ds ! p))" for j q
    using files_ok_inj [OF assms(1) that(1) assms(2) that(2)] .
  have ptr: "j = i" if "map_of fl j = Some p" for j using ok(2) [OF that] ok(2) [OF assms(2)] by simp
  have same: "dfile (?ds ! q) = dfile (ds ! q)" "did (?ds ! q) = did (ds ! q)" "dpath (?ds ! q) = dpath (ds ! q)" for q
    using ok(1) [OF assms(2)] by (auto simp: nth_list_update)
  have len: "dsize (?ds ! q) \<le> length (content (inodes d' ! ino (dfile (ds ! q))))" if "map_of fl j = Some q" for j q
  proof (cases "ino (dfile (ds ! q)) = ino (dfile (ds ! p))")
    case True
    then have "q = p" using other [OF that] that assms(2) by simp
    then show ?thesis using w(2) ok(1) [OF assms(2)] by simp
  next
    case False
    then have "q \<noteq> p" by blast
    with False show ?thesis using ok(6) [OF that] o by (simp add: only_file_def)
  qed
  show "files_ok fl ?ds d'"
    using assms(1) len o unfolding files_ok_def same by (auto simp: only_file_def)
  show "log_of fl ?ds d' = (log_of fl ds d)(i := log_of fl ds d i @ buf)"
  proof
    fix j
    show "log_of fl ?ds d' j = ((log_of fl ds d)(i := log_of fl ds d i @ buf)) j"
    proof (cases "j = i")
      case True
      then show ?thesis using w(1) assms(2) ok(1) [OF assms(2)] by (simp add: log_of_def same)
    next
      case False
      then have "q \<noteq> p" "ino (dfile (ds ! q)) \<noteq> ino (dfile (ds ! p))" if "map_of fl j = Some q" for q
        using that ptr other by blast+
      then show ?thesis using False o by (auto simp: log_of_def only_file_def split: option.splits)
    qed
  qed
qed

text \<open>A failed append, whether or not the truncation that follows works.\<close>

lemma files_ok_failed_append:
  assumes "files_ok fl ds d" and "map_of fl i = Some p"
    and "WriteAt (dfile (ds ! p)) buf (dsize (ds ! p)) d = (r, d')"
    and "Truncate (dfile (ds ! p)) (dsize (ds ! p)) d' = (r', d'')"
  shows "files_ok fl ds d''" and "log_of fl ds d'' = log_of fl ds d"
proof -
  note ok = files_okD [OF assms(1)]
  note o = WriteAt_only [OF assms(3)] Truncate_only [OF assms(4)]
  note w = WriteAt_prefix [OF assms(3) ok(5,6) [OF assms(2)]]
  have len: "ino (dfile (ds ! p)) < length (inodes d')" using ok(5) [OF assms(2)] o(1) by (simp add: only_file_def)
  note t = Truncate_prefix [OF assms(4) len w(2)]
  have keep: "take (dsize (ds ! q)) (content (inodes d'' ! ino (dfile (ds ! q)))) =
        take (dsize (ds ! q)) (content (inodes d ! ino (dfile (ds ! q)))) \<and>
      dsize (ds ! q) \<le> length (content (inodes d'' ! ino (dfile (ds ! q))))" if "map_of fl j = Some q" for j q
  proof (cases "ino (dfile (ds ! q)) = ino (dfile (ds ! p))")
    case True
    then have "q = p" using files_ok_inj [OF assms(1) that assms(2)] that assms(2) by simp
    with t w show ?thesis by simp
  next
    case False
    with o ok(6) [OF that] show ?thesis by (simp add: only_file_def)
  qed
  have d: "dir d'' = dir d" "length (inodes d) \<le> length (inodes d'')" using o by (simp_all add: only_file_def)
  show "files_ok fl ds d''" by (rule files_ok_frame(1) [OF assms(1) d]) (use keep in blast)
  show "log_of fl ds d'' = log_of fl ds d" by (rule files_ok_frame(2) [OF assms(1) d]) (use keep in blast)
qed

section \<open>Applying records to the index\<close>

lemma sum_dom_update:
  fixes f :: "'v option \<Rightarrow> int"
  assumes "finite (dom m)" and "f None = 0"
  shows "(\<Sum>j \<in> dom (m(k \<mapsto> e)). f ((m(k \<mapsto> e)) j)) = (\<Sum>j \<in> dom m. f (m j)) - f (m k) + f (Some e)"
proof -
  have "(\<Sum>j \<in> dom (m(k \<mapsto> e)). f ((m(k \<mapsto> e)) j)) = f (Some e) + (\<Sum>j \<in> dom m - {k}. f (m j))"
    using assms(1) by (simp add: sum.insert_remove)
  moreover have "(\<Sum>j \<in> dom m. f (m j)) = f (m k) + (\<Sum>j \<in> dom m - {k}. f (m j))"
  proof (cases "k \<in> dom m")
    case True
    then show ?thesis using assms(1) by (simp add: sum.remove)
  next
    case False
    then show ?thesis using assms(2) by (simp add: domIff)
  qed
  ultimately show ?thesis by simp
qed

lemma finite_lookup: "index_inv x \<Longrightarrow> finite (dom (idx_lookup x))"
  by (simp add: ix.dom_lookup)

lemma counts_ok_put:
  assumes "counts_ok x lv n" and "index_inv x" and "idx_lookup y = (idx_lookup x)(k \<mapsto> e)"
  shows "counts_ok y (lv - live_size (idx_lookup x k) + live_size (Some e))
    (n - live_one (idx_lookup x k) + live_one (Some e))"
  using assms(1) sum_dom_update [OF finite_lookup [OF assms(2)], of live_size k e]
    sum_dom_update [OF finite_lookup [OF assms(2)], of live_one k e]
  by (simp add: counts_ok_def assms(3)) (simp add: live_size_def live_one_def)

lemma index_ok_lookup:
  assumes "index_ok x L" and "idx_lookup x k = Some e"
  obtains r where "stored L e r" "key r = k" "rec_of L e = r"
  using assms rec_of_stored by (fastforce simp: index_ok_def)

lemma stored_payload: "stored L e r \<Longrightarrow> fst (payload r) = eseq e"
  by (simp add: stored_def payload_def)

lemma view_of_put:
  assumes "idx_lookup y = (idx_lookup x)(k \<mapsto> e)" and "stored L e r"
  shows "view_of y L = (view_of x L)(k \<mapsto> payload r)"
  using assms by (auto simp: view_of_def rec_of_stored)

lemma store_upd_same: "s\<lparr>ix := ix s, live := live s, nLive := nLive s\<rparr> = (s :: store)"
  by (cases s) simp

lemma indexApplyLocked_ok:
  assumes "index_ok (ix s) L" and "counts_ok (ix s) (live s) (nLive s)"
    and "stored L (e\<lparr>tomb := tmb\<rparr>) r" and "key r = k"
  shows "\<exists>x lv n. indexApplyLocked k e tmb s = Some (s\<lparr>ix := x, live := lv, nLive := n\<rparr>) \<and>
    index_ok x L \<and> counts_ok x lv n \<and> view_of x L = newest fst (view_of (ix s) L) (k, payload r)"
proof -
  let ?e = "e\<lparr>tomb := tmb\<rparr>"
  have inv: "index_inv (ix s)" using assms(1) by (simp add: index_ok_def)
  obtain y where y: "idx_put k ?e (ix s) = Some y" "index_inv y" "idx_lookup y = (idx_lookup (ix s))(k \<mapsto> ?e)"
    using ix.put_ok [OF inv] by blast
  have ok: "index_ok y L" using assms(1,3,4) y(2,3) by (auto simp: index_ok_def)
  note c = counts_ok_put [OF assms(2) inv y(3)]
  note v = view_of_put [OF y(3) assms(3)]
  have seq: "fst (payload r) = eseq e" using stored_payload [OF assms(3)] by simp
  show ?thesis
  proof (cases "idx_lookup (ix s) k")
    case None
    then have "newest fst (view_of (ix s) L) (k, payload r) = view_of y L"
      by (simp add: newest_def v) (simp add: view_of_def)
    with None y(1) ok c show ?thesis
      by (intro exI [of _ y] exI [of _ "if tmb then live s else live s + int (unat (esize e))"]
          exI [of _ "if tmb then nLive s else nLive s + 1"])
         (auto simp: indexApplyLocked_def Let_def live_size_def live_one_def)
  next
    case (Some old)
    obtain r' where r': "stored L old r'" "rec_of L old = r'" by (rule index_ok_lookup [OF assms(1) Some])
    have vk: "view_of (ix s) L k = Some (payload r')" by (simp add: view_of_def Some r'(2))
    show ?thesis
    proof (cases "eseq e \<le> eseq old")
      case True
      then have "newest fst (view_of (ix s) L) (k, payload r) = view_of (ix s) L"
        by (simp add: newest_def vk stored_payload [OF r'(1)] seq)
      with Some True assms(1,2) show ?thesis
        by (intro exI [of _ "ix s"] exI [of _ "live s"] exI [of _ "nLive s"])
           (auto simp: indexApplyLocked_def Let_def)
    next
      case False
      then have "newest fst (view_of (ix s) L) (k, payload r) = view_of y L"
        by (simp add: newest_def vk stored_payload [OF r'(1)] seq v)
      with Some False y(1) ok c show ?thesis
        by (intro exI [of _ y] exI [of _ "live s - live_size (Some old) + live_size (Some ?e)"]
            exI [of _ "nLive s - live_one (Some old) + live_one (Some ?e)"])
           (auto simp: indexApplyLocked_def Let_def live_size_def live_one_def)
    qed
  qed
qed

text \<open>The offsets the encoding loop records.\<close>

fun offsets :: "nat \<Rightarrow> krecord list \<Rightarrow> u32 list" where
  "offsets n [] = []"
| "offsets n (r # rs) = of_nat n # offsets (n + rec_size r) rs"

lemma encode_batch_loop:
  "foldl (\<lambda>(buf, offs) r. (appendRecord buf r, offs @ [of_nat (length buf)])) (b, os) rs =
   (b @ encode_all rs, os @ offsets (length b) rs)"
  by (induction rs arbitrary: b os) (simp_all add: appendRecord_encode)

lemma encode_batch_eq: "encode_batch rs = (encode_all rs, offsets 0 rs)"
  by (simp add: encode_batch_def encode_batch_loop)

definition rec_view :: "krecord \<Rightarrow> bytes \<times> u64 \<times> bytes option" where
  "rec_view r = (key r, payload r)"

lemma index_recs_ok:
  assumes "L i = pre @ encode_all rs" and "length pre = base + n" and "n + length (encode_all rs) < 2 ^ 32"
    and "list_all wf_rec rs" and "index_ok (ix s) L" and "counts_ok (ix s) (live s) (nLive s)"
  shows "\<exists>x lv m. index_recs base i (zip (offsets n rs) rs) s = Some (s\<lparr>ix := x, live := lv, nLive := m\<rparr>) \<and>
    index_ok x L \<and> counts_ok x lv m \<and>
    view_of x L = foldl (newest fst) (view_of (ix s) L) (map rec_view rs)"
  using assms
proof (induction rs arbitrary: pre n s)
  case Nil
  have "index_recs base i (zip (offsets n []) []) s = Some (s\<lparr>ix := ix s, live := live s, nLive := nLive s\<rparr>)"
    unfolding store_upd_same by simp
  then show ?case using Nil.prems(5,6) by (metis foldl_Nil list.map(1))
next
  case (Cons r rs)
  let ?e = "\<lparr> pos = base + unat (of_nat n :: u32), eseq = rseq r, fileID = i,
    esize = encodedSize (length (key r)) (length (val r)), tomb = False \<rparr>"
  have n: "unat (of_nat n :: u32) = n" using Cons.prems(3) by simp
  have "bslice (base + n) (base + n + rec_size r) (L i) = encode r"
    using Cons.prems(1,2) by (simp add: bslice_mid)
  then have st: "stored L (?e\<lparr>tomb := tombstone r\<rparr>) r"
    using Cons.prems(1,2,4) by (simp add: stored_def n)
  obtain x lv m where 1: "indexApplyLocked (key r) ?e (tombstone r) s = Some (s\<lparr>ix := x, live := lv, nLive := m\<rparr>)"
      "index_ok x L" "counts_ok x lv m" "view_of x L = newest fst (view_of (ix s) L) (key r, payload r)"
    using indexApplyLocked_ok [OF Cons.prems(5,6) st refl] by blast
  let ?s = "s\<lparr>ix := x, live := lv, nLive := m\<rparr>"
  have pre: "L i = (pre @ encode r) @ encode_all rs" "length (pre @ encode r) = base + (n + rec_size r)"
      "n + rec_size r + length (encode_all rs) < 2 ^ 32" "list_all wf_rec rs"
    using Cons.prems(1-4) by simp_all
  have "index_ok (ix ?s) L" "counts_ok (ix ?s) (live ?s) (nLive ?s)" using 1(2,3) by simp_all
  from Cons.IH [OF pre this] obtain x' lv' m' where
    2: "index_recs base i (zip (offsets (n + rec_size r) rs) rs) ?s = Some (?s\<lparr>ix := x', live := lv', nLive := m'\<rparr>)"
      "index_ok x' L" "counts_ok x' lv' m'" "view_of x' L = foldl (newest fst) (view_of (ix ?s) L) (map rec_view rs)"
    by blast
  have "index_recs base i (zip (offsets n (r # rs)) (r # rs)) s = Some (s\<lparr>ix := x', live := lv', nLive := m'\<rparr>)"
    using 1(1) 2(1) by simp
  moreover have "view_of x' L = foldl (newest fst) (view_of (ix s) L) (map rec_view (r # rs))"
    using 1(4) 2(4) by (simp add: rec_view_def [of r])
  ultimately show ?case using 2(2,3) by blast
qed

section \<open>The write path keeps the invariant\<close>

lemma on_disk_eq: "on_disk f s = (r, s') \<longleftrightarrow> (\<exists>d. f (disk s) = (r, d) \<and> s' = s\<lparr>disk := d\<rparr>)"
  by (auto simp: on_disk_def split: prod.splits)

text \<open>Steps that change files but neither the logs nor the index.\<close>

definition quiet :: "store \<Rightarrow> store \<Rightarrow> bool" where
  "quiet s s' \<longleftrightarrow> ix s' = ix s \<and> logs s' = logs s \<and> live s' = live s \<and> nLive s' = nLive s \<and>
     seq s' = seq s \<and> closed s' = closed s \<and> syncMode s' = syncMode s \<and>
     obs s' = obs s \<and> outbox s' = outbox s"

lemma quiet_refl [simp]: "quiet s s"
  by (simp add: quiet_def)

lemma quiet_trans: "quiet s t \<Longrightarrow> quiet t u \<Longrightarrow> quiet s u"
  by (simp add: quiet_def)

lemma syncDir_frame: "syncDir d = (r, d') \<Longrightarrow> dir d' = dir d \<and> inodes d' = inodes d \<and> r \<noteq> Inl Panic"
  by (auto simp: syncDir_def split_beta split: option.splits)

lemma files_ok_dir:
  "files_ok fl ds d \<Longrightarrow> dir d' = dir d \<and> inodes d' = inodes d \<Longrightarrow> files_ok fl ds d' \<and> log_of fl ds d' = log_of fl ds d"
  by (auto simp: files_ok_def log_of_def split: option.splits)

lemma SyncFile_not_Panic: "SyncFile f d = (Inl er, d') \<Longrightarrow> er = ErrIO"
  and WriteAt_not_Panic: "WriteAt f bs off d = (Inl er, d'') \<Longrightarrow> er = ErrIO"
  by (auto simp: SyncFile_def WriteAt_def split: if_splits prod.splits option.splits)

lemma openNewActive_ok:
  assumes "store_inv s" and "openNewActive s = (r, s')"
  shows "store_inv s' \<and> quiet s s' \<and> r \<noteq> Inl Panic"
proof (cases "createDataFile (nextID s) (disk s)")
  case (Pair r1 d1)
  have fo: "files_ok (files s) (dfs s) (disk s)" using assms(1) by (simp add: store_inv_def)
  show ?thesis
  proof (cases r1)
    case (Inl er)
    then have "same_disk (disk s) d1" "er = ErrIO" using createDataFile_Inl Pair by blast+
    moreover have "r = Inl er" "s' = s\<lparr>disk := d1\<rparr>"
      using assms(2) Pair Inl by (auto simp: openNewActive_def on_disk_def)
    ultimately show ?thesis
      using assms(1) files_ok_same_disk [OF fo] by (auto simp: store_inv_def quiet_def)
  next
    case (Inr df)
    note c = files_ok_create [OF fo, of "nextID s" df d1] createDataFile_Inr [of "nextID s" "disk s" df d1]
    obtain d2 where d2: "syncDir d1 = (r, d2)"
      and s': "s' = s\<lparr>disk := d2, nextID := nextID s + 1, dfs := dfs s @ [df],
        files := AList.update (nextID s) (length (dfs s)) (files s), active := Some (length (dfs s))\<rparr>"
      using assms(2) Pair Inr c(4) by (auto simp: openNewActive_def on_disk_def Let_def split: prod.splits)
    have "files_ok (files s') (dfs s') d2 \<and> log_of (files s') (dfs s') d2 = logs s"
      using files_ok_dir [of "files s'" "dfs s'" d1 d2] syncDir_frame [OF d2] c(1,2) Pair Inr s' by simp
    moreover have "active_ok (active s') (files s') (dfs s')"
      using c(4) Pair Inr s' by (simp add: active_ok_def update_conv')
    ultimately show ?thesis
      using assms(1) syncDir_frame [OF d2] s' by (auto simp: store_inv_def quiet_def)
  qed
qed

lemma store_inv_sync:
  assumes "store_inv s" and "SyncFile f (disk s) = (r, d)"
  shows "store_inv (s\<lparr>disk := d\<rparr>)" and "quiet s (s\<lparr>disk := d\<rparr>)"
  using assms files_ok_sync [of "files s" "dfs s" "disk s"] by (auto simp: store_inv_def quiet_def)

lemma maybeRotateLocked_ok:
  assumes "store_inv s" and "maybeRotateLocked n s = (r, s')"
  shows "store_inv s' \<and> quiet s s' \<and> r \<noteq> Inl Panic"
proof -
  obtain p where p: "active s = Some p" using assms(1) by (auto simp: store_inv_def active_ok_def)
  let ?cur = "dsize (dfs s ! p)"
  show ?thesis
  proof (cases "?cur = 0 \<or> ?cur + n \<le> maxFileSize s")
    case True
    then show ?thesis using assms p by (auto simp: maybeRotateLocked_def)
  next
    case False
    obtain r1 d1 where 1: "SyncFile (dfile (dfs s ! p)) (disk s) = (r1, d1)" by fastforce
    note i1 = store_inv_sync [OF assms(1) 1]
    obtain r2 s2 where 2: "openNewActive (s\<lparr>disk := d1\<rparr>) = (r2, s2)" by fastforce
    have i2: "store_inv s2 \<and> quiet s s2 \<and> r2 \<noteq> Inl Panic"
      using openNewActive_ok [OF i1(1) 2] quiet_trans [OF i1(2)] by blast
    show ?thesis
    proof (cases r1)
      case (Inl er)
      then show ?thesis
        using assms(2) p False i1 1 SyncFile_not_Panic by (auto simp: maybeRotateLocked_def on_disk_def Let_def)
    next
      case (Inr u)
      then have *: "(r, s') = andThen (r2, s2) (\<lambda>_ s. (Inr (), s\<lparr>dirty := False, hintJobs := hintJobs s @ [did (dfs s ! p)]\<rparr>))"
        using assms(2) p False 1 2 by (auto simp: maybeRotateLocked_def on_disk_def Let_def)
      show ?thesis using * i2 by (cases r2) (auto simp: store_inv_def quiet_def)
    qed
  qed
qed

lemma view_of_ext:
  assumes "index_ok x L" and "log_ext L L'"
  shows "index_ok x L'" and "view_of x L' = view_of x L"
proof -
  show "index_ok x L'" using assms stored_ext by (fastforce simp: index_ok_def)
  show "view_of x L' = view_of x L"
  proof
    fix k
    show "view_of x L' k = view_of x L k"
    proof (cases "idx_lookup x k")
      case (Some e)
      then obtain r where r: "stored L e r" by (rule index_ok_lookup [OF assms(1)])
      then show ?thesis
        using rec_of_stored [OF r] rec_of_stored [OF stored_ext [OF r assms(2)]] by (simp add: view_of_def Some)
    qed (simp add: view_of_def)
  qed
qed

text \<open>The part of \<open>writeLocked\<close> after a possible rotation.\<close>

definition write_active :: "krecord list \<Rightarrow> store \<Rightarrow> (store, unit) res" where
  "write_active recs s =
     (case active s of
        None \<Rightarrow> (Inl Panic, s)
      | Some p \<Rightarrow>
          let af = dfs s ! p; base = dsize af; buf = encode_all recs in
          (case WriteAt (dfile af) buf base (disk s) of
             (Inl er, d) \<Rightarrow> (Inl er, s\<lparr>disk := ignore (Truncate (dfile af) base d)\<rparr>)
           | (Inr _, d) \<Rightarrow>
               let s = s\<lparr>disk := d, dfs := (dfs s)[p := af\<lparr>dsize := base + length buf\<rparr>],
                         total := total s + int (length buf), dirty := True\<rparr>
               in
               andThen
                 (if syncMode s = SyncAlways
                  then andThen (on_disk (SyncFile (dfile af)) s) (\<lambda>_ s. (Inr (), s\<lparr>dirty := False\<rparr>))
                  else (Inr (), s))
                 (\<lambda>_ s.
                   (case index_recs base (did af) (zip (offsets 0 recs) recs) s of
                      None \<Rightarrow> (Inl Panic, s)
                    | Some s \<Rightarrow>
                        if recs = [] then (Inl Panic, s)
                        else (Inr (), notify (rseq (last recs)) buf s)))))"

lemma writeLocked_split:
  "writeLocked recs s = andThen (maybeRotateLocked (length (encode_all recs)) s) (\<lambda>_ s. write_active recs s)"
  unfolding writeLocked_def encode_batch_eq write_active_def Let_def prod.case ..

text \<open>The outcome of a write: on success every record has been offered to the index.\<close>

definition wrote :: "krecord list \<Rightarrow> (store, unit) res \<Rightarrow> store \<Rightarrow> bool" where
  "wrote recs res s \<longleftrightarrow> (case res of (r, s') \<Rightarrow>
     store_inv s' \<and> seq s' = seq s \<and> closed s' = closed s \<and> syncMode s' = syncMode s \<and> obs s' = obs s \<and>
     (case r of
        Inl er \<Rightarrow> er \<noteq> Panic \<and> view s' = view s \<and> outbox s' = outbox s
      | Inr _ \<Rightarrow> view s' = foldl (newest fst) (view s) (map rec_view recs) \<and>
          outbox s' = outbox s @ map (\<lambda>i. (i, rseq (last recs), encode_all recs)) (obs s)))"

lemma wrote_indexed:
  assumes inv: "files_ok (files s) (dfs s) (disk s)" "active_ok (active s) (files s) (dfs s)"
      "index_ok (ix s) (logs s)" "counts_ok (ix s) (live s) (nLive s)"
    and rs: "recs \<noteq> []" "list_all wf_rec recs" "length (encode_all recs) < 2 ^ 32"
    and log: "logs s i = pre @ encode_all recs" "length pre = base"
  shows "\<exists>s'. index_recs base i (zip (offsets 0 recs) recs) s = Some s' \<and>
    wrote recs (Inr (), notify (rseq (last recs)) (encode_all recs) s') s"
proof -
  have "length pre = base + 0" "0 + length (encode_all recs) < 2 ^ 32" using log(2) rs(3) by simp_all
  from index_recs_ok [OF log(1) this rs(2) inv(3,4)] obtain x lv m where
    x: "index_recs base i (zip (offsets 0 recs) recs) s = Some (s\<lparr>ix := x, live := lv, nLive := m\<rparr>)"
      "index_ok x (logs s)" "counts_ok x lv m"
      "view_of x (logs s) = foldl (newest fst) (view s) (map rec_view recs)" by blast
  have "wrote recs (Inr (), notify (rseq (last recs)) (encode_all recs) (s\<lparr>ix := x, live := lv, nLive := m\<rparr>)) s"
    using inv x(2-4) by (simp add: wrote_def store_inv_def notify_def)
  with x(1) show ?thesis by blast
qed

text \<open>What \<open>wrote\<close> looks at in the state before the write.\<close>

definition alike :: "store \<Rightarrow> store \<Rightarrow> bool" where
  "alike s t \<longleftrightarrow> view t = view s \<and> seq t = seq s \<and> closed t = closed s \<and> syncMode t = syncMode s \<and>
     obs t = obs s \<and> outbox t = outbox s"

lemma wrote_alike: "wrote recs res t \<Longrightarrow> alike s t \<Longrightarrow> wrote recs res s"
  by (auto simp: wrote_def alike_def split: prod.splits sum.splits)

lemma wrote_Inl: "store_inv t \<Longrightarrow> alike s t \<Longrightarrow> er \<noteq> Panic \<Longrightarrow> wrote recs (Inl er, t) s"
  by (simp add: wrote_def alike_def)

lemma quiet_alike: "quiet s t \<Longrightarrow> alike s t"
  by (simp add: quiet_def alike_def)

lemma alike_trans: "alike s t \<Longrightarrow> alike t u \<Longrightarrow> alike s u"
  by (simp add: alike_def)

lemma write_active_ok:
  assumes inv: "store_inv s" and rs: "recs \<noteq> []" "list_all wf_rec recs" "length (encode_all recs) < 2 ^ 32"
  shows "wrote recs (write_active recs s) s"
proof -
  obtain p where p: "active s = Some p" "p < length (dfs s)"
      "\<not> fopen (dfile (dfs s ! p)) \<or> map_of (files s) (did (dfs s ! p)) = Some p \<and> fwr (dfile (dfs s ! p))"
    using inv by (auto simp: store_inv_def active_ok_def)
  let ?af = "dfs s ! p" and ?buf = "encode_all recs"
  have fo: "files_ok (files s) (dfs s) (disk s)" and ixo: "index_ok (ix s) (logs s)"
    and co: "counts_ok (ix s) (live s) (nLive s)"
    using inv by (simp_all add: store_inv_def)
  obtain r1 d1 where 1: "WriteAt (dfile ?af) ?buf (dsize ?af) (disk s) = (r1, d1)" by fastforce
  show ?thesis
  proof (cases "fopen (dfile ?af)")
    case False
    then have "WriteAt (dfile ?af) ?buf (dsize ?af) (disk s) = (Inl ErrIO, disk s)"
        "ignore (Truncate (dfile ?af) (dsize ?af) (disk s)) = disk s"
      by (simp_all add: WriteAt_def Truncate_def ignore_def)
    then show ?thesis using inv p(1) by (simp add: write_active_def wrote_def Let_def)
  next
    case True
    then have mp: "map_of (files s) (did ?af) = Some p" using p(3) by blast
    show ?thesis
    proof (cases r1)
      case (Inl er)
      obtain r2 d2 where 2: "Truncate (dfile ?af) (dsize ?af) d1 = (r2, d2)" by fastforce
      note f = files_ok_failed_append [OF fo mp 1 2]
      show ?thesis
        using inv p(1) 1 2 Inl f WriteAt_not_Panic [OF 1 [unfolded Inl]]
        by (auto simp: write_active_def wrote_def Let_def ignore_def store_inv_def)
    next
      case (Inr u)
      let ?s1 = "s\<lparr>disk := d1, dfs := (dfs s)[p := ?af\<lparr>dsize := dsize ?af + length ?buf\<rparr>],
        total := total s + int (length ?buf), dirty := True\<rparr>"
      note f = files_ok_append [OF fo mp 1 [unfolded Inr]]
      have l1: "logs ?s1 = (logs s)(did ?af := logs s (did ?af) @ ?buf)" using f(2) by simp
      have ext: "log_ext (logs s) (logs ?s1)" unfolding l1 by (rule log_ext_append)
      have inv1: "store_inv ?s1" and v1: "view ?s1 = view s"
        using f(1) view_of_ext [OF ixo ext] co p mp
        by (auto simp: store_inv_def active_ok_def nth_list_update)
      have log1: "logs ?s1 (did ?af) = logs s (did ?af) @ ?buf" using l1 by simp
      have len: "length (logs s (did ?af)) = dsize ?af"
        using files_okD(6) [OF fo mp] by (simp add: log_of_def mp)
      have a1: "alike s ?s1" using v1 by (simp add: alike_def)
      let ?fin = "\<lambda>t. case index_recs (dsize ?af) (did ?af) (zip (offsets 0 recs) recs) t of
          None \<Rightarrow> (Inl Panic, t)
        | Some t \<Rightarrow> if recs = [] then (Inl Panic, t) else (Inr (), notify (rseq (last recs)) ?buf t)"
      have fin: "wrote recs (?fin t) s" if t: "store_inv t" "quiet ?s1 t" for t
      proof -
        have "logs t (did ?af) = logs s (did ?af) @ ?buf" using t(2) log1 by (simp add: quiet_def)
        from wrote_indexed [OF _ _ _ _ rs this len] t(1) obtain t' where
          "index_recs (dsize ?af) (did ?af) (zip (offsets 0 recs) recs) t = Some t'"
          "wrote recs (Inr (), notify (rseq (last recs)) ?buf t') t"
          by (auto simp: store_inv_def)
        then show ?thesis
          using rs(1) wrote_alike [OF _ alike_trans [OF a1 quiet_alike [OF t(2)]]] by simp
      qed
      show ?thesis
      proof (cases "syncMode s = SyncAlways")
        case False
        then have "write_active recs s = ?fin ?s1"
          using p(1) 1 Inr by (simp add: write_active_def Let_def)
        with fin [OF inv1 quiet_refl] show ?thesis by simp
      next
        case sync: True
        obtain r2 d2 where 2: "SyncFile (dfile ?af) (disk ?s1) = (r2, d2)" by fastforce
        note i2 = store_inv_sync [OF inv1 2]
        show ?thesis
        proof (cases r2)
          case (Inl er)
          then have "write_active recs s = (Inl er, ?s1\<lparr>disk := d2\<rparr>)"
            using p(1) 1 \<open>r1 = Inr u\<close> sync 2 by (simp add: write_active_def Let_def on_disk_def)
          then show ?thesis
            using wrote_Inl [OF i2(1) alike_trans [OF a1 quiet_alike [OF i2(2)]]] SyncFile_not_Panic [OF 2 [unfolded Inl]]
            by simp
        next
          case (Inr u')
          then have w: "write_active recs s = ?fin (?s1\<lparr>disk := d2, dirty := False\<rparr>)"
            using p(1) 1 \<open>r1 = Inr u\<close> sync 2 by (simp add: write_active_def Let_def on_disk_def split: option.split)
          have "store_inv (?s1\<lparr>disk := d2, dirty := False\<rparr>)" "quiet ?s1 (?s1\<lparr>disk := d2, dirty := False\<rparr>)"
            using i2 by (simp_all add: store_inv_def quiet_def)
          from fin [OF this] show ?thesis unfolding w .
        qed
      qed
    qed
  qed
qed

lemma writeLocked_ok:
  assumes "store_inv s" and "recs \<noteq> []" "list_all wf_rec recs" "length (encode_all recs) < 2 ^ 32"
  shows "wrote recs (writeLocked recs s) s"
proof (cases "maybeRotateLocked (length (encode_all recs)) s")
  case (Pair r t)
  note t = maybeRotateLocked_ok [OF assms(1) Pair]
  show ?thesis
  proof (cases r)
    case (Inl er)
    then show ?thesis
      using t Pair wrote_Inl [of t s er recs] quiet_alike by (auto simp: writeLocked_split)
  next
    case (Inr u)
    then show ?thesis
      using Pair wrote_alike [OF write_active_ok [of t] quiet_alike] t assms(2-4) by (simp add: writeLocked_split)
  qed
qed

end
