(* ===== verification/Store_Map.thy ===== *)
theory Store_Map
  imports Store
begin

text \<open>
  The store as a map: what \<open>Put\<close>, \<open>BatchPut\<close>, \<open>Delete\<close> and \<open>Get\<close> do to the map from live keys to
  values (\<open>contents\<close>), for every pattern of I/O errors, together with the invariant they keep.
\<close>


section \<open>Sequence numbers\<close>

text \<open>No version in the index is above the store's sequence number.\<close>

definition seq_ok :: "store \<Rightarrow> bool" where
  "seq_ok s \<longleftrightarrow> (\<forall>k v. view s k = Some v \<longrightarrow> fst v \<le> seq s)"

definition store_ok :: "store \<Rightarrow> bool" where
  "store_ok s \<longleftrightarrow> store_inv s \<and> seq_ok s"

lemma newest_fresh:
  "(\<And>w. m k = Some w \<Longrightarrow> ver w < ver v) \<Longrightarrow> newest ver m (k, v) = m(k \<mapsto> v)"
  by (force simp: newest_def split: option.splits)

lemma assign_seqs_last: "assign_seqs n rs = (rs', m) \<Longrightarrow> m = n + of_nat (length rs)"
proof (induction rs arbitrary: n rs')
  case (Cons r rs)
  then obtain rs1 where "assign_seqs (n + 1) rs = (rs1, m)" by (auto split: prod.splits)
  from Cons.IH [OF this] show ?case by (simp add: add.assoc)
qed simp

lemma wf_rec_seq [simp]: "wf_rec (r\<lparr>rseq := n\<rparr>) = wf_rec r"
  by (simp add: wf_rec_def)

lemma rec_size_seq [simp]: "rec_size (r\<lparr>rseq := n\<rparr>) = rec_size r"
  by (simp add: rec_size_def)

lemma assign_seqs_wf:
  "assign_seqs n rs = (rs', m) \<Longrightarrow>
   list_all wf_rec rs' = list_all wf_rec rs \<and> length (encode_all rs') = length (encode_all rs) \<and> (rs' = [] \<longleftrightarrow> rs = [])"
  by (induction rs arbitrary: n rs') (auto split: prod.splits)

text \<open>The value part of a record, whatever its number.\<close>

definition upd :: "(bytes \<Rightarrow> bytes option) \<Rightarrow> krecord \<Rightarrow> (bytes \<Rightarrow> bytes option)" where
  "upd c r = c(key r := if tombstone r then None else Some (val r))"

lemma contents_of_update: "contents_of (m(k \<mapsto> (n, x))) = (contents_of m)(k := x)"
  by (auto simp: contents_of_def split: option.splits)

lemma foldl_numbered:
  assumes "assign_seqs n rs = (rs', m)" and "unat n + length rs < 2 ^ 64"
    and "\<forall>k v. M k = Some v \<longrightarrow> fst v \<le> n"
  shows "contents_of (foldl (newest fst) M (map rec_view rs')) = foldl upd (contents_of M) rs \<and>
    (\<forall>k v. foldl (newest fst) M (map rec_view rs') k = Some v \<longrightarrow> fst v \<le> m)"
  using assms
proof (induction rs arbitrary: n rs' M)
  case (Cons r rs)
  obtain rs1 where 1: "assign_seqs (n + 1) rs = (rs1, m)" and rs': "rs' = r\<lparr>rseq := n + 1\<rparr> # rs1"
    using Cons.prems(1) by (auto split: prod.splits)
  have n1: "unat (n + 1) = unat n + 1" using Cons.prems(2) by (simp add: unat_word_ariths)
  then have less: "n < n + 1" by (simp add: word_less_nat_alt)
  let ?r = "r\<lparr>rseq := n + 1\<rparr>"
  have pl: "payload ?r = (n + 1, if tombstone r then None else Some (val r))"
    by (simp add: payload_def tombstone_def)
  have "fst w < fst (payload ?r)" if "M (key r) = Some w" for w
    using Cons.prems(3) that less unfolding pl fst_conv by (meson le_less_trans)
  then have new: "newest fst M (rec_view ?r) = M(key r \<mapsto> payload ?r)"
    by (simp add: rec_view_def newest_fresh)
  have bound: "\<forall>k v. (M(key r \<mapsto> payload ?r)) k = Some v \<longrightarrow> fst v \<le> n + 1"
  proof (intro allI impI)
    fix k v assume "(M(key r \<mapsto> payload ?r)) k = Some v"
    then show "fst v \<le> n + 1"
    proof (cases "k = key r")
      case True
      then show ?thesis using \<open>(M(key r \<mapsto> payload ?r)) k = Some v\<close> pl by auto
    next
      case False
      then have "fst v \<le> n" using Cons.prems(3) \<open>(M(key r \<mapsto> payload ?r)) k = Some v\<close> by (cases v) auto
      with less show ?thesis by (meson less_imp_le order.trans)
    qed
  qed
  have len: "unat (n + 1) + length rs < 2 ^ 64" using Cons.prems(2) n1 by simp
  have c: "contents_of (M(key r \<mapsto> payload ?r)) = upd (contents_of M) r"
    by (simp add: pl contents_of_update upd_def)
  show ?case
    using Cons.IH [OF 1 len bound] unfolding rs' list.map foldl_Cons new c .
qed simp

section \<open>Errors of a write\<close>

text \<open>A write fails with an I/O error only (the case of a panic is excluded by the invariant).\<close>

lemma syncDir_error: "syncDir d = (Inl er, d') \<Longrightarrow> er = ErrIO"
  by (auto simp: syncDir_def split: option.splits prod.splits if_splits elim!: andThen.elims)

lemma on_disk_Inl: "on_disk f s = (Inl er, s') \<Longrightarrow> \<exists>d. f (disk s) = (Inl er, d)"
  by (auto simp: on_disk_def split: prod.splits)

lemma SyncFile_error: "SyncFile f d = (Inl er, d') \<Longrightarrow> er = ErrIO"
  by (auto simp: SyncFile_def Let_def split: option.splits prod.splits if_splits)

lemma createDataFile_error: "createDataFile i d = (Inl er, d') \<Longrightarrow> er = ErrIO"
  by (auto simp: createDataFile_def openExcl_def andThen_Inl split: option.splits prod.splits if_splits)

lemma openNewActive_error: "openNewActive s = (Inl er, s') \<Longrightarrow> er = ErrIO"
  by (auto simp: openNewActive_def andThen_Inl Let_def dest!: on_disk_Inl createDataFile_error syncDir_error)

lemma maybeRotateLocked_error: "maybeRotateLocked n s = (Inl er, s') \<Longrightarrow> er = ErrIO \<or> er = Panic"
  by (auto simp: maybeRotateLocked_def andThen_Inl Let_def split: option.splits if_splits
      dest!: on_disk_Inl SyncFile_error openNewActive_error)

lemma write_active_error: "write_active recs s = (Inl er, s') \<Longrightarrow> er = ErrIO \<or> er = Panic"
  by (auto simp: write_active_def andThen_Inl Let_def WriteAt_def split: option.splits if_splits prod.splits sum.splits
      dest!: on_disk_Inl SyncFile_error)

lemma writeLocked_error: "writeLocked recs s = (Inl er, s') \<Longrightarrow> er = ErrIO \<or> er = Panic"
  unfolding writeLocked_split andThen_Inl using maybeRotateLocked_error write_active_error by blast

section \<open>The write operations on the abstract map\<close>

lemma appendLocked_ok:
  assumes "store_ok s" and "recs \<noteq> []" "list_all wf_rec recs" "length (encode_all recs) < 2 ^ 32"
    and "unat (seq s) + length recs < 2 ^ 64"
  shows "case appendLocked recs s of
      (Inr _, s') \<Rightarrow> store_ok s' \<and> contents s' = foldl upd (contents s) recs \<and> seq s' = seq s + of_nat (length recs)
    | (Inl er, s') \<Rightarrow> store_ok s' \<and> contents s' = contents s \<and> er \<noteq> Panic"
proof -
  obtain recs' n where a: "assign_seqs (seq s) recs = (recs', n)" by fastforce
  let ?s = "s\<lparr>seq := n\<rparr>"
  obtain r s' where w: "writeLocked recs' ?s = (r, s')" by fastforce
  have inv: "store_inv ?s" using assms(1) by (simp add: store_ok_def store_inv_def)
  have "wrote recs' (r, s') ?s"
    using writeLocked_ok [OF inv, of recs'] assign_seqs_wf [OF a] assms(2-4) by (simp add: w)
  note wr = this [unfolded wrote_def prod.case]
  have sq: "\<forall>k v. view s k = Some v \<longrightarrow> fst v \<le> seq s" using assms(1) by (simp add: store_ok_def seq_ok_def)
  note f = foldl_numbered [OF a assms(5) sq]
  have "seq s \<le> n"
  proof -
    have "unat n = unat (seq s) + length recs"
      using assms(5) by (simp add: assign_seqs_last [OF a] unat_word_ariths unat_of_nat)
    then show ?thesis by (simp add: word_le_nat_alt)
  qed
  then have sq': "seq_ok s'"
    using wr f sq by (auto simp: seq_ok_def split: sum.splits intro: order_trans)
  show ?thesis
    using wr f sq' a w assign_seqs_last [OF a]
    by (auto simp: appendLocked_def store_ok_def split: sum.splits)
qed

text \<open>Fields the operations count in do not matter to the abstract state.\<close>

lemma store_ok_counters [simp]:
  "store_ok (s\<lparr>nPut := a\<rparr>) = store_ok s" "store_ok (s\<lparr>nGet := b\<rparr>) = store_ok s"
  "store_ok (s\<lparr>nDel := c\<rparr>) = store_ok s" "store_ok (s\<lparr>nMiss := e\<rparr>) = store_ok s" "store_ok (s\<lparr>nScan := g\<rparr>) = store_ok s"
  by (simp_all add: store_ok_def store_inv_def seq_ok_def)

definition valid_kv :: "bytes \<Rightarrow> bytes \<Rightarrow> bool" where
  "valid_kv k v \<longleftrightarrow> validateKey k = None \<and> length v \<le> MaxValueSize"

lemma valid_kv_wf: "valid_kv (key r) (val r) = wf_rec r"
  by (auto simp: valid_kv_def validateKey_def wf_rec_def)

lemma wf_rec_single: "wf_rec r \<Longrightarrow> length (encode_all [r]) < 2 ^ 32"
  using wf_rec_bounds(3) [of r] by simp

section \<open>Reading\<close>

lemma validateKey_None: "validateKey k = None \<longleftrightarrow> 0 < length k \<and> length k \<le> MaxKeySize"
  by (auto simp: validateKey_def)

text \<open>A locator of the index is live exactly when the key has a value.\<close>

lemma contents_lookup:
  assumes "index_ok (ix s) (logs s)"
  shows "contents s k = (case idx_lookup (ix s) k of
    None \<Rightarrow> None | Some e \<Rightarrow> if tomb e then None else Some (val (rec_of (logs s) e)))"
proof (cases "idx_lookup (ix s) k")
  case (Some e)
  then obtain r where r: "stored (logs s) e r" "rec_of (logs s) e = r" by (rule index_ok_lookup [OF assms])
  then have "tombstone r = tomb e" by (simp add: stored_def)
  with Some r show ?thesis by (simp add: contents_of_def view_of_def payload_def)
qed (simp add: contents_of_def view_of_def)

lemma readValue_gone:
  "map_of (files s) (fileID e) = None \<Longrightarrow> readValue e s = (Inl errFileGone, s)"
  by (simp add: readValue_def)

lemma readValue_stored:
  assumes "files_ok (files s) (dfs s) (disk s)" and "stored (logs s) e r" and "\<not> tomb e"
  shows "\<exists>d. same_disk (disk s) d \<and> readValue e s =
    (case fault (disk s) of (None, _) \<Rightarrow> Inr (val r) | (Some _, _) \<Rightarrow> Inl ErrIO, s\<lparr>disk := d\<rparr>)"
proof -
  have "rec_size r \<le> length (logs s (fileID e))" using assms(2) by (simp add: stored_def)
  then have "logs s (fileID e) \<noteq> []" using rec_size_pos [of r] by (metis le_zero_eq less_not_refl2 list.size(3))
  then obtain p where p: "map_of (files s) (fileID e) = Some p" by (auto simp: log_of_def split: option.splits)
  note ok = files_okD [OF assms(1) p]
  let ?c = "content (the_file (disk s) (dfile (dfs s ! p)))"
  have log: "logs s (fileID e) = take (dsize (dfs s ! p)) ?c" by (simp add: log_of_def p the_file_def)
  have "bslice (pos e) (pos e + rec_size r) ?c = encode r"
    using assms(2) bslice_take [of "pos e + rec_size r" "dsize (dfs s ! p)" "pos e" ?c]
    by (simp add: stored_def log)
  moreover have r: "wf_rec r" "esize e = encodedSize (length (key r)) (length (val r))"
    "rseq r = eseq e" "\<not> tombstone r" using assms(2,3) by (simp_all add: stored_def)
  ultimately have fst: "fst (readRecord (dfs s ! p) e (disk s)) =
      (case fault (disk s) of (None, _) \<Rightarrow> Inr (r, encode r) | (Some _, _) \<Rightarrow> Inl ErrIO)"
    using readRecord_locates [OF ok(3)] by blast
  obtain x d where rr: "readRecord (dfs s ! p) e (disk s) = (x, d)" by fastforce
  have "same_disk (disk s) d"
    using rr ReadAt_same
    by (auto simp: readRecord_def split: prod.splits sum.splits elim!: andThen.elims)
  moreover obtain y d' where "fault (disk s) = (y, d')" by fastforce
  ultimately show ?thesis
    using p rr fst r by (intro exI [of _ d]) (cases y; simp add: readValue_def on_disk_def)
qed

section \<open>Properties of the write operations\<close>

text \<open>The outcome of an operation: the invariant in any case, and the new map on success.\<close>

definition outcome :: "(bytes \<Rightarrow> bytes option) \<Rightarrow> store \<Rightarrow> (store, 'a) res \<Rightarrow> bool" where
  "outcome c s res \<longleftrightarrow> (case res of
     (Inr _, s') \<Rightarrow> store_ok s' \<and> contents s' = c
   | (Inl er, s') \<Rightarrow> store_ok s' \<and> contents s' = contents s \<and> er \<noteq> Panic)"

lemma outcome_append:
  assumes "store_ok s" and "recs \<noteq> []" "list_all wf_rec recs" "length (encode_all recs) < 2 ^ 32"
    and "unat (seq s) + length recs < 2 ^ 64"
    and "\<And>t. store_ok (f t) = store_ok t" "\<And>t. contents (f t) = contents t"
  shows "outcome (foldl upd (contents s) recs) s (andThen (appendLocked recs s) (\<lambda>_ t. (Inr (), f t)))"
proof (cases "appendLocked recs s")
  case (Pair r t)
  then show ?thesis
    using appendLocked_ok [OF assms(1-5)] assms(6,7) by (cases r) (simp_all add: outcome_def)
qed

lemma outcome_error: "store_ok s \<Longrightarrow> er \<noteq> Panic \<Longrightarrow> outcome c s (Inl er, s)"
  by (simp add: outcome_def)

lemma Put_outcome:
  assumes "store_ok s" and "\<not> closed s" and "valid_kv k v" and "unat (seq s) + 1 < 2 ^ 64"
  shows "outcome ((contents s)(k \<mapsto> v)) s (Put now k v s)"
proof -
  let ?r = "\<lparr> ts = now, rseq = 0, flags = 0, key = k, val = v \<rparr>"
  have wf: "wf_rec ?r" using assms(3) valid_kv_wf [of ?r] by simp
  have "upd (contents s) ?r = (contents s)(k \<mapsto> v)" by (simp add: upd_def tombstone_def)
  then show ?thesis
    using outcome_append [OF assms(1), of "[?r]" "\<lambda>s. s\<lparr>nPut := nPut s + 1\<rparr>"] wf wf_rec_single [OF wf] assms(2-4)
    by (simp add: Put_def valid_kv_def)
qed

text \<open>
  C6. \<open>Put\<close> refines map update: for a valid key and value on an open store it either reports an
  error and leaves the map as it was, or returns with the map updated at exactly that key. The
  store invariant (index, files, counters, sequence numbers) holds afterwards in both cases,
  whatever I/O errors occurred; the code never panics.
\<close>

theorem Put_refines:
  assumes "store_ok s" and "\<not> closed s" and "valid_kv k v" and "unat (seq s) + 1 < 2 ^ 64"
  shows "outcome ((contents s)(k \<mapsto> v)) s (Put now k v s)"
  using assms by (rule Put_outcome)

lemma Delete_outcome:
  assumes "store_ok s" and "\<not> closed s" and "validateKey k = None" and "unat (seq s) + 1 < 2 ^ 64"
  shows "if contents s k = None then Delete now k s = (Inl ErrKeyNotFound, s)
    else outcome ((contents s)(k := None)) s (Delete now k s)"
proof -
  let ?r = "\<lparr> ts = now, rseq = 0, flags = flagTombstone, key = k, val = [] \<rparr>"
  have wf: "wf_rec ?r" using assms(3) valid_kv_wf [of ?r] by (simp add: valid_kv_def)
  have ixo: "index_ok (ix s) (logs s)" using assms(1) by (simp add: store_ok_def store_inv_def)
  have live: "(case idx_lookup (ix s) k of None \<Rightarrow> True | Some e \<Rightarrow> tomb e) \<longleftrightarrow> contents s k = None"
    unfolding contents_lookup [OF ixo] by (simp split: option.split)
  have "upd (contents s) ?r = (contents s)(k := None)" by (simp add: upd_def tombstone_def record_consts)
  then show ?thesis
    using outcome_append [OF assms(1), of "[?r]" "\<lambda>s. s\<lparr>nDel := nDel s + 1\<rparr>"] wf wf_rec_single [OF wf] assms(2-4)
    by (simp add: Delete_def live)
qed

text \<open>
  C16. \<open>Delete\<close> refines map deletion: on an open store, deleting a key that has a value either fails
  and changes nothing or removes exactly that key; deleting any other key returns
  \<open>ErrKeyNotFound\<close> and writes nothing.
\<close>

theorem Delete_refines:
  assumes "store_ok s" and "\<not> closed s" and "validateKey k = None" and "unat (seq s) + 1 < 2 ^ 64"
  shows "if contents s k = None then Delete now k s = (Inl ErrKeyNotFound, s)
    else outcome ((contents s)(k := None)) s (Delete now k s)"
  using assms by (rule Delete_outcome)

lemma check_batch_None: "check_batch kvs = None \<longleftrightarrow> list_all (\<lambda>(k, v). valid_kv k v) kvs"
  by (induction kvs rule: check_batch.induct) (auto simp: valid_kv_def split: option.splits)

definition kv_size :: "bytes \<times> bytes \<Rightarrow> nat" where
  "kv_size kv = recordHeaderSize + length (fst kv) + length (snd kv)"

lemma batch_recs_facts:
  "length (batch_recs now kvs) = length kvs"
  "list_all wf_rec (batch_recs now kvs) = list_all (\<lambda>(k, v). valid_kv k v) kvs"
  "length (encode_all (batch_recs now kvs)) = sum_list (map kv_size kvs)"
  "foldl upd c (batch_recs now kvs) = foldl (\<lambda>c (k, v). c(k \<mapsto> v)) c kvs"
proof -
  have gen: "length rs = length kvs \<and> list_all wf_rec rs = list_all (\<lambda>(k, v). valid_kv k v) kvs \<and>
      length (encode_all rs) = sum_list (map kv_size kvs) \<and>
      foldl upd c rs = foldl (\<lambda>c (k, v). c(k \<mapsto> v)) c kvs"
    if "list_all2 (\<lambda>r (k, v). key r = k \<and> val r = v \<and> \<not> tombstone r) rs kvs" for rs c
    using that
  proof (induction rs kvs arbitrary: c rule: list_all2_induct)
    case (Cons r rs kv kvs)
    then show ?case
      using valid_kv_wf [of r] by (auto simp: upd_def kv_size_def rec_size_def split: prod.splits)
  qed simp
  have "list_all2 (\<lambda>r (k, v). key r = k \<and> val r = v \<and> \<not> tombstone r) (batch_recs now kvs) kvs"
    by (auto simp: list_all2_conv_all_nth batch_recs_def tombstone_def record_consts split: prod.splits)
  note g = gen [OF this, of c]
  show "length (batch_recs now kvs) = length kvs"
    "list_all wf_rec (batch_recs now kvs) = list_all (\<lambda>(k, v). valid_kv k v) kvs"
    "length (encode_all (batch_recs now kvs)) = sum_list (map kv_size kvs)"
    "foldl upd c (batch_recs now kvs) = foldl (\<lambda>c (k, v). c(k \<mapsto> v)) c kvs"
    using g by blast+
qed

lemma BatchPut_outcome:
  assumes "store_ok s" and "\<not> closed s" and "length ks = length vs" and "ks \<noteq> []"
    and "list_all (\<lambda>(k, v). valid_kv k v) (zip ks vs)" and "sum_list (map kv_size (zip ks vs)) < 2 ^ 32"
    and "unat (seq s) + length ks < 2 ^ 64"
  shows "outcome (foldl (\<lambda>c (k, v). c(k \<mapsto> v)) (contents s) (zip ks vs)) s (BatchPut now ks vs s)"
proof -
  let ?rs = "batch_recs now (zip ks vs)"
  have "?rs \<noteq> []" using batch_recs_facts(1) [of now "zip ks vs"] assms(3,4) by auto
  moreover have "check_batch (zip ks vs) = None" using assms(5) by (simp add: check_batch_None)
  ultimately show ?thesis
    using outcome_append [OF assms(1), of ?rs "\<lambda>s. s\<lparr>nPut := nPut s + of_nat (length ks)\<rparr>"] assms(2-7)
    by (auto simp: BatchPut_def batch_recs_facts)
qed

text \<open>
  C15. \<open>BatchPut\<close> is all or nothing: a batch of valid pairs, below 4 GiB in encoded size (the offsets
  inside a batch are 32 bits wide), either fails and leaves the map as it was, or has the effect
  of all its pairs in order, a later pair winning over an earlier one of the same key.
\<close>

theorem BatchPut_refines:
  assumes "store_ok s" and "\<not> closed s" and "length ks = length vs" and "ks \<noteq> []"
    and "list_all (\<lambda>(k, v). valid_kv k v) (zip ks vs)" and "sum_list (map kv_size (zip ks vs)) < 2 ^ 32"
    and "unat (seq s) + length ks < 2 ^ 64"
  shows "outcome (foldl (\<lambda>c (k, v). c(k \<mapsto> v)) (contents s) (zip ks vs)) s (BatchPut now ks vs s)"
  using assms by (rule BatchPut_outcome)

section \<open>Properties of \<open>Get\<close>\<close>

lemma store_inv_same_disk:
  assumes "store_inv s" and "same_disk (disk s) d"
  shows "store_inv (s\<lparr>disk := d\<rparr>)" and "logs (s\<lparr>disk := d\<rparr>) = logs s"
  using assms files_ok_same_disk [of "files s" "dfs s" "disk s" d] by (auto simp: store_inv_def)

lemma Get_value:
  assumes "store_ok s" and "validateKey k = None"
  shows "(case contents s k of
      None \<Rightarrow> fst (Get k s) = Inl ErrKeyNotFound
    | Some v \<Rightarrow> fst (Get k s) = (case fault (disk s) of (None, _) \<Rightarrow> Inr v | (Some _, _) \<Rightarrow> Inl ErrIO)) \<and>
    store_ok (snd (Get k s)) \<and> contents (snd (Get k s)) = contents s"
proof -
  have inv: "store_inv s" "index_ok (ix s) (logs s)" "files_ok (files s) (dfs s) (disk s)"
    using assms(1) by (simp_all add: store_ok_def store_inv_def)
  let ?s = "s\<lparr>nGet := nGet s + 1\<rparr>"
  show ?thesis
  proof (cases "\<exists>e. idx_lookup (ix s) k = Some e \<and> \<not> tomb e")
    case False
    then have "contents s k = None" unfolding contents_lookup [OF inv(2)] by (auto split: option.splits)
    moreover have "Get k s = (Inl ErrKeyNotFound, ?s\<lparr>nMiss := nMiss s + 1\<rparr>)"
      using False assms(2) by (auto simp: Get_with_def numeral_eq_Suc split: option.splits)
    ultimately show ?thesis using assms(1) by simp
  next
    case True
    then obtain e where e: "idx_lookup (ix s) k = Some e" "\<not> tomb e" by blast
    then obtain r where r: "stored (logs s) e r" "rec_of (logs s) e = r" by (metis index_ok_lookup [OF inv(2)])
    have c: "contents s k = Some (val r)" unfolding contents_lookup [OF inv(2)] by (simp add: e r(2))
    from readValue_stored [of ?s e r] inv(3) r(1) e(2) obtain d where
      d: "same_disk (disk s) d" "readValue e ?s =
        (case fault (disk s) of (None, _) \<Rightarrow> Inr (val r) | (Some _, _) \<Rightarrow> Inl ErrIO, ?s\<lparr>disk := d\<rparr>)" by auto
    have g: "Get k s = (case fault (disk s) of (None, _) \<Rightarrow> Inr (val r) | (Some _, _) \<Rightarrow> Inl ErrIO, ?s\<lparr>disk := d\<rparr>)"
      using e assms(2) d(2) by (auto simp: Get_with_def numeral_eq_Suc split: option.splits prod.splits)
    note sd = store_inv_same_disk [OF inv(1) d(1)]
    have "store_ok (?s\<lparr>disk := d\<rparr>)" "contents (?s\<lparr>disk := d\<rparr>) = contents s"
      using assms(1) sd by (simp_all add: store_ok_def store_inv_def seq_ok_def)
    then show ?thesis unfolding g c by simp
  qed
qed

text \<open>
  C24. \<open>Get\<close> returns the value of the map: for a key without a value \<open>ErrKeyNotFound\<close>, otherwise the
  value, or the error of the read if the disk fails; the map and the invariant stay as they were.
\<close>

theorem Get_returns:
  assumes "store_ok s" and "validateKey k = None"
  shows "(case contents s k of
      None \<Rightarrow> fst (Get k s) = Inl ErrKeyNotFound
    | Some v \<Rightarrow> fst (Get k s) = (case fault (disk s) of (None, _) \<Rightarrow> Inr v | (Some _, _) \<Rightarrow> Inl ErrIO)) \<and>
    store_ok (snd (Get k s)) \<and> contents (snd (Get k s)) = contents s"
  using assms by (rule Get_value)

section \<open>Success without I/O errors\<close>

text \<open>No pending I/O error, the active file is open and the next file name is free.\<close>

definition calm :: "store \<Rightarrow> bool" where
  "calm s \<longleftrightarrow> faults (disk s) = [] \<and> map_of (dir (disk s)) (dataPath (nextID s)) = None \<and>
     (\<exists>p. active s = Some p \<and> fopen (dfile (dfs s ! p)) \<and> fwr (dfile (dfs s ! p)))"

lemma SyncFile_calm: "faults d = [] \<Longrightarrow> fopen f \<Longrightarrow> \<exists>d'. SyncFile f d = (Inr (), d') \<and> faults d' = [] \<and> dir d' = dir d"
  by (simp add: SyncFile_def Let_def)

lemma openNewActive_calm:
  assumes "faults (disk s) = []" and "map_of (dir (disk s)) (dataPath (nextID s)) = None"
  shows "\<exists>s'. openNewActive s = (Inr (), s') \<and> faults (disk s') = [] \<and>
    (\<exists>p. active s' = Some p \<and> fopen (dfile (dfs s' ! p)) \<and> fwr (dfile (dfs s' ! p))) \<and> syncMode s' = syncMode s"
  using assms
  by (simp add: openNewActive_def createDataFile_def openExcl_def on_disk_def Let_def syncDir_def)

lemma maybeRotateLocked_calm:
  assumes "calm s"
  shows "\<exists>s'. maybeRotateLocked n s = (Inr (), s') \<and> faults (disk s') = [] \<and> syncMode s' = syncMode s \<and>
    (\<exists>p. active s' = Some p \<and> fopen (dfile (dfs s' ! p)) \<and> fwr (dfile (dfs s' ! p)))"
proof -
  obtain p where p: "active s = Some p" "fopen (dfile (dfs s ! p))" "fwr (dfile (dfs s ! p))"
    and f: "faults (disk s) = []" "map_of (dir (disk s)) (dataPath (nextID s)) = None"
    using assms by (auto simp: calm_def)
  show ?thesis
  proof (cases "dsize (dfs s ! p) = 0 \<or> dsize (dfs s ! p) + n \<le> maxFileSize s")
    case True
    then show ?thesis using p f by (auto simp: maybeRotateLocked_def)
  next
    case False
    obtain d where d: "SyncFile (dfile (dfs s ! p)) (disk s) = (Inr (), d)" "faults d = []" "dir d = dir (disk s)"
      using SyncFile_calm [OF f(1) p(2)] by blast
    obtain t where "openNewActive (s\<lparr>disk := d\<rparr>) = (Inr (), t)" "faults (disk t) = []" "syncMode t = syncMode s"
        "\<exists>p. active t = Some p \<and> fopen (dfile (dfs t ! p)) \<and> fwr (dfile (dfs t ! p))"
      using openNewActive_calm [of "s\<lparr>disk := d\<rparr>"] d f(2) by auto
    then show ?thesis using p(1) False d(1) by (auto simp: maybeRotateLocked_def on_disk_def Let_def)
  qed
qed

lemma index_recs_disk: "index_recs base i xs s = Some s' \<Longrightarrow> disk s' = disk s"
proof (induction base i xs s rule: index_recs.induct)
  case (2 base i off r xs s)
  have ix: "disk t' = disk t" if "indexApplyLocked k e tmb t = Some t'" for k e tmb t t'
    using that by (auto simp: indexApplyLocked_def Let_def split: option.splits if_splits bind_splits)
  from 2 show ?case by (auto simp: bind_eq_Some_conv) (metis ix)
qed simp

lemma write_active_calm:
  assumes "faults (disk s) = []" and "active s = Some p" "fopen (dfile (dfs s ! p))" "fwr (dfile (dfs s ! p))"
    and "fst (write_active recs s) \<noteq> Inl Panic"
  shows "\<exists>s'. write_active recs s = (Inr (), s') \<and> faults (disk s') = []"
  using assms index_recs_disk
  by (cases "syncMode s = SyncAlways")
     (fastforce simp: write_active_def WriteAt_def SyncFile_def on_disk_def Let_def notify_def split: option.splits)+

lemma writeLocked_calm:
  assumes "store_inv s" and "calm s" and "recs \<noteq> []" "list_all wf_rec recs" "length (encode_all recs) < 2 ^ 32"
  shows "\<exists>s'. writeLocked recs s = (Inr (), s') \<and> faults (disk s') = []"
proof -
  have "wrote recs (writeLocked recs s) s" using writeLocked_ok [OF assms(1,3-5)] .
  then have "fst (writeLocked recs s) \<noteq> Inl Panic" by (auto simp: wrote_def split: sum.splits prod.splits)
  moreover obtain t p where t: "maybeRotateLocked (length (encode_all recs)) s = (Inr (), t)" "faults (disk t) = []"
      "active t = Some p" "fopen (dfile (dfs t ! p))" "fwr (dfile (dfs t ! p))"
    using maybeRotateLocked_calm [OF assms(2)] by blast
  ultimately show ?thesis
    using write_active_calm [OF t(2-5), of recs] by (simp add: writeLocked_split)
qed

lemma calm_seq [simp]: "calm (s\<lparr>seq := n\<rparr>) = calm s"
  by (simp add: calm_def)

lemma Put_calm:
  assumes "store_ok s" and "calm s" and "\<not> closed s" and "valid_kv k v" and "unat (seq s) + 1 < 2 ^ 64"
  shows "\<exists>s'. Put now k v s = (Inr (), s') \<and> store_ok s' \<and> contents s' = (contents s)(k \<mapsto> v) \<and>
    seq s' = seq s + 1 \<and> \<not> closed s' \<and> faults (disk s') = []"
proof -
  let ?r = "\<lparr> ts = now, rseq = seq s + 1, flags = 0, key = k, val = v \<rparr>" and ?s = "s\<lparr>seq := seq s + 1\<rparr>"
  have wf: "wf_rec ?r" using assms(4) valid_kv_wf [of ?r] by simp
  have inv: "store_inv ?s" using assms(1) by (simp add: store_ok_def store_inv_def)
  obtain t where t: "writeLocked [?r] ?s = (Inr (), t)" "faults (disk t) = []"
    using writeLocked_calm [OF inv, of "[?r]"] assms(2) wf wf_rec_single [OF wf] by auto
  let ?s' = "t\<lparr>nPut := nPut t + 1\<rparr>"
  have put: "Put now k v s = (Inr (), ?s')"
    using t(1) assms(3,4) by (simp add: Put_def valid_kv_def appendLocked_def)
  let ?q = "\<lparr> ts = now, rseq = 0, flags = 0, key = k, val = v \<rparr>"
  have wfq: "wf_rec ?q" using wf by (simp add: wf_rec_def)
  have ok: "store_ok t" "contents t = (contents s)(k \<mapsto> v)" "seq t = seq s + 1"
    using appendLocked_ok [OF assms(1), of "[?q]"] wfq wf_rec_single [OF wfq] assms(5) t(1)
    by (simp_all add: appendLocked_def upd_def tombstone_def)
  have "wrote [?r] (Inr (), t) ?s"
    unfolding t(1) [symmetric] by (rule writeLocked_ok [OF inv]) (use wf wf_rec_single [OF wf] in simp_all)
  then have "\<not> closed t" using assms(3) by (simp add: wrote_def)
  with put ok t(2) show ?thesis by (intro exI [of _ ?s']) simp
qed

text \<open>
  C25. Without I/O errors a valid write is accepted and read back: on an open store with a free
  next file name, \<open>Put\<close> returns no error, whether or not the active file has to be rotated, and
  a following \<open>Get\<close> of the key returns the value that was put.
\<close>

theorem Put_then_Get:
  assumes "store_ok s" and "calm s" and "\<not> closed s" and "valid_kv k v" and "unat (seq s) + 1 < 2 ^ 64"
  shows "\<exists>s'. Put now k v s = (Inr (), s') \<and> fst (Get k s') = Inr v"
proof -
  obtain s' where s': "Put now k v s = (Inr (), s')" "store_ok s'" "contents s' k = Some v" "faults (disk s') = []"
    using Put_calm [OF assms, of now] by auto
  have "validateKey k = None" using assms(4) by (simp add: valid_kv_def)
  then have "fst (Get k s') = Inr v" using Get_value [OF s'(2), of k] s'(3,4) by simp
  with s'(1) show ?thesis by blast
qed

section \<open>Reads that race with a merge\<close>

text \<open>
  What a concurrent merge may do between the index lookup and the read, and between two attempts:
  it may drop the file a locator points into, but a file that is still there holds what it held,
  and the key keeps its value.
\<close>

definition merge_env :: "bytes \<Rightarrow> bytes \<Rightarrow> (nat \<Rightarrow> store \<Rightarrow> store) \<Rightarrow> (nat \<Rightarrow> store \<Rightarrow> store) \<Rightarrow> bool" where
  "merge_env k v env1 env2 \<longleftrightarrow>
     (\<forall>n s. store_inv s \<longrightarrow> contents s k = Some v \<longrightarrow>
        store_inv (env1 n s) \<and>
        (\<forall>e. idx_lookup (ix s) k = Some e \<longrightarrow>
           map_of (files (env1 n s)) (fileID e) = None \<or> logs (env1 n s) (fileID e) = logs s (fileID e)) \<and>
        store_inv (env2 n (env1 n s)) \<and> contents (env2 n (env1 n s)) k = Some v)"

lemma stored_same_log: "stored L e r \<Longrightarrow> L' (fileID e) = L (fileID e) \<Longrightarrow> stored L' e r"
  by (simp add: stored_def)

lemma get_loop_race:
  assumes "merge_env k v env1 env2" and "store_inv s" and "contents s k = Some v"
  shows "fst (get_loop env1 env2 n k s) \<in> {Inr v, Inl ErrIO, Inl (ErrOther ''read lost a race with compaction'')}"
  using assms(2,3)
proof (induction n arbitrary: s)
  case (Suc n)
  have ixo: "index_ok (ix s) (logs s)" using Suc.prems(1) by (simp add: store_inv_def)
  obtain e where e: "idx_lookup (ix s) k = Some e" "\<not> tomb e" "val (rec_of (logs s) e) = v"
    using Suc.prems(2) unfolding contents_lookup [OF ixo] by (auto split: option.splits if_splits)
  obtain r where r: "stored (logs s) e r" "rec_of (logs s) e = r" by (rule index_ok_lookup [OF ixo e(1)])
  let ?t = "env1 n s"
  have t: "files_ok (files ?t) (dfs ?t) (disk ?t)"
      "map_of (files ?t) (fileID e) = None \<or> logs ?t (fileID e) = logs s (fileID e)"
      "store_inv (env2 n ?t)" "contents (env2 n ?t) k = Some v"
    using assms(1) Suc.prems e(1) by (simp_all add: merge_env_def store_inv_def)
  show ?case
  proof (cases "map_of (files ?t) (fileID e) = None")
    case True
    then show ?thesis using Suc.IH [OF t(3,4)] e(1,2) by (simp add: readValue_gone)
  next
    case False
    with t(2) have "logs ?t (fileID e) = logs s (fileID e)" by blast
    then have "stored (logs ?t) e r" by (rule stored_same_log [OF r(1)])
    from readValue_stored [OF t(1) this e(2)] obtain d where
      "readValue e ?t = (case fault (disk ?t) of (None, _) \<Rightarrow> Inr (val r) | (Some _, _) \<Rightarrow> Inl ErrIO, ?t\<lparr>disk := d\<rparr>)"
      by blast
    then show ?thesis using e r(2) by (cases "fault (disk ?t)"; cases "fst (fault (disk ?t))") auto
  qed
qed simp


section \<open>A concrete store\<close>

definition store_ex :: store where
  "store_ex = \<lparr> maxFileSize = 1000, syncMode = SyncAlways, ix = new_index [], active = Some 0, nextID = 2,
     seq = 0, dirty = False, files = [(1, 0)],
     dfs = [\<lparr> did = 1, dpath = dataPath 1, dfile = \<lparr> ino = 0, fopen = True, fwr = True \<rparr>, dsize = 0 \<rparr>],
     obs = [], obsID = 0, outbox = [], live = 0, total = 0, nLive = 0, nPut = 0, nGet = 0, nDel = 0,
     nScan = 0, nMiss = 0, compacting = False, mergeSeq = 0, hintJobs = [], closed = False,
     disk = \<lparr> dir = [(dataPath 1, 0)], ddir = [(dataPath 1, 0)], inodes = [new_inode], faults = [] \<rparr> \<rparr>"

lemma lookup_new_index: "idx_lookup (new_index h) = (\<lambda>_. None)"
  by (rule ext) (rule ix.empty_lookup)

lemma store_ex_ok: "store_ok store_ex"
  using new_index_inv [of "[]"]
  by (simp add: store_ok_def store_inv_def seq_ok_def store_ex_def files_ok_def active_ok_def index_ok_def
      counts_ok_def view_of_def lookup_new_index)

lemma store_ex_calm: "calm store_ex" "\<not> closed store_ex" "unat (seq store_ex) = 0"
  by (simp_all add: calm_def store_ex_def)

lemma store_ex_empty: "contents store_ex = Map.empty"
  by (simp add: contents_of_def view_of_def store_ex_def lookup_new_index fun_eq_iff)

text \<open>The store after a first write.\<close>

definition store_ex1 :: store where
  "store_ex1 = snd (Put 5 [0x61] [0x62] store_ex)"

lemma valid_kv_ex: "valid_kv [0x61] [0x62]" "validateKey [0x61] = None" "valid_kv [0x61] []"
  by (simp_all add: valid_kv_def validateKey_def record_consts)

theorem Put_refines_witness:
  "valid_kv [0x61] [0x62] \<and> outcome ((contents store_ex)([0x61] \<mapsto> [0x62])) store_ex (Put 5 [0x61] [0x62] store_ex)"
  using Put_refines [OF store_ex_ok store_ex_calm(2) valid_kv_ex(1)] store_ex_calm(3) valid_kv_ex(1) by simp

theorem Put_then_Get_witness:
  "\<exists>s'. Put 5 [0x61] [0x62] store_ex = (Inr (), s') \<and> fst (Get [0x61] s') = Inr [0x62]"
  using Put_then_Get [OF store_ex_ok store_ex_calm(1,2) valid_kv_ex(1), of 5] store_ex_calm(3) by simp

lemma store_ex1_ok:
  "store_ok store_ex1" "contents store_ex1 = [[0x61] \<mapsto> [0x62]]" "seq store_ex1 = 1" "\<not> closed store_ex1"
  "faults (disk store_ex1) = []"
  using Put_calm [OF store_ex_ok store_ex_calm(1,2) valid_kv_ex(1), of 5] store_ex_calm(3)
  by (auto simp: store_ex1_def store_ex_empty) (simp add: store_ex_def)

theorem Delete_refines_witness:
  "outcome Map.empty store_ex1 (Delete 6 [0x61] store_ex1)"
  using Delete_refines [OF store_ex1_ok(1,4) valid_kv_ex(2), of 6] store_ex1_ok(2,3) by simp

theorem BatchPut_refines_witness:
  "outcome ([[0x61] \<mapsto> [0x62]]([0x63] \<mapsto> [])) store_ex (BatchPut 5 [[0x61], [0x63]] [[0x62], []] store_ex)"
proof -
  have "list_all (\<lambda>(k, v). valid_kv k v) (zip [[0x61], [0x63]] [[0x62], []])"
    by (simp add: valid_kv_def validateKey_def record_consts)
  moreover have "sum_list (map kv_size (zip [[0x61], [0x63]] [[0x62], [] :: bytes])) < 2 ^ 32"
    by (simp add: kv_size_def record_consts)
  ultimately show ?thesis
    using BatchPut_refines [OF store_ex_ok store_ex_calm(2), of "[[0x61], [0x63]]" "[[0x62], []]" 5] store_ex_calm(3)
    by (simp add: store_ex_empty)
qed

theorem Get_returns_witness: "fst (Get [0x61] store_ex1) = Inr [0x62]"
  using Get_returns [OF store_ex1_ok(1) valid_kv_ex(2)] store_ex1_ok(2,5) by simp


end
