(* ===== verification/Range_Scan.thy ===== *)
theory Range_Scan
  imports Store_Map "HOL-Library.Sublist"
begin

text \<open>
  Range queries of the store, \<open>Store.Scan\<close>, \<open>Store.reread\<close> and \<open>Store.ScanSlice\<close> in
  \<open>internal/engine/store.go\<close>.

  A scan walks the bottom level of the skip list in chunks: under the index lock it collects up to
  512 locators (or examines 4096 nodes), then it reads the values with the lock released. The
  lemmas show that a scan ends, and that without concurrent writers it hands its visitor exactly
  the pairs of the map in the range, in key order, up to the limit.
\<close>

section \<open>Definitions\<close>

definition scanChunk :: nat where "scanChunk = 512"

text \<open>
  The loop over the nodes of one chunk. Its result is the new cursor, whether the cursor is
  exclusive, the number of nodes examined, the locators collected and whether a key beyond the
  end was met. \<open>None\<close> would be a nil dereference or an endless chain.
\<close>

partial_function (option) chunk_loop ::
  "slheap \<Rightarrow> bytes \<Rightarrow> addr option \<Rightarrow> bytes \<Rightarrow> bool \<Rightarrow> nat \<Rightarrow> (bytes \<times> entry) list \<Rightarrow>
   (bytes \<times> bool \<times> nat \<times> (bytes \<times> entry) list \<times> bool) option" where
  "chunk_loop h endKey p cursor exclusive examined refs = (case p of
       None \<Rightarrow> Some (cursor, exclusive, examined, refs, False)
     | Some a \<Rightarrow> do {
         n \<leftarrow> node_at h a;
         if exclusive \<and> nkey n = cursor then do {
           q \<leftarrow> next_at h 0 a;
           chunk_loop h endKey q cursor exclusive examined refs }
         else if endKey \<noteq> [] \<and> nkey n > endKey then Some (cursor, exclusive, examined, refs, True)
         else (let examined = examined + 1;
                   refs = (if \<not> tomb (ent n) then refs @ [(nkey n, ent n)] else refs) in
           if length refs = scanChunk \<or> examined = scanChunk * 8
           then Some (nkey n, True, examined, refs, False)
           else do {
             q \<leftarrow> next_at h 0 a;
             chunk_loop h endKey q (nkey n) True examined refs }) })"

definition scan_chunk ::
  "bytes \<Rightarrow> bytes \<Rightarrow> bool \<Rightarrow> index \<Rightarrow> (bytes \<times> bool \<times> nat \<times> (bytes \<times> entry) list \<times> bool) option" where
  "scan_chunk endKey cursor exclusive x = do {
     p \<leftarrow> seek (heap x) (order x) cursor;
     chunk_loop (heap x) endKey p cursor exclusive 0 [] }"

text \<open>
  Reading a value with the lock released. \<open>env\<close> is what other goroutines do to the store whenever
  the lock is free.
\<close>

definition reread :: "(store \<Rightarrow> store) \<Rightarrow> bytes \<Rightarrow> store \<Rightarrow> (store, bytes) res" where
  "reread env k s =
     (case idx_lookup (ix s) k of
        None \<Rightarrow> (Inl ErrKeyNotFound, s)
      | Some e \<Rightarrow> if tomb e then (Inl ErrKeyNotFound, s) else readValue e (env s))"

definition resolve :: "(store \<Rightarrow> store) \<Rightarrow> bytes \<Rightarrow> entry \<Rightarrow> store \<Rightarrow> (store, bytes) res" where
  "resolve env k e s =
     (case readValue e (env s) of
        (Inl er, s) \<Rightarrow> if er = errFileGone then reread env k (env s) else (Inl er, s)
      | (Inr v, s) \<Rightarrow> (Inr v, s))"

type_synonym 'f scan_fn = "bytes \<Rightarrow> bytes \<Rightarrow> 'f \<Rightarrow> error option \<times> 'f"

text \<open>The loop over the locators of a chunk: the number of pairs sent so far and whether to return.\<close>

fun send_refs :: "(store \<Rightarrow> store) \<Rightarrow> 'f scan_fn \<Rightarrow> int \<Rightarrow> (bytes \<times> entry) list \<Rightarrow> nat \<Rightarrow> store \<times> 'f \<Rightarrow>
    (store \<times> 'f, nat \<times> bool) res" where
  "send_refs env fn limit [] sent st = (Inr (sent, False), st)"
| "send_refs env fn limit ((k, e) # refs) sent (s, f) =
     (case resolve env k e s of
        (Inl er, s) \<Rightarrow>
          if er = errFileGone \<or> er = ErrKeyNotFound then send_refs env fn limit refs sent (s, f)
          else (Inl er, (s, f))
      | (Inr v, s) \<Rightarrow> (case fn k v f of
            (Some er, f) \<Rightarrow> (Inl er, (s, f))
          | (None, f) \<Rightarrow>
              if limit > 0 \<and> int (sent + 1) \<ge> limit then (Inr (sent + 1, True), (s, f))
              else send_refs env fn limit refs (sent + 1) (s, f)))"

partial_function (option) scan_chunks ::
  "(store \<Rightarrow> store) \<Rightarrow> 'f scan_fn \<Rightarrow> int \<Rightarrow> bytes \<Rightarrow> bytes \<Rightarrow> bool \<Rightarrow> nat \<Rightarrow> store \<times> 'f \<Rightarrow>
   (store \<times> 'f, unit) res option" where
  "scan_chunks env fn limit endKey cursor exclusive sent st =
     (case scan_chunk endKey cursor exclusive (ix (fst st)) of
        None \<Rightarrow> Some (Inl Panic, st)
      | Some (cursor, exclusive, examined, refs, atEnd) \<Rightarrow>
          if examined = 0 then Some (Inr (), st)
          else (case send_refs env fn limit refs sent st of
              (Inl er, st) \<Rightarrow> Some (Inl er, st)
            | (Inr (sent, stop), st) \<Rightarrow>
                if stop \<or> atEnd then Some (Inr (), st)
                else scan_chunks env fn limit endKey cursor exclusive sent (apfst env st)))"

definition Scan_with ::
  "(store \<Rightarrow> store) \<Rightarrow> bytes \<Rightarrow> bytes \<Rightarrow> int \<Rightarrow> 'f scan_fn \<Rightarrow> store \<times> 'f \<Rightarrow> (store \<times> 'f, unit) res option" where
  "Scan_with env start endk limit fn st =
     (let st = apfst (\<lambda>s. s\<lparr>nScan := nScan s + 1\<rparr>) st in
      if endk \<noteq> [] \<and> start > endk then Some (Inr (), st)
      else scan_chunks env fn limit endk start False 0 st)"

abbreviation Scan :: "bytes \<Rightarrow> bytes \<Rightarrow> int \<Rightarrow> 'f scan_fn \<Rightarrow> store \<times> 'f \<Rightarrow> (store \<times> 'f, unit) res option" where
  "Scan \<equiv> Scan_with (\<lambda>s. s)"

definition ScanSlice :: "bytes \<Rightarrow> bytes \<Rightarrow> int \<Rightarrow> store \<Rightarrow> (store \<times> (bytes \<times> bytes) list, unit) res option" where
  "ScanSlice start endk limit s = Scan start endk limit (\<lambda>k v out. (None, out @ [(k, v)])) (s, [])"

section \<open>One chunk\<close>

text \<open>The chunk loop on the list of the nodes it follows.\<close>

fun chunk_nodes :: "bytes \<Rightarrow> slnode list \<Rightarrow> bytes \<Rightarrow> bool \<Rightarrow> nat \<Rightarrow> (bytes \<times> entry) list \<Rightarrow>
   bytes \<times> bool \<times> nat \<times> (bytes \<times> entry) list \<times> bool" where
  "chunk_nodes endKey [] cursor exclusive examined refs = (cursor, exclusive, examined, refs, False)"
| "chunk_nodes endKey (n # ns) cursor exclusive examined refs =
     (if exclusive \<and> nkey n = cursor then chunk_nodes endKey ns cursor exclusive examined refs
      else if endKey \<noteq> [] \<and> nkey n > endKey then (cursor, exclusive, examined, refs, True)
      else (let examined = examined + 1;
                refs = (if \<not> tomb (ent n) then refs @ [(nkey n, ent n)] else refs) in
        if length refs = scanChunk \<or> examined = scanChunk * 8
        then (nkey n, True, examined, refs, False)
        else chunk_nodes endKey ns (nkey n) True examined refs))"

lemma chunk_loop_path:
  assumes "path (nx h 0) x ys" and "\<And>a. a \<in> set (x # ys) \<Longrightarrow> a < length h \<and> on_level h 0 a"
  shows "chunk_loop h endk (nx h 0 x) c b i refs = Some (chunk_nodes endk (map ((!) h) ys) c b i refs)"
  using assms
proof (induction ys arbitrary: x c b i refs)
  case Nil
  then show ?case by (simp add: chunk_loop.simps)
next
  case (Cons y ys)
  have IH: "chunk_loop h endk (nx h 0 y) c b i refs = Some (chunk_nodes endk (map ((!) h) ys) c b i refs)" for c b i refs
    using Cons.prems by (intro Cons.IH) auto
  have y: "node_at h y = Some (h ! y)" "next_at h 0 y = Some (nx h 0 y)" "nx h 0 x = Some y"
    using Cons.prems by auto
  show ?case
    unfolding y(3) by (subst chunk_loop.simps) (simp add: y IH Let_def, use IH in auto)
qed


definition live_refs :: "slnode list \<Rightarrow> (bytes \<times> entry) list" where
  "live_refs ns = map (\<lambda>n. (nkey n, ent n)) (filter (\<lambda>n. \<not> tomb (ent n)) ns)"

lemma live_refs_simps [simp]:
  "live_refs [] = []"
  "live_refs (n # ns) = (if tomb (ent n) then live_refs ns else (nkey n, ent n) # live_refs ns)"
  "live_refs (ms @ ns) = live_refs ms @ live_refs ns"
  by (simp_all add: live_refs_def)

text \<open>A chunk takes a prefix of the nodes ahead of the cursor and stops at the end of the range.\<close>

definition chunk_split :: "bytes \<Rightarrow> slnode list \<Rightarrow> bytes \<Rightarrow> bool \<Rightarrow> nat \<Rightarrow> (bytes \<times> entry) list \<Rightarrow>
   slnode list \<Rightarrow> slnode list \<Rightarrow> bytes \<times> bool \<times> nat \<times> (bytes \<times> entry) list \<times> bool \<Rightarrow> bool" where
  "chunk_split endk ns c b i refs L1 L2 res \<longleftrightarrow> (case res of (c', b', i', refs', atEnd) \<Rightarrow>
     ns = L1 @ L2 \<and> i' = i + length L1 \<and> refs' = refs @ live_refs L1 \<and>
     (\<forall>n \<in> set L1. endk = [] \<or> nkey n \<le> endk) \<and>
     (if L1 = [] then c' = c \<and> b' = b else c' = nkey (last L1) \<and> b') \<and>
     (if atEnd then endk \<noteq> [] \<and> (\<forall>n \<in> set L2. endk < nkey n) else L1 \<noteq> [] \<or> L2 = []))"

lemma chunk_nodes_split:
  assumes "sorted_wrt (<) (map nkey ns)" and "\<forall>n \<in> set ns. b \<longrightarrow> c < nkey n"
  shows "\<exists>L1 L2. chunk_split endk ns c b i refs L1 L2 (chunk_nodes endk ns c b i refs)"
  using assms
proof (induction ns arbitrary: c b i refs)
  case (Cons n ns)
  let ?refs = "if \<not> tomb (ent n) then refs @ [(nkey n, ent n)] else refs"
  have skip: "\<not> (b \<and> nkey n = c)" using Cons.prems(2) by auto
  consider (beyond) "endk \<noteq> [] \<and> nkey n > endk"
    | (full) "\<not> (endk \<noteq> [] \<and> nkey n > endk)" "length ?refs = scanChunk \<or> i + 1 = scanChunk * 8"
    | (go) "\<not> (endk \<noteq> [] \<and> nkey n > endk)" "\<not> (length ?refs = scanChunk \<or> i + 1 = scanChunk * 8)" by blast
  then show ?case
  proof cases
    case beyond
    have "chunk_split endk (n # ns) c b i refs [] (n # ns) (c, b, i, refs, True)"
      using beyond Cons.prems(1) by (auto simp: chunk_split_def)
    moreover have eq: "chunk_nodes endk (n # ns) c b i refs = (c, b, i, refs, True)"
      unfolding chunk_nodes.simps if_not_P [OF skip] if_P [OF beyond] ..
    ultimately show ?thesis unfolding eq by blast
  next
    case full
    have "chunk_split endk (n # ns) c b i refs [n] ns (nkey n, True, i + 1, ?refs, False)"
      using full(1) by (auto simp: chunk_split_def)
    moreover have eq: "chunk_nodes endk (n # ns) c b i refs = (nkey n, True, i + 1, ?refs, False)"
      unfolding chunk_nodes.simps Let_def if_not_P [OF skip] if_not_P [OF full(1)] if_P [OF full(2)] ..
    ultimately show ?thesis unfolding eq by blast
  next
    case go
    have eq: "chunk_nodes endk (n # ns) c b i refs = chunk_nodes endk ns (nkey n) True (i + 1) ?refs"
      unfolding chunk_nodes.simps Let_def if_not_P [OF skip] if_not_P [OF go(1)] if_not_P [OF go(2)] ..
    have "sorted_wrt (<) (map nkey ns)" "\<forall>m \<in> set ns. True \<longrightarrow> nkey n < nkey m" using Cons.prems(1) by auto
    from Cons.IH [OF this] obtain L1 L2 where L: "chunk_split endk ns (nkey n) True (i + 1) ?refs L1 L2
        (chunk_nodes endk ns (nkey n) True (i + 1) ?refs)" by blast
    then have "chunk_split endk (n # ns) c b i refs (n # L1) L2 (chunk_nodes endk ns (nkey n) True (i + 1) ?refs)"
      using go(1) by (auto simp: chunk_split_def split: prod.splits if_splits)
    then show ?thesis unfolding eq by blast
  qed
qed (simp add: chunk_split_def)


definition nodes :: "index \<Rightarrow> slnode list" where
  "nodes x = map ((!) (heap x)) (addrs (heap x) (order x))"

definition ahead :: "bytes \<Rightarrow> bool \<Rightarrow> index \<Rightarrow> slnode list" where
  "ahead c b x = filter (\<lambda>n. if b then c < nkey n else c \<le> nkey n) (nodes x)"

lemma nodes_sorted: "index_inv x \<Longrightarrow> sorted_wrt (<) (map nkey (nodes x))"
  by (simp add: nodes_def index_inv_def sl_rep_def o_def)

lemma ahead_sorted: "index_inv x \<Longrightarrow> sorted_wrt (<) (map nkey (ahead c b x))"
  using nodes_sorted [of x] by (simp add: ahead_def sorted_wrt_map sorted_wrt_filter)

lemma chunk_nodes_skip:
  assumes "sorted_wrt (<) (map nkey ns)" and "\<forall>n \<in> set ns. c \<le> nkey n"
  shows "chunk_nodes endk ns c b i refs = chunk_nodes endk (filter (\<lambda>n. if b then c < nkey n else c \<le> nkey n) ns) c b i refs"
proof (cases ns)
  case (Cons n ms)
  have "\<forall>m \<in> set ms. c < nkey m" using assms Cons by fastforce
  then have ms: "filter (\<lambda>n. c < nkey n) ms = ms" by (simp add: filter_id_conv)
  have all: "filter (\<lambda>n. c \<le> nkey n) ns = ns" using assms(2) by (simp add: filter_id_conv)
  show ?thesis
  proof (cases "b \<and> nkey n = c")
    case True
    then show ?thesis using Cons ms by simp
  next
    case False
    then have "b \<Longrightarrow> c < nkey n" using assms(2) Cons by auto
    then show ?thesis using ms all Cons by (cases b) simp_all
  qed
qed simp

lemma scan_chunk_ok:
  assumes "index_inv x"
  obtains res L1 L2 where "scan_chunk endk c b x = Some res"
    and "chunk_split endk (ahead c b x) c b 0 [] L1 L2 res"
proof -
  let ?h = "heap x" and ?as = "addrs (heap x) (order x)"
  have rep: "sl_rep ?h (order x) ?as" using assms by (simp add: index_inv_def)
  have sorted: "sorted_wrt (<) (map (\<lambda>a. nkey (?h ! a)) ?as)" using rep by (simp add: sl_rep_def)
  let ?ns = "map ((!) ?h) (rest ?h c ?as)"
  have ns: "?ns = filter (\<lambda>n. c \<le> nkey n) (nodes x)"
    unfolding rest_filter [OF sorted] nodes_def by (simp add: filter_map o_def)
  obtain p where p: "seek ?h (order x) c = Some (nx ?h 0 p)" "path (nx ?h 0) p (rest ?h c ?as)"
    "\<forall>a \<in> set (p # rest ?h c ?as). a < length ?h \<and> on_level ?h 0 a" by (rule seek_path [OF rep])
  have srt: "sorted_wrt (<) (map nkey ?ns)"
    unfolding ns using nodes_sorted [OF assms] by (simp add: sorted_wrt_map sorted_wrt_filter)
  have ah: "filter (\<lambda>n. if b then c < nkey n else c \<le> nkey n) ?ns = ahead c b x"
    unfolding ns ahead_def filter_filter by (rule filter_cong) auto
  have skip: "chunk_nodes endk ?ns c b 0 [] = chunk_nodes endk (ahead c b x) c b 0 []"
    using chunk_nodes_skip [OF srt, of c endk b] ns unfolding ah by simp
  have "chunk_loop ?h endk (nx ?h 0 p) c b 0 [] = Some (chunk_nodes endk ?ns c b 0 [])"
    using p(2,3) by (intro chunk_loop_path) auto
  then have "scan_chunk endk c b x = Some (chunk_nodes endk (ahead c b x) c b 0 [])"
    using p(1) skip by (simp add: scan_chunk_def)
  moreover have "\<exists>L1 L2. chunk_split endk (ahead c b x) c b 0 [] L1 L2 (chunk_nodes endk (ahead c b x) c b 0 [])"
    using ahead_sorted [OF assms] by (rule chunk_nodes_split) (auto simp: ahead_def)
  ultimately show ?thesis using that by blast
qed

lemma ahead_next:
  assumes "index_inv x" and "ahead c b x = L1 @ L2" and "L1 \<noteq> []"
  shows "ahead (nkey (last L1)) True x = L2"
proof -
  let ?l = "nkey (last L1)"
  have "last L1 \<in> set (ahead c b x)" using assms(2,3) by simp
  then have c: "c \<le> ?l" by (auto simp: ahead_def split: if_splits)
  have "ahead ?l True x = filter (\<lambda>n. ?l < nkey n) (ahead c b x)"
    unfolding ahead_def filter_filter using c by (intro filter_cong) auto
  also have "\<dots> = L2"
  proof -
    have "sorted_wrt (<) (map nkey ((butlast L1 @ [last L1]) @ L2))"
      using ahead_sorted [OF assms(1), of c b] assms(2,3) by simp
    then have "\<forall>n \<in> set (butlast L1 @ [last L1]). \<not> ?l < nkey n" "\<forall>n \<in> set L2. ?l < nkey n"
      by (auto simp: sorted_wrt_append not_less)
    then show ?thesis unfolding assms(2) using assms(3) by (simp add: filter_id_conv filter_empty_conv)
  qed
  finally show ?thesis .
qed

section \<open>Reading the values\<close>

text \<open>A read changes nothing but the pending I/O errors.\<close>

definition after_read :: "store \<Rightarrow> store \<Rightarrow> bool" where
  "after_read s s' \<longleftrightarrow> (\<exists>d. s' = s\<lparr>disk := d\<rparr> \<and> same_disk (disk s) d \<and> (faults (disk s) = [] \<longrightarrow> faults d = []))"

lemma after_read_refl [simp]: "after_read s s"
  by (auto simp: after_read_def same_disk_def intro: exI [of _ "disk s"])

lemma after_read_trans [trans]: "after_read s t \<Longrightarrow> after_read t u \<Longrightarrow> after_read s u"
  by (auto simp: after_read_def same_disk_def)

lemma after_readD:
  assumes "after_read s t"
  shows "ix t = ix s" "logs t = logs s" "files t = files s" "seq t = seq s" "faults (disk s) = [] \<Longrightarrow> faults (disk t) = []"
    and "files_ok (files s) (dfs s) (disk s) \<Longrightarrow> files_ok (files t) (dfs t) (disk t)"
  using assms files_ok_same_disk(1) [of "files s" "dfs s" "disk s"]
  unfolding after_read_def by (auto simp: log_of_def same_disk_def fun_eq_iff split: option.splits)

lemma after_readI:
  "same_disk (disk s) d \<Longrightarrow> (faults (disk s) = [] \<Longrightarrow> faults d = []) \<Longrightarrow> after_read s (s\<lparr>disk := d\<rparr>)"
  by (auto simp: after_read_def)

lemma readRecord_same:
  "readRecord df e d = (r, d') \<Longrightarrow> same_disk d d' \<and> (faults d = [] \<longrightarrow> faults d' = [])"
  by (auto simp: readRecord_def ReadAt_def fault_def Let_def same_disk_def
      split: option.splits prod.splits sum.splits if_splits list.splits nat.splits)

lemma readValue_after: "readValue e s = (r, t) \<Longrightarrow> after_read s t"
proof -
  assume r: "readValue e s = (r, t)"
  show ?thesis
  proof (cases "map_of (files s) (fileID e)")
    case (Some p)
    obtain x d where rr: "readRecord (dfs s ! p) e (disk s) = (x, d)" by fastforce
    then have "t = s\<lparr>disk := d\<rparr>"
      using r Some by (cases x) (auto simp: readValue_def on_disk_def split: if_splits prod.splits)
    then show ?thesis using readRecord_same [OF rr] by (simp add: after_readI)
  qed (use r in \<open>simp add: readValue_def\<close>)
qed

lemma resolve_ok:
  assumes "files_ok (files s) (dfs s) (disk s)" and "stored (logs s) e r" and "\<not> tomb e"
  obtains t where "after_read s t"
    and "resolve (\<lambda>s. s) k e s = (Inr (val r), t) \<or> faults (disk s) \<noteq> [] \<and> resolve (\<lambda>s. s) k e s = (Inl ErrIO, t)"
proof -
  from readValue_stored [OF assms] obtain d where d: "readValue e s =
    (case fault (disk s) of (None, _) \<Rightarrow> Inr (val r) | (Some _, _) \<Rightarrow> Inl ErrIO, s\<lparr>disk := d\<rparr>)" by blast
  have "after_read s (s\<lparr>disk := d\<rparr>)" by (rule readValue_after [OF d])
  moreover obtain y d' where y: "fault (disk s) = (y, d')" by fastforce
  ultimately show ?thesis
    using d that by (cases y) (auto simp: resolve_def fault_def split: list.splits)
qed

section \<open>What a visitor is given\<close>

fun feed :: "'f scan_fn \<Rightarrow> (bytes \<times> bytes) list \<Rightarrow> 'f \<Rightarrow> error option \<times> 'f" where
  "feed fn [] f = (None, f)"
| "feed fn ((k, v) # kvs) f = (case fn k v f of
       (Some er, f) \<Rightarrow> (Some er, f)
     | (None, f) \<Rightarrow> feed fn kvs f)"

lemma feed_append:
  "feed fn (xs @ ys) f = (case feed fn xs f of (Some er, f) \<Rightarrow> (Some er, f) | (None, f) \<Rightarrow> feed fn ys f)"
  by (induction fn xs f rule: feed.induct) (auto split: prod.splits option.splits)

definition lim :: "int \<Rightarrow> nat \<Rightarrow> 'a list \<Rightarrow> 'a list" where
  "lim limit sent xs = (if limit > 0 then take (nat limit - sent) xs else xs)"

lemma lim_Nil [simp]: "lim limit sent [] = []"
  by (simp add: lim_def)

lemma lim_Cons:
  "limit \<le> 0 \<or> int sent < limit \<Longrightarrow> lim limit sent (x # xs) = x # lim limit (Suc sent) xs"
  by (auto simp: lim_def take_Cons')

definition refs_ok :: "store \<Rightarrow> (bytes \<times> entry) list \<Rightarrow> bool" where
  "refs_ok s refs \<longleftrightarrow> (\<forall>(k, e) \<in> set refs. \<not> tomb e \<and> (\<exists>r. stored (logs s) e r))"

definition kvs :: "store \<Rightarrow> (bytes \<times> entry) list \<Rightarrow> (bytes \<times> bytes) list" where
  "kvs s refs = map (\<lambda>(k, e). (k, val (rec_of (logs s) e))) refs"

text \<open>
  The result of handing a visitor the pairs \<open>ws\<close> and then stopping at the end of \<open>xs\<close>, or with a
  read error before it.
\<close>

definition served :: "'f scan_fn \<Rightarrow> (bytes \<times> bytes) list \<Rightarrow> 'a \<Rightarrow> store \<times> 'f \<Rightarrow> (store \<times> 'f, 'a) res \<Rightarrow> bool" where
  "served fn xs a st res \<longleftrightarrow> (case st of (s, f) \<Rightarrow> \<exists>ws t. after_read s t \<and> prefix ws xs \<and>
     (faults (disk s) = [] \<longrightarrow> ws = xs) \<and>
     res = (case feed fn ws f of
         (Some er, f') \<Rightarrow> (Inl er, (t, f'))
       | (None, f') \<Rightarrow> (if ws = xs then Inr a else Inl ErrIO, (t, f'))))"

lemma kvs_after: "after_read s t \<Longrightarrow> kvs t refs = kvs s refs"
  by (simp add: kvs_def after_readD(2))

lemma served_Cons:
  assumes "served fn xs a (t, f') res" and "after_read s t" and "fn k v f = (None, f')"
  shows "served fn ((k, v) # xs) a (s, f) res"
proof -
  obtain ws u where u: "after_read t u" "prefix ws xs" "faults (disk t) = [] \<longrightarrow> ws = xs"
    "res = (case feed fn ws f' of (Some er, f') \<Rightarrow> (Inl er, (u, f'))
       | (None, f') \<Rightarrow> (if ws = xs then Inr a else Inl ErrIO, (u, f')))"
    using assms(1) by (auto simp: served_def)
  then show ?thesis
    using after_read_trans [OF assms(2) u(1)] after_readD(5) [OF assms(2)] assms(3)
    unfolding served_def by (auto intro!: exI [of _ "(k, v) # ws"] exI [of _ u])
qed

lemma send_refs_ok:
  assumes "files_ok (files s) (dfs s) (disk s)" and "refs_ok s refs" and "limit \<le> 0 \<or> int sent < limit"
  shows "served fn (lim limit sent (kvs s refs))
    (let n = sent + length (lim limit sent (kvs s refs)) in (n, limit > 0 \<and> int n \<ge> limit)) (s, f)
    (send_refs (\<lambda>s. s) fn limit refs sent (s, f))"
  using assms
proof (induction refs arbitrary: sent s f)
  case Nil
  then show ?case by (auto simp: served_def kvs_def)
next
  case (Cons x refs)
  obtain k e where x: "x = (k, e)" by fastforce
  obtain r where r: "stored (logs s) e r" "\<not> tomb e" using Cons.prems(2) x by (auto simp: refs_ok_def)
  have W: "kvs s (x # refs) = (k, val r) # kvs s refs" by (simp add: kvs_def x rec_of_stored [OF r(1)])
  have L: "lim limit sent (kvs s (x # refs)) = (k, val r) # lim limit (Suc sent) (kvs s refs)"
    unfolding W by (rule lim_Cons [OF Cons.prems(3)])
  obtain t where t: "after_read s t"
    "resolve (\<lambda>s. s) k e s = (Inr (val r), t) \<or> faults (disk s) \<noteq> [] \<and> resolve (\<lambda>s. s) k e s = (Inl ErrIO, t)"
    by (rule resolve_ok [OF Cons.prems(1) r])
  from t(2) show ?case
  proof
    assume "faults (disk s) \<noteq> [] \<and> resolve (\<lambda>s. s) k e s = (Inl ErrIO, t)"
    then show ?thesis using t(1) unfolding L served_def by (auto simp: x intro!: exI [of _ "[]"] exI [of _ t])
  next
    assume ok: "resolve (\<lambda>s. s) k e s = (Inr (val r), t)"
    obtain o1 f1 where f1: "fn k (val r) f = (o1, f1)" by fastforce
    note eq = kvs_after [OF t(1)]
    show ?thesis
    proof (cases "\<exists>er. o1 = Some er")
      case True
      then show ?thesis using ok f1 t(1) unfolding L served_def
        by (auto simp: x intro!: exI [of _ "(k, val r) # lim limit (Suc sent) (kvs s refs)"] exI [of _ t])
    next
      case False
      then have o1: "o1 = None" by (cases o1) auto
      show ?thesis
      proof (cases "limit > 0 \<and> int (sent + 1) \<ge> limit")
        case True
        then have "lim limit (Suc sent) (kvs s refs) = []" by (simp add: lim_def nat_le_iff)
        then show ?thesis using True ok f1 t(1) unfolding L served_def
          by (auto simp: x o1 intro!: exI [of _ "[(k, val r)]"] exI [of _ t])
      next
        case False
        have IH: "served fn (lim limit (Suc sent) (kvs s refs))
            (let n = Suc sent + length (lim limit (Suc sent) (kvs s refs)) in (n, limit > 0 \<and> int n \<ge> limit)) (t, f1)
            (send_refs (\<lambda>s. s) fn limit refs (Suc sent) (t, f1))"
          using Cons.IH [of t "Suc sent" f1] Cons.prems False after_readD(6) [OF t(1)] eq
          by (auto simp: refs_ok_def after_readD(2) [OF t(1)])
        have "send_refs (\<lambda>s. s) fn limit (x # refs) sent (s, f) = send_refs (\<lambda>s. s) fn limit refs (Suc sent) (t, f1)"
          using False ok f1 by (auto simp: x o1)
        then show ?thesis unfolding L
          using served_Cons [OF IH t(1), of k "val r" f] f1 o1 by simp
      qed
    qed
  qed
qed


section \<open>The whole scan\<close>

lemma lim_append:
  assumes "limit \<le> 0 \<or> int sent < limit" and "n = sent + length (lim limit sent xs)"
  shows "lim limit sent (xs @ ys) = lim limit sent xs @ (if limit > 0 \<and> int n \<ge> limit then [] else lim limit n ys)"
  using assms by (auto simp: lim_def min_def split: if_splits)

lemma served_Inr: "served fn xs a (s, f) (Inr b, (t, f')) \<Longrightarrow> b = a \<and> after_read s t"
proof -
  assume "served fn xs a (s, f) (Inr b, (t, f'))"
  then obtain ws u where u: "after_read s u" "(Inr b, (t, f')) = (case feed fn ws f of (Some er, f') \<Rightarrow> (Inl er, (u, f'))
       | (None, f') \<Rightarrow> (if ws = xs then Inr a else Inl ErrIO, (u, f')))" by (auto simp: served_def)
  obtain o1 f1 where "feed fn ws f = (o1, f1)" by fastforce
  with u show ?thesis by (cases o1) (auto split: if_splits)
qed

lemma served_bind:
  assumes "served fn xs a (s, f) res" and "\<And>t f'. after_read s t \<Longrightarrow> served fn ys c (t, f') (g t f')"
  shows "served fn (xs @ ys) c (s, f) (case res of (Inl er, st) \<Rightarrow> (Inl er, st) | (Inr _, (t, f')) \<Rightarrow> g t f')"
proof -
  obtain ws t where t: "after_read s t" "prefix ws xs" "faults (disk s) = [] \<longrightarrow> ws = xs"
    "res = (case feed fn ws f of (Some er, f') \<Rightarrow> (Inl er, (t, f'))
       | (None, f') \<Rightarrow> (if ws = xs then Inr a else Inl ErrIO, (t, f')))"
    using assms(1) by (auto simp: served_def)
  obtain o1 f1 where f1: "feed fn ws f = (o1, f1)" by fastforce
  consider (visitor) er where "o1 = Some er" | (disk) "o1 = None" "ws \<noteq> xs" | (ok) "o1 = None" "ws = xs"
    by (cases o1) auto
  then show ?thesis
  proof cases
    case visitor
    let ?ws = "if ws = xs then xs @ ys else ws"
    have "feed fn ?ws f = (Some er, f1)" using f1 visitor by (auto simp: feed_append)
    then show ?thesis using t f1 visitor unfolding served_def
      by (auto intro!: exI [of _ ?ws] exI [of _ t])
  next
    case disk
    moreover have "ws \<noteq> xs @ ys" using t(2) disk(2) by (auto simp: prefix_def)
    ultimately show ?thesis using t f1 unfolding served_def by (auto intro!: exI [of _ ws] exI [of _ t])
  next
    case ok
    obtain ws2 u where u: "after_read t u" "prefix ws2 ys" "faults (disk t) = [] \<longrightarrow> ws2 = ys"
      "g t f1 = (case feed fn ws2 f1 of (Some er, f') \<Rightarrow> (Inl er, (u, f'))
         | (None, f') \<Rightarrow> (if ws2 = ys then Inr c else Inl ErrIO, (u, f')))"
      using assms(2) [OF t(1), of f1] by (auto simp: served_def)
    then show ?thesis using t f1 ok after_read_trans [OF t(1) u(1)] after_readD(5) [OF t(1)]
      unfolding served_def by (auto simp: feed_append intro!: exI [of _ "xs @ ws2"] exI [of _ u])
  qed
qed

definition wanted :: "store \<Rightarrow> bytes \<Rightarrow> slnode list \<Rightarrow> (bytes \<times> bytes) list" where
  "wanted s endk ns = kvs s (live_refs (filter (\<lambda>n. endk = [] \<or> nkey n \<le> endk) ns))"

lemma live_refs_ok:
  assumes "index_ok (ix s) (logs s)" and "set L \<subseteq> set (nodes (ix s))"
  shows "refs_ok s (live_refs L)"
proof -
  have "\<exists>r. stored (logs s) (ent n) r" if "n \<in> set L" for n
  proof -
    have "(nkey n, ent n) \<in> set (inorder (ix s))"
      using that assms(2) by (auto simp: nodes_def inorder_def)
    then have "idx_lookup (ix s) (nkey n) = Some (ent n)"
      using assms(1) ix.listing_iff [of "ix s"] by (simp add: index_ok_def)
    then show ?thesis using index_ok_lookup [OF assms(1)] by metis
  qed
  then show ?thesis by (auto simp: refs_ok_def live_refs_def)
qed

lemma scan_chunks_ok:
  assumes "files_ok (files s) (dfs s) (disk s)" and "index_ok (ix s) (logs s)" and "limit \<le> 0 \<or> int sent < limit"
  shows "\<exists>res. scan_chunks (\<lambda>s. s) fn limit endk c b sent (s, f) = Some res \<and>
    served fn (lim limit sent (wanted s endk (ahead c b (ix s)))) () (s, f) res"
  using assms
proof (induction "length (ahead c b (ix s))" arbitrary: c b sent s f rule: less_induct)
  case less
  have inv: "index_inv (ix s)" using less.prems(2) by (simp add: index_ok_def)
  obtain res L1 L2 where chunk: "scan_chunk endk c b (ix s) = Some res"
    "chunk_split endk (ahead c b (ix s)) c b 0 [] L1 L2 res" by (rule scan_chunk_ok [OF inv])
  then obtain c' b' atEnd where res: "res = (c', b', length L1, live_refs L1, atEnd)"
    and L: "ahead c b (ix s) = L1 @ L2" "\<forall>n \<in> set L1. endk = [] \<or> nkey n \<le> endk"
    and c': "L1 \<noteq> [] \<Longrightarrow> c' = nkey (last L1) \<and> b'"
    and fin: "if atEnd then endk \<noteq> [] \<and> (\<forall>n \<in> set L2. endk < nkey n) else L1 \<noteq> [] \<or> L2 = []"
    by (cases res) (auto simp: chunk_split_def split: if_splits)
  have W: "wanted s endk (ahead c b (ix s)) = kvs s (live_refs L1) @ wanted s endk L2"
    using L by (simp add: wanted_def kvs_def filter_id_conv)
  have W2: "wanted s endk L2 = []" if atEnd
    using that fin by (auto simp: wanted_def kvs_def live_refs_def filter_empty_conv)
  show ?case
  proof (cases "L1 = []")
    case True
    then have "wanted s endk L2 = []" using fin W2 by (cases atEnd) (auto simp: wanted_def kvs_def)
    then have "served fn (lim limit sent (wanted s endk (ahead c b (ix s)))) () (s, f) (Inr (), (s, f))"
      unfolding W True by (auto simp: served_def kvs_def)
    then show ?thesis using chunk(1) res True by (simp add: scan_chunks.simps)
  next
    case False
    let ?xs = "lim limit sent (kvs s (live_refs L1))"
    let ?n = "sent + length ?xs"
    let ?stop = "limit > 0 \<and> int ?n \<ge> limit"
    let ?ys = "if ?stop then [] else lim limit ?n (wanted s endk L2)"
    let ?g = "\<lambda>t f'. if ?stop \<or> atEnd then Some (Inr (), (t, f'))
      else scan_chunks (\<lambda>s. s) fn limit endk c' b' ?n (t, f')"
    have next_ok: "\<exists>r. ?g t f' = Some r \<and> served fn ?ys () (t, f') r" if t: "after_read s t" for t f'
    proof (cases "?stop \<or> atEnd")
      case True
      then have "?ys = []" using W2 by auto
      then show ?thesis using True by (auto simp: served_def)
    next
      case go: False
      note tD = after_readD [OF t]
      have a: "ahead c' b' (ix t) = L2" using ahead_next [OF inv L(1) False] c' False tD(1) by simp
      then have "length (ahead c' b' (ix t)) < length (ahead c b (ix s))" using L(1) False by simp
      moreover have "files_ok (files t) (dfs t) (disk t)" using tD(6) less.prems(1) by blast
      moreover have "index_ok (ix t) (logs t)" unfolding tD(1,2) by (rule less.prems(2))
      moreover have "limit \<le> 0 \<or> int ?n < limit" using go by auto
      moreover have "wanted t endk L2 = wanted s endk L2" by (simp add: wanted_def kvs_after [OF t])
      ultimately have "\<exists>r. scan_chunks (\<lambda>s. s) fn limit endk c' b' ?n (t, f') = Some r \<and>
          served fn (lim limit ?n (wanted s endk L2)) () (t, f') r"
        using less.hyps [of c' b' t ?n f'] by (simp add: a)
      moreover have "?g t f' = scan_chunks (\<lambda>s. s) fn limit endk c' b' ?n (t, f')" using go by (rule if_not_P)
      moreover have "?ys = lim limit ?n (wanted s endk L2)" using go by (intro if_not_P) blast
      ultimately show ?thesis by (simp only:)
    qed
    have "refs_ok s (live_refs L1)"
      using L(1) by (intro live_refs_ok less.prems(2)) (auto simp: ahead_def dest!: arg_cong [of _ _ set])
    note sent = send_refs_ok [OF less.prems(1) this less.prems(3), of fn f, unfolded Let_def]
    obtain r st where r: "send_refs (\<lambda>s. s) fn limit (live_refs L1) sent (s, f) = (r, st)"
      by (rule prod.exhaust)
    obtain t f' where st: "st = (t, f')" by fastforce
    define g where "g t f' = the (?g t f')" for t f'
    have g: "?g t f' = Some (g t f')" "served fn ?ys () (t, f') (g t f')" if t: "after_read s t" for t f'
    proof -
      obtain r where r: "?g t f' = Some r" "served fn ?ys () (t, f') r" using next_ok [OF t] by blast
      show "?g t f' = Some (g t f')" "served fn ?ys () (t, f') (g t f')" unfolding g_def r(1) option.sel by (rule refl, rule r(2))
    qed
    have "served fn (?xs @ ?ys) () (s, f) (case (r, st) of (Inl er, st) \<Rightarrow> (Inl er, st) | (Inr _, (t, f')) \<Rightarrow> g t f')"
      by (rule served_bind [OF sent [unfolded r] g(2)])
    moreover have "lim limit sent (wanted s endk (ahead c b (ix s))) = ?xs @ ?ys"
      unfolding W by (rule lim_append [OF less.prems(3) refl])
    moreover have "scan_chunks (\<lambda>s. s) fn limit endk c b sent (s, f) =
      Some (case (r, st) of (Inl er, st) \<Rightarrow> (Inl er, st) | (Inr _, (t, f')) \<Rightarrow> g t f')"
    proof (cases r)
      case (Inl er)
      then show ?thesis using chunk(1) res r st False by (simp add: scan_chunks.simps)
    next
      case (Inr m)
      then have m: "m = (?n, ?stop)" "after_read s t" using served_Inr [OF sent [unfolded r st Inr]] by blast+
      show ?thesis
        unfolding scan_chunks.simps [of _ fn limit endk c b] fst_conv chunk(1) res
        using False g(1) [OF m(2), of f'] by (auto simp: r Inr m(1) st apfst_def map_prod_def split: if_splits)
    qed
    ultimately show ?thesis by simp
  qed
qed


text \<open>The pairs of the map in a range, in key order.\<close>

definition in_range :: "bytes \<Rightarrow> bytes \<Rightarrow> (bytes \<Rightarrow> bytes option) \<Rightarrow> (bytes \<times> bytes) list \<Rightarrow> bool" where
  "in_range start endk m xs \<longleftrightarrow> sorted_wrt (<) (map fst xs) \<and>
     set xs = {(k, v). m k = Some v \<and> start \<le> k \<and> (endk = [] \<or> k \<le> endk)}"

lemma in_range_empty: "endk \<noteq> [] \<Longrightarrow> endk < start \<Longrightarrow> in_range start endk m []"
  by (auto simp: in_range_def)

lemma nodes_lookup:
  assumes "index_inv x"
  shows "(\<exists>n \<in> set (nodes x). nkey n = k \<and> ent n = e) \<longleftrightarrow> idx_lookup x k = Some e"
  unfolding ix.listing_iff [OF assms, symmetric] by (auto simp: nodes_def inorder_def)

lemma wanted_in_range:
  assumes "index_ok (ix s) (logs s)"
  shows "in_range start endk (contents s) (wanted s endk (ahead start False (ix s)))"
proof -
  have inv: "index_inv (ix s)" using assms by (simp add: index_ok_def)
  let ?ns = "filter (\<lambda>n. \<not> tomb (ent n)) (filter (\<lambda>n. endk = [] \<or> nkey n \<le> endk) (ahead start False (ix s)))"
  have w: "wanted s endk (ahead start False (ix s)) = map (\<lambda>n. (nkey n, val (rec_of (logs s) (ent n)))) ?ns"
    by (simp add: wanted_def kvs_def live_refs_def)
  have "sorted_wrt (<) (map fst (wanted s endk (ahead start False (ix s))))"
    unfolding w using nodes_sorted [OF inv] by (simp add: ahead_def o_def sorted_wrt_map sorted_wrt_filter)
  moreover have "(k, v) \<in> set (wanted s endk (ahead start False (ix s))) \<longleftrightarrow>
      contents s k = Some v \<and> start \<le> k \<and> (endk = [] \<or> k \<le> endk)" for k v
  proof -
    have "(k, v) \<in> set (wanted s endk (ahead start False (ix s))) \<longleftrightarrow>
      (\<exists>e. (\<exists>n \<in> set (nodes (ix s)). nkey n = k \<and> ent n = e) \<and> \<not> tomb e \<and> v = val (rec_of (logs s) e) \<and>
         start \<le> k \<and> (endk = [] \<or> k \<le> endk))"
      unfolding w by (auto simp: ahead_def)
    also have "\<dots> \<longleftrightarrow> contents s k = Some v \<and> start \<le> k \<and> (endk = [] \<or> k \<le> endk)"
      unfolding nodes_lookup [OF inv] contents_lookup [OF assms] by (auto split: option.splits)
    finally show ?thesis .
  qed
  ultimately show ?thesis by (auto simp: in_range_def)
qed

lemma Scan_serves:
  assumes "store_ok s"
  obtains xs res where "in_range start endk (contents s) xs" and "Scan start endk limit fn (s, f) = Some res"
    and "served fn (lim limit 0 xs) () (s\<lparr>nScan := nScan s + 1\<rparr>, f) res"
proof -
  let ?s = "s\<lparr>nScan := nScan s + 1\<rparr>"
  have ok: "files_ok (files ?s) (dfs ?s) (disk ?s)" "index_ok (ix ?s) (logs ?s)"
    using assms by (simp_all add: store_ok_def store_inv_def)
  have lim: "limit \<le> 0 \<or> int 0 < limit" by auto
  show ?thesis
  proof (cases "endk \<noteq> [] \<and> start > endk")
    case True
    then have "Scan start endk limit fn (s, f) = Some (Inr (), (?s, f))" by (simp add: Scan_with_def)
    moreover have "served fn (lim limit 0 []) () (?s, f) (Inr (), (?s, f))" by (auto simp: served_def)
    ultimately show ?thesis using that in_range_empty True by blast
  next
    case False
    obtain res where "scan_chunks (\<lambda>s. s) fn limit endk start False 0 (?s, f) = Some res"
      "served fn (lim limit 0 (wanted ?s endk (ahead start False (ix ?s)))) () (?s, f) res"
      using scan_chunks_ok [OF ok lim, of fn endk start False f] by blast
    moreover have "in_range start endk (contents ?s) (wanted ?s endk (ahead start False (ix ?s)))"
      by (rule wanted_in_range [OF ok(2)])
    moreover have "Scan start endk limit fn (s, f) = scan_chunks (\<lambda>s. s) fn limit endk start False 0 (?s, f)"
      using False by (auto simp: Scan_with_def)
    ultimately show ?thesis using that by simp
  qed
qed

lemma feed_collect: "feed (\<lambda>k v out. (None, out @ [(k, v)])) xs out = (None, out @ xs)"
  by (induction xs arbitrary: out) auto

lemma after_read_ok:
  assumes "after_read s t" and "store_ok s"
  shows "store_ok t" and "contents t = contents s"
proof -
  obtain d where d: "t = s\<lparr>disk := d\<rparr>" "same_disk (disk s) d" using assms(1) by (auto simp: after_read_def)
  show "store_ok t"
    using assms(2) store_inv_same_disk [OF _ d(2)] unfolding d(1) by (simp add: store_ok_def seq_ok_def)
  show "contents t = contents s" using after_readD(1,2) [OF assms(1)] by simp
qed

text \<open>
  C17. A range query returns the range: \<open>ScanSlice\<close> ends, and returns the pairs of the map with
  \<open>start \<le> key \<le> end\<close> (no upper bound when \<open>end\<close> is empty), each once, in key order and up to
  the limit, however the index is cut into chunks and however many deleted keys lie between. A
  read error is reported, together with a prefix of that answer. The map does not change.
\<close>

theorem ScanSlice_range:
  assumes "store_ok s"
  shows "\<exists>xs ys r t out. in_range start endk (contents s) xs \<and>
    ys = (if limit > 0 then take (nat limit) xs else xs) \<and>
    ScanSlice start endk limit s = Some (r, (t, out)) \<and>
    (r = Inr () \<and> out = ys \<or> r = Inl ErrIO \<and> faults (disk s) \<noteq> [] \<and> prefix out ys) \<and>
    store_ok t \<and> contents t = contents s"
proof -
  let ?s = "s\<lparr>nScan := nScan s + 1\<rparr>"
  obtain xs res where xs: "in_range start endk (contents s) xs" "ScanSlice start endk limit s = Some res"
    "served (\<lambda>k v out. (None, out @ [(k, v)])) (lim limit 0 xs) () (?s, []) res"
    unfolding ScanSlice_def by (rule Scan_serves [OF assms])
  from xs(3) obtain ws t where t: "after_read ?s t" "prefix ws (lim limit 0 xs)" "faults (disk s) = [] \<longrightarrow> ws = lim limit 0 xs"
    "res = (if ws = lim limit 0 xs then Inr () else Inl ErrIO, (t, ws))"
    by (auto simp: served_def feed_collect)
  have "store_ok ?s" "contents ?s = contents s" using assms by simp_all
  with after_read_ok [OF t(1)] have "store_ok t" "contents t = contents s" by simp_all
  then show ?thesis using xs(1,2) t(2-4) by (auto simp: lim_def)
qed

theorem ScanSlice_range_witness:
  "\<exists>t. ScanSlice [] [] 0 store_ex1 = Some (Inr (), (t, [([0x61], [0x62])])) \<and> contents t = contents store_ex1"
proof -
  obtain xs r t out where x: "in_range [] [] (contents store_ex1) xs" "ScanSlice [] [] 0 store_ex1 = Some (r, (t, out))"
    "r = Inr () \<and> out = xs \<or> r = Inl ErrIO \<and> faults (disk store_ex1) \<noteq> [] \<and> prefix out xs" "contents t = contents store_ex1"
    using ScanSlice_range [OF store_ex1_ok(1), of "[]" "[]" 0] by auto
  have set: "set xs = {([0x61], [0x62])}"
    using x(1) by (auto simp: in_range_def store_ex1_ok(2) split: if_splits)
  have "distinct (map fst xs)" using x(1) strict_sorted_iff by (auto simp: in_range_def)
  then have "length xs = 1" using set distinct_card [of xs] by (simp add: distinct_map)
  then have "xs = [([0x61], [0x62])]" using set by (cases xs) auto
  then show ?thesis using x(2-4) store_ex1_ok(5) by auto
qed

end
