(* ===== verification/Replica.thy ===== *)
theory Replica
  imports Range_Scan
begin

text \<open>
  The replication interface of the store: \<open>Store.ApplyRaw\<close> and \<open>Store.Reset\<close> on the receiving
  side (\<open>internal/engine/store.go\<close>), \<open>Store.RecordsSince\<close>, \<open>Store.rawRecord\<close> and
  \<open>Store.SnapshotRecords\<close> on the sending side (\<open>internal/engine/compact.go\<close>).

  The lemmas show that a replica accepts exactly the byte strings that are runs of valid records
  and otherwise stays as it was, that applying records is insensitive to their order and to
  repetitions, and that a snapshot applied to a reset replica gives it the sender's map.
\<close>

section \<open>Definitions\<close>

definition le32 :: "bytes \<Rightarrow> u32" where
  "le32 b = ucast (b ! 0) OR push_bit 8 (ucast (b ! 1)) OR push_bit 16 (ucast (b ! 2)) OR push_bit 24 (ucast (b ! 3))"

text \<open>The parsing loop of \<open>ApplyRaw\<close>: the records and the highest sequence number.\<close>

function apply_parse :: "bytes \<Rightarrow> nat \<Rightarrow> krecord list \<Rightarrow> u64 \<Rightarrow> error + krecord list \<times> u64" where
  "apply_parse raw off recs mx =
     (if \<not> off < length raw then Inr (recs, mx)
      else if off + recordHeaderSize > length raw then Inl ErrCorrupt
      else
        let keyLen = unat (le32 (drop (off + 21) raw));
            valLen = unat (le32 (drop (off + 25) raw))
        in
        if keyLen = 0 \<or> keyLen > MaxKeySize \<or> valLen > MaxValueSize then Inl ErrCorrupt
        else
          let size = recordHeaderSize + keyLen + valLen in
          if size > length raw - off then Inl ErrCorrupt
          else (case decodeRecord (bslice off (off + size) raw) of
              Inl er \<Rightarrow> Inl er
            | Inr r \<Rightarrow> apply_parse raw (off + size) (recs @ [r]) (if rseq r > mx then rseq r else mx)))"
  by pat_completeness auto
termination
  by (relation "measure (\<lambda>(raw, off, _). length raw - off)") (auto simp: recordHeaderSize_def)

declare apply_parse.simps [simp del]

definition ApplyRaw :: "bytes \<Rightarrow> store \<Rightarrow> (store, u64) res" where
  "ApplyRaw raw s =
     (case apply_parse raw 0 [] 0 of
        Inl er \<Rightarrow> (Inl er, s)
      | Inr (recs, mx) \<Rightarrow>
          if recs = [] then (Inr 0, s)
          else if closed s then (Inl ErrClosed, s)
          else andThen (writeLocked recs s) (\<lambda>_ s.
            (Inr mx, if mx > seq s then s\<lparr>seq := mx\<rparr> else s)))"

text \<open>\<open>Reset\<close>: the errors of removing files and of rewriting the manifest are dropped.\<close>

definition reset_file :: "store \<Rightarrow> u32 \<times> dfptr \<Rightarrow> store" where
  "reset_file s ip = (case ip of (i, p) \<Rightarrow>
     s\<lparr>dfs := (dfs s)[p := close (dfs s ! p)],
       disk := ignore (Remove (hintPath i) (ignore (Remove (dpath (dfs s ! p)) (disk s))))\<rparr>)"

definition Reset :: "store \<Rightarrow> (store, unit) res" where
  "Reset s =
     (if closed s then (Inl ErrClosed, s)
      else
        let s = s\<lparr>ix := new_index (heap (ix s))\<rparr>;
            s = foldl reset_file s (files s);
            s = s\<lparr>files := [], live := 0, total := 0, nLive := 0, seq := 0, mergeSeq := 0\<rparr>;
            s = s\<lparr>disk := ignore (writeManifest 0 (disk s))\<rparr>
        in andThen (openNewActive s) (\<lambda>_ s. (Inr (), s\<lparr>dirty := False\<rparr>)))"

text \<open>
  The senders. A visitor of raw records updates a state of its own and may return an error.
  \<open>RecordsSince\<close> skips a file that is gone by the time it is opened.
\<close>

type_synonym 'f raw_fn = "bytes \<Rightarrow> 'f \<Rightarrow> error option \<times> 'f"

definition since_visitor :: "u64 \<Rightarrow> 'f raw_fn \<Rightarrow> 'f visitor" where
  "since_visitor fromSeq fn _ raw r f = (if rseq r \<le> fromSeq then (None, f) else fn raw f)"

fun since_files :: "u64 \<Rightarrow> 'f raw_fn \<Rightarrow> u32 list \<Rightarrow> fs \<times> 'f \<Rightarrow> (fs \<times> 'f, unit) res" where
  "since_files fromSeq fn [] st = (Inr (), st)"
| "since_files fromSeq fn (i # ids) (d, f) =
     (case scanDataFile i (since_visitor fromSeq fn) f d of ((_, er, f), d) \<Rightarrow>
        (case er of
           None \<Rightarrow> since_files fromSeq fn ids (d, f)
         | Some er \<Rightarrow>
             if er = ErrNotExist then since_files fromSeq fn ids (d, f) else (Inl er, (d, f))))"

definition RecordsSince :: "u64 \<Rightarrow> 'f raw_fn \<Rightarrow> store \<times> 'f \<Rightarrow> (store \<times> 'f, unit) res" where
  "RecordsSince fromSeq fn st = (case st of (s, f) \<Rightarrow>
     if fromSeq < mergeSeq s then (Inl ErrNeedFullSync, (s, f))
     else (case since_files fromSeq fn (sort (map fst (files s))) (disk s, f) of
         (r, (d, f)) \<Rightarrow> (r, (s\<lparr>disk := d\<rparr>, f))))"

text \<open>
  One attempt of \<open>rawRecord\<close>, and the loop of three. As for scans, \<open>env\<close> is what other goroutines
  do to the store while no lock is held.
\<close>

definition raw_attempt :: "entry \<Rightarrow> store \<Rightarrow> bytes option \<times> store" where
  "raw_attempt e s =
     (case map_of (files s) (fileID e) of
        None \<Rightarrow> (None, s)
      | Some p \<Rightarrow>
          (case on_disk (ReadAt (dfile (dfs s ! p)) (unat (esize e)) (pos e)) s of
             (Inl _, s) \<Rightarrow> (None, s)
           | (Inr buf, s) \<Rightarrow>
               (case decodeRecord buf of
                  Inl _ \<Rightarrow> (None, s)
                | Inr _ \<Rightarrow> (Some (clearBatchFlags buf), s))))"

fun raw_loop :: "(store \<Rightarrow> store) \<Rightarrow> nat \<Rightarrow> bytes \<Rightarrow> entry \<Rightarrow> store \<Rightarrow> (store, bytes) res" where
  "raw_loop env 0 k e s = (Inl errFileGone, s)"
| "raw_loop env (Suc n) k e s =
     (case raw_attempt e (env s) of
        (Some raw, s) \<Rightarrow> (Inr raw, s)
      | (None, s) \<Rightarrow> (let s = env s in
          case idx_lookup (ix s) k of
            None \<Rightarrow> (Inl ErrKeyNotFound, s)
          | Some e \<Rightarrow> raw_loop env n k e s))"

definition rawRecord :: "(store \<Rightarrow> store) \<Rightarrow> bytes \<Rightarrow> entry \<Rightarrow> store \<Rightarrow> (store, bytes) res" where
  "rawRecord env = raw_loop env 3"

fun snapshot_refs :: "(store \<Rightarrow> store) \<Rightarrow> 'f raw_fn \<Rightarrow> (bytes \<times> entry) list \<Rightarrow> store \<times> 'f \<Rightarrow> (store \<times> 'f, unit) res" where
  "snapshot_refs env fn [] st = (Inr (), st)"
| "snapshot_refs env fn ((k, e) # refs) (s, f) =
     (case rawRecord env k e s of
        (Inl er, s) \<Rightarrow>
          if er = ErrKeyNotFound \<or> er = errFileGone then snapshot_refs env fn refs (s, f)
          else (Inl er, (s, f))
      | (Inr buf, s) \<Rightarrow> (case fn buf f of
            (Some er, f) \<Rightarrow> (Inl er, (s, f))
          | (None, f) \<Rightarrow> snapshot_refs env fn refs (s, f)))"

text \<open>
  The chunks of a snapshot are collected as those of a scan without an upper end: the loop is the
  same, with the same constants.
\<close>

partial_function (option) snapshot_chunks ::
  "(store \<Rightarrow> store) \<Rightarrow> 'f raw_fn \<Rightarrow> bytes \<Rightarrow> bool \<Rightarrow> store \<times> 'f \<Rightarrow> (store \<times> 'f, unit) res option" where
  "snapshot_chunks env fn cursor exclusive st =
     (case scan_chunk [] cursor exclusive (ix (fst st)) of
        None \<Rightarrow> Some (Inl Panic, st)
      | Some (cursor, exclusive, examined, refs, _) \<Rightarrow>
          if examined = 0 then Some (Inr (), st)
          else (case snapshot_refs env fn refs st of
              (Inl er, st) \<Rightarrow> Some (Inl er, st)
            | (Inr _, st) \<Rightarrow> snapshot_chunks env fn cursor exclusive (apfst env st)))"

definition SnapshotRecords_with ::
  "(store \<Rightarrow> store) \<Rightarrow> 'f raw_fn \<Rightarrow> store \<times> 'f \<Rightarrow> (store \<times> 'f, unit) res option" where
  "SnapshotRecords_with env fn st = snapshot_chunks env fn [] False st"

abbreviation SnapshotRecords :: "'f raw_fn \<Rightarrow> store \<times> 'f \<Rightarrow> (store \<times> 'f, unit) res option" where
  "SnapshotRecords \<equiv> SnapshotRecords_with (\<lambda>s. s)"

section \<open>Parsing\<close>

lemma le32_le_word: "4 \<le> length b \<Longrightarrow> le32 b = le_word (take 4 b)"
proof -
  assume "4 \<le> length b"
  then obtain x y z w r where b: "b = x # y # z # w # r"
    by (auto simp: numeral_eq_Suc Suc_le_length_iff)
  show ?thesis
    by (simp add: b le32_def numeral_eq_Suc push_bit_or push_bit_push_bit)
qed

lemma apply_parse_record:
  assumes "wf_rec r" and "raw = pre @ encode r @ post"
  shows "apply_parse raw (length pre) recs mx =
    apply_parse raw (length pre + rec_size r) (recs @ [r]) (if rseq r > mx then rseq r else mx)"
proof -
  have k: "unat (le32 (drop (length pre + 21) raw)) = length (key r)"
    and v: "unat (le32 (drop (length pre + 25) raw)) = length (val r)"
    using wf_rec_bounds [OF assms(1)] encode_fields(5,6) [of r post]
    by (simp_all add: assms(2) le32_le_word rec_size_def recordHeaderSize_def bslice_def le_word_le_bytes)
  have "\<not> (length (key r) = 0 \<or> length (key r) > MaxKeySize \<or> length (val r) > MaxValueSize)"
    using assms(1) by (auto simp: wf_rec_def)
  moreover have "recordHeaderSize + length (key r) + length (val r) = rec_size r"
    by (simp add: rec_size_def)
  moreover have "bslice (length pre) (length pre + rec_size r) raw = encode r"
    unfolding assms(2) by (rule bslice_mid) simp_all
  moreover have "length pre < length raw" "\<not> length pre + recordHeaderSize > length raw"
      "\<not> rec_size r > length raw - length pre"
    using rec_size_pos [of r] by (simp_all add: assms(2) rec_size_def)
  ultimately show ?thesis
    using wf_rec_bounds(3) [OF assms(1)]
    by (subst apply_parse.simps) (simp add: k v decodeRecord_encode Let_def)
qed

lemma apply_parse_stop:
  assumes "no_record tail" and "raw = pre @ tail" and "tail \<noteq> []"
  shows "apply_parse raw (length pre) recs mx = Inl ErrCorrupt"
proof -
  have "bslice 21 25 tail = take 4 (drop (length pre + 21) raw)" "bslice 25 29 tail = take 4 (drop (length pre + 25) raw)"
    by (simp_all add: assms(2) bslice_def)
  moreover have "bslice (length pre) (length pre + n) raw = take n tail" for n by (simp add: assms(2) bslice_def)
  ultimately show ?thesis
    using no_record_decode [OF assms(1) _ refl refl] assms(2,3)
    by (subst apply_parse.simps) (auto simp: Let_def le32_le_word recordHeaderSize_def not_less)
qed

definition max_seq :: "u64 \<Rightarrow> krecord list \<Rightarrow> u64" where
  "max_seq mx rs = foldl (\<lambda>m r. if rseq r > m then rseq r else m) mx rs"

lemma apply_parse_log:
  assumes "list_all wf_rec rs" and "no_record tail"
  shows "apply_parse (encode_all rs @ tail) 0 [] 0 =
    (if tail = [] then Inr (rs, max_seq 0 rs) else Inl ErrCorrupt)"
proof -
  have "apply_parse raw (length pre) recs mx =
      (if tail = [] then Inr (recs @ rs, max_seq mx rs) else Inl ErrCorrupt)"
    if "raw = pre @ encode_all rs @ tail" for raw pre recs mx
    using assms(1) that
  proof (induction rs arbitrary: pre recs mx)
    case Nil
    then show ?case
      using apply_parse_stop [OF assms(2), of raw pre] by (auto simp: max_seq_def apply_parse.simps [of pre])
  next
    case (Cons r rs)
    have "apply_parse raw (length (pre @ encode r)) (recs @ [r]) (if rseq r > mx then rseq r else mx) =
      (if tail = [] then Inr ((recs @ [r]) @ rs, max_seq (if rseq r > mx then rseq r else mx) rs) else Inl ErrCorrupt)"
      using Cons.prems by (intro Cons.IH) simp_all
    moreover have "apply_parse raw (length pre) recs mx =
        apply_parse raw (length pre + rec_size r) (recs @ [r]) (if rseq r > mx then rseq r else mx)"
      using Cons.prems by (intro apply_parse_record) simp_all
    ultimately show ?case by (simp add: max_seq_def)
  qed
  from this [of "encode_all rs @ tail" "[]" "[]" 0] show ?thesis by simp
qed



section \<open>Applying records\<close>

definition applied :: "krecord list \<Rightarrow> store \<Rightarrow> (store, u64) res \<Rightarrow> bool" where
  "applied recs s res \<longleftrightarrow> (case res of (r, s') \<Rightarrow> store_ok s' \<and> closed s' = closed s \<and>
     (case r of
        Inr m \<Rightarrow> m = max_seq 0 recs \<and> view s' = foldl (newest fst) (view s) (map rec_view recs) \<and>
          seq s' = max (seq s) m
      | Inl er \<Rightarrow> er = ErrIO \<and> view s' = view s \<and> seq s' = seq s))"

lemma max_seq_ge: "mx \<le> max_seq mx rs \<and> (r \<in> set rs \<longrightarrow> rseq r \<le> max_seq mx rs)"
proof (induction rs arbitrary: mx)
  case (Cons x xs)
  have "(if rseq x > mx then rseq x else mx) \<le> max_seq (if rseq x > mx then rseq x else mx) xs"
    "r \<in> set xs \<Longrightarrow> rseq r \<le> max_seq (if rseq x > mx then rseq x else mx) xs"
    using Cons by blast+
  then show ?case by (auto simp: max_seq_def split: if_splits)
qed (simp add: max_seq_def)

lemma foldl_newest_seq_ok:
  assumes "\<forall>k v. m k = Some v \<longrightarrow> fst v \<le> n"
  shows "\<forall>k v. foldl (newest fst) m (map rec_view recs) k = Some v \<longrightarrow> fst v \<le> max n (max_seq 0 recs)"
proof (intro allI impI)
  fix k v
  assume "foldl (newest fst) m (map rec_view recs) k = Some v"
  from foldl_newest_Some [OF this] consider "m k = Some v" | "(k, v) \<in> set (map rec_view recs)" by blast
  then show "fst v \<le> max n (max_seq 0 recs)"
  proof cases
    case 1
    then have "fst v \<le> n" using assms by blast
    then show ?thesis by (rule max.coboundedI1)
  next
    case 2
    then obtain r where "r \<in> set recs" "v = payload r" by (auto simp: rec_view_def)
    then show ?thesis using max_seq_ge [of 0 recs r] by (auto simp: payload_def le_max_iff_disj)
  qed
qed

lemma ApplyRaw_records:
  assumes "store_ok s" and "\<not> closed s" and "list_all wf_rec recs" and "length (encode_all recs) < 2 ^ 32"
  shows "applied recs s (ApplyRaw (encode_all recs) s)"
proof -
  have parse: "apply_parse (encode_all recs) 0 [] 0 = Inr (recs, max_seq 0 recs)"
    using apply_parse_log [OF assms(3), of "[]"] by (simp add: no_record_def)
  have sq: "\<forall>k v. view s k = Some v \<longrightarrow> fst v \<le> seq s" and inv: "store_inv s"
    using assms(1) by (simp_all add: store_ok_def seq_ok_def)
  show ?thesis
  proof (cases "recs = []")
    case True
    then have "ApplyRaw (encode_all recs) s = (Inr 0, s)" using parse by (simp add: ApplyRaw_def)
    then show ?thesis using assms(1) True by (simp add: applied_def max_seq_def)
  next
    case False
    obtain r t where w: "writeLocked recs s = (r, t)" by fastforce
    have "wrote recs (r, t) s" using writeLocked_ok [OF inv False assms(3,4)] by (simp add: w)
    note wr = this [unfolded wrote_def prod.case]
    let ?m = "max_seq 0 recs"
    show ?thesis
    proof (cases r)
      case (Inl er)
      then have "ApplyRaw (encode_all recs) s = (Inl er, t)" using parse False assms(2) w by (simp add: ApplyRaw_def)
      moreover have "er = ErrIO" using writeLocked_error [of recs s er t] w Inl wr by auto
      ultimately show ?thesis using wr Inl sq by (simp add: applied_def store_ok_def seq_ok_def)
    next
      case (Inr u)
      let ?t = "if ?m > seq t then t\<lparr>seq := ?m\<rparr> else t"
      have t: "store_inv t" "view t = foldl (newest fst) (view s) (map rec_view recs)" "seq t = seq s" "closed t = closed s"
        using wr Inr by simp_all
      have "ApplyRaw (encode_all recs) s = (Inr ?m, ?t)" using parse False assms(2) w Inr by (simp add: ApplyRaw_def)
      moreover have "seq ?t = max (seq s) ?m" "view ?t = view t" "closed ?t = closed s" using t(3,4) by (auto simp: max_def)
      moreover have "store_inv ?t" using t(1) by (simp add: store_inv_def)
      ultimately show ?thesis
        using foldl_newest_seq_ok [OF sq, of recs] t(2) by (simp add: applied_def store_ok_def seq_ok_def)
    qed
  qed
qed

lemma ApplyRaw_cases:
  assumes "store_ok s" and "\<not> closed s" and "length raw < 2 ^ 32"
  shows "if \<exists>recs. list_all wf_rec recs \<and> raw = encode_all recs
    then \<exists>recs. list_all wf_rec recs \<and> raw = encode_all recs \<and> applied recs s (ApplyRaw raw s)
    else ApplyRaw raw s = (Inl ErrCorrupt, s)"
proof (cases "\<exists>recs. list_all wf_rec recs \<and> raw = encode_all recs")
  case True
  then obtain recs where "list_all wf_rec recs" "raw = encode_all recs" by blast
  then show ?thesis using ApplyRaw_records [OF assms(1,2), of recs] assms(3) by auto
next
  case False
  obtain rs tail where t: "raw = encode_all rs @ tail" "list_all wf_rec rs" "no_record tail" using log_split by blast
  then have "tail \<noteq> []" using False by auto
  then have "apply_parse raw 0 [] 0 = Inl ErrCorrupt" using apply_parse_log [OF t(2,3)] t(1) by simp
  then have "ApplyRaw raw s = (Inl ErrCorrupt, s)" by (simp add: ApplyRaw_def)
  then show ?thesis unfolding if_not_P [OF False] .
qed

section \<open>Convergence\<close>

text \<open>A replica that applies a sequence of messages, each without an error.\<close>

fun apply_all :: "bytes list \<Rightarrow> store \<Rightarrow> (store, unit) res" where
  "apply_all [] s = (Inr (), s)"
| "apply_all (raw # raws) s = andThen (ApplyRaw raw s) (\<lambda>_ s. apply_all raws s)"

definition carries :: "krecord list list \<Rightarrow> bytes list \<Rightarrow> bool" where
  "carries rss raws \<longleftrightarrow> raws = map encode_all rss \<and>
     list_all (\<lambda>rs. list_all wf_rec rs \<and> length (encode_all rs) < 2 ^ 32) rss"

definition survivor :: "('s, 'a) res \<Rightarrow> 's option" where
  "survivor x = (case x of (Inr _, s) \<Rightarrow> Some s | (Inl _, _) \<Rightarrow> None)"

lemma survivor_andThen: "survivor (andThen x f) = Option.bind (survivor x) (\<lambda>s. survivor (f (projr (fst x)) s))"
  by (cases x; cases "fst x") (auto simp: survivor_def)

interpretation rp: newest_wins "\<lambda>s. store_ok s \<and> \<not> closed s" view "\<lambda>rs s. survivor (ApplyRaw (encode_all rs) s)"
  "\<lambda>rss s. survivor (apply_all (map encode_all rss) s)" "map rec_view"
  "\<lambda>rs. list_all wf_rec rs \<and> length (encode_all rs) < 2 ^ 32" fst
proof unfold_locales
  fix s rs t
  assume s: "store_ok s \<and> \<not> closed s" "list_all wf_rec rs \<and> length (encode_all rs) < 2 ^ 32"
    and t: "survivor (ApplyRaw (encode_all rs) s) = Some t"
  have "applied rs s (ApplyRaw (encode_all rs) s)" using s by (intro ApplyRaw_records) simp_all
  then show "(store_ok t \<and> \<not> closed t) \<and> view t = foldl (newest fst) (view s) (map rec_view rs)"
    using s t by (auto simp: survivor_def applied_def split: prod.splits sum.splits)
qed (simp_all add: survivor_andThen, simp add: survivor_def)

lemma apply_all_survivor: "apply_all raws s = (Inr (), t) \<Longrightarrow> survivor (apply_all raws s) = Some t"
  by (simp add: survivor_def)

lemma apply_all_view:
  assumes "store_ok s" and "\<not> closed s" and "carries rss raws" and "apply_all raws s = (Inr (), t)"
  shows "store_ok t \<and> \<not> closed t \<and> view t = foldl (newest fst) (view s) (map rec_view (concat rss))"
  using rp.apply_state [of s rss t] apply_all_survivor [OF assms(4)] assms(1-3) by (simp add: carries_def map_concat)

section \<open>Reset\<close>

lemma reset_files:
  assumes "t = foldl reset_file s xs"
  shows "\<exists>ds d. t = s\<lparr>dfs := ds, disk := d\<rparr> \<and> length ds = length (dfs s) \<and>
    (\<forall>q < length ds. did (ds ! q) = did (dfs s ! q) \<and>
       (fopen (dfile (ds ! q)) \<longrightarrow> fopen (dfile (dfs s ! q)) \<and> q \<notin> snd ` set xs))"
  using assms
proof (induction xs arbitrary: s)
  case Nil
  then show ?case by (intro exI [of _ "dfs s"] exI [of _ "disk s"]) simp
next
  case (Cons x xs)
  obtain i p where x: "x = (i, p)" by fastforce
  obtain ds d where IH: "t = reset_file s x\<lparr>dfs := ds, disk := d\<rparr>" "length ds = length (dfs (reset_file s x))"
    "\<forall>q < length ds. did (ds ! q) = did (dfs (reset_file s x) ! q) \<and>
       (fopen (dfile (ds ! q)) \<longrightarrow> fopen (dfile (dfs (reset_file s x) ! q)) \<and> q \<notin> snd ` set xs)"
    using Cons.IH [of "reset_file s x"] Cons.prems by auto
  have r: "reset_file s x\<lparr>dfs := ds, disk := d\<rparr> = s\<lparr>dfs := ds, disk := d\<rparr>"
    "dfs (reset_file s x) = (dfs s)[p := close (dfs s ! p)]" by (simp_all add: reset_file_def x)
  have "did ((dfs s)[p := close (dfs s ! p)] ! q) = did (dfs s ! q)"
    "fopen (dfile ((dfs s)[p := close (dfs s ! p)] ! q)) \<longrightarrow> fopen (dfile (dfs s ! q)) \<and> q \<noteq> p"
    if "q < length (dfs s)" for q
    using that by (cases "q = p"; simp add: close_def closeFile_def)+
  then show ?case using IH unfolding r by (intro exI [of _ ds] exI [of _ d]) (auto simp: x)
qed

lemma Reset_empties:
  assumes "store_ok s" and "Reset s = (r, t)" and "\<not> closed s"
  shows "store_ok t" and "view t = Map.empty" and "\<not> closed t" and "r = Inr () \<or> r = Inl ErrIO"
proof -
  let ?s0 = "s\<lparr>ix := new_index (heap (ix s))\<rparr>"
  obtain ds d where f: "foldl reset_file ?s0 (files s) = ?s0\<lparr>dfs := ds, disk := d\<rparr>" "length ds = length (dfs s)"
    "\<forall>q < length ds. did (ds ! q) = did (dfs s ! q) \<and>
       (fopen (dfile (ds ! q)) \<longrightarrow> fopen (dfile (dfs s ! q)) \<and> q \<notin> snd ` set (files s))"
    using reset_files [OF refl, of ?s0 "files s"] by auto
  define u where "u = ?s0\<lparr>dfs := ds, disk := d, files := [], live := 0, total := 0,
    nLive := 0, seq := 0, mergeSeq := 0, disk := ignore (writeManifest 0 d)\<rparr>"
  have Reset: "Reset s = andThen (openNewActive u) (\<lambda>_ s. (Inr (), s\<lparr>dirty := False\<rparr>))"
    using assms(3) f(1) by (simp add: Reset_def Let_def u_def)
  obtain p where p: "active s = Some p" "p < length (dfs s)"
    "\<not> fopen (dfile (dfs s ! p)) \<or> map_of (files s) (did (dfs s ! p)) = Some p"
    using assms(1) by (auto simp: store_ok_def store_inv_def active_ok_def)
  have "\<not> fopen (dfile (ds ! p))" using f(2,3) p(2,3) by (force dest: map_of_SomeD)
  then have inv: "store_inv u"
    using p f(2) new_index_inv [of "heap (ix s)"]
    by (simp add: u_def store_inv_def files_ok_def active_ok_def index_ok_def counts_ok_def lookup_new_index)
  have empty: "view u = Map.empty" by (simp add: u_def view_of_def lookup_new_index fun_eq_iff)
  obtain r1 t1 where o1: "openNewActive u = (r1, t1)" by fastforce
  note ok = openNewActive_ok [OF inv o1]
  then have t1: "store_inv t1" "view t1 = Map.empty" "closed t1 = closed s" "seq t1 = 0"
    using empty unfolding quiet_def by (simp_all add: u_def)
  have "t = t1 \<or> t = t1\<lparr>dirty := False\<rparr>" "r = Inr () \<or> r = Inl ErrIO"
    using assms(2) openNewActive_error [of u _ t1] unfolding Reset o1 by (cases r1; auto)+
  then show "store_ok t" "view t = Map.empty" "\<not> closed t" "r = Inr () \<or> r = Inl ErrIO"
    using t1 assms(3) by (auto simp: store_ok_def seq_ok_def store_inv_def)
qed


section \<open>Snapshots\<close>

text \<open>A record as it is shipped alone, and what a snapshot ships for a list of locators.\<close>

definition lone :: "krecord \<Rightarrow> krecord" where
  "lone r = r\<lparr>flags := flags r AND NOT batch_flags\<rparr>"

definition lone_recs :: "store \<Rightarrow> (bytes \<times> entry) list \<Rightarrow> krecord list" where
  "lone_recs s refs = map (\<lambda>(k, e). lone (rec_of (logs s) e)) refs"

definition shipment :: "store \<Rightarrow> (bytes \<times> entry) list \<Rightarrow> (bytes \<times> bytes) list" where
  "shipment s refs = map (\<lambda>(k, e). (k, encode (lone (rec_of (logs s) e)))) refs"

definition indexed :: "store \<Rightarrow> (bytes \<times> entry) list \<Rightarrow> bool" where
  "indexed s refs \<longleftrightarrow> (\<forall>(k, e) \<in> set refs. idx_lookup (ix s) k = Some e \<and> (\<exists>r. stored (logs s) e r))"

lemma raw_attempt_ok:
  assumes "files_ok (files s) (dfs s) (disk s)" and "stored (logs s) e r" and "raw_attempt e s = (x, t)"
  shows "after_read s t" and "x = Some (encode (lone r)) \<or> x = None \<and> faults (disk s) \<noteq> []"
proof -
  have sz: "rec_size r \<le> length (logs s (fileID e))" using assms(2) by (simp add: stored_def)
  then have "logs s (fileID e) \<noteq> []" using rec_size_pos [of r] by (cases "logs s (fileID e)") auto
  then obtain p where p: "map_of (files s) (fileID e) = Some p" by (auto simp: log_of_def split: option.splits)
  note ok = files_okD [OF assms(1) p]
  let ?c = "content (the_file (disk s) (dfile (dfs s ! p)))"
  have log: "logs s (fileID e) = take (dsize (dfs s ! p)) ?c" by (simp add: log_of_def p the_file_def)
  have c: "bslice (pos e) (pos e + rec_size r) ?c = encode r" "pos e + rec_size r \<le> length ?c"
    using assms(2) bslice_take [of "pos e + rec_size r" "dsize (dfs s ! p)" "pos e" ?c]
    by (simp_all add: stored_def log)
  obtain y d where y: "ReadAt (dfile (dfs s ! p)) (unat (esize e)) (pos e) (disk s) = (y, d)" by fastforce
  have d: "same_disk (disk s) d" "faults (disk s) = [] \<Longrightarrow> faults d = []" "y = Inr (encode r) \<or> y = Inl ErrIO \<and> faults (disk s) \<noteq> []"
    using y ok(3) c stored_size [OF assms(2)]
    by (auto simp: ReadAt_def fault_def same_disk_def Let_def the_file_def split: if_splits list.splits nat.splits)
  have dec: "decodeRecord (encode r) = Inr r"
    using wf_rec_bounds(3) [of r] assms(2) by (simp add: stored_def decodeRecord_encode)
  show "after_read s t"
    using assms(3) p y d(3) dec after_readI [OF d(1,2)] by (auto simp: raw_attempt_def on_disk_def)
  show "x = Some (encode (lone r)) \<or> x = None \<and> faults (disk s) \<noteq> []"
    using assms(3) p y d(3) dec by (auto simp: raw_attempt_def on_disk_def clearBatchFlags_encode lone_def)
qed

lemma raw_loop_ok:
  assumes "files_ok (files s) (dfs s) (disk s)" and "stored (logs s) e r" and "idx_lookup (ix s) k = Some e" and "0 < n"
  shows "\<exists>t. after_read s t \<and>
    (raw_loop (\<lambda>s. s) n k e s = (Inr (encode (lone r)), t) \<or>
     raw_loop (\<lambda>s. s) n k e s = (Inl errFileGone, t) \<and> faults (disk s) \<noteq> [])"
  using assms
proof (induction n arbitrary: s)
  case (Suc n)
  obtain x t where x: "raw_attempt e s = (x, t)" by fastforce
  note a = raw_attempt_ok [OF Suc.prems(1,2) x]
  from a(2) show ?case
  proof
    assume "x = Some (encode (lone r))"
    then show ?thesis using a(1) x by auto
  next
    assume N: "x = None \<and> faults (disk s) \<noteq> []"
    note tD = after_readD [OF a(1)]
    have step: "raw_loop (\<lambda>s. s) (Suc n) k e s = raw_loop (\<lambda>s. s) n k e t"
      using x N Suc.prems(3) tD(1) by simp
    show ?thesis
    proof (cases n)
      case 0
      then show ?thesis using step a(1) N by auto
    next
      case (Suc m)
      have "\<exists>u. after_read t u \<and> (raw_loop (\<lambda>s. s) n k e t = (Inr (encode (lone r)), u) \<or>
          raw_loop (\<lambda>s. s) n k e t = (Inl errFileGone, u) \<and> faults (disk t) \<noteq> [])"
        using tD(6) Suc.prems Suc by (intro Suc.IH) (simp_all only: tD(1,2) zero_less_Suc)
      then show ?thesis using step after_read_trans [OF a(1)] N by metis
    qed
  qed
qed simp


text \<open>
  The result of shipping \<open>xs\<close>: with read errors on the way some records may be left out, which is
  not reported.
\<close>

definition shipped :: "'f raw_fn \<Rightarrow> (bytes \<times> bytes) list \<Rightarrow> store \<times> 'f \<Rightarrow> (store \<times> 'f, unit) res \<Rightarrow> bool" where
  "shipped fn xs st res \<longleftrightarrow> (case st of (s, f) \<Rightarrow> \<exists>ws t. after_read s t \<and> subseq ws xs \<and>
     (faults (disk s) = [] \<longrightarrow> ws = xs) \<and>
     res = (case feed (\<lambda>_. fn) ws f of (Some er, f') \<Rightarrow> (Inl er, (t, f')) | (None, f') \<Rightarrow> (Inr (), (t, f'))))"

lemma shipped_Nil: "after_read s t \<Longrightarrow> shipped fn [] (s, f) (Inr (), (t, f))"
  by (auto simp: shipped_def intro!: exI [of _ "[]"] exI [of _ t])

lemma shipped_after:
  assumes "shipped fn xs (s, f) (r, (t, f'))"
  shows "after_read s t"
proof -
  obtain ws u where u: "after_read s u" "(r, (t, f')) = (case feed (\<lambda>_. fn) ws f of
      (Some er, f') \<Rightarrow> (Inl er, (u, f')) | (None, f') \<Rightarrow> (Inr (), (u, f')))"
    using assms by (auto simp: shipped_def)
  obtain o1 f1 where "feed (\<lambda>_. fn) ws f = (o1, f1)" by fastforce
  with u show ?thesis by (cases o1) auto
qed

lemma shipped_bind:
  assumes "shipped fn xs (s, f) res" and "\<And>t f'. after_read s t \<Longrightarrow> shipped fn ys (t, f') (g t f')"
  shows "shipped fn (xs @ ys) (s, f) (case res of (Inl er, st) \<Rightarrow> (Inl er, st) | (Inr _, (t, f')) \<Rightarrow> g t f')"
proof -
  obtain ws t where t: "after_read s t" "subseq ws xs" "faults (disk s) = [] \<longrightarrow> ws = xs"
    "res = (case feed (\<lambda>_. fn) ws f of (Some er, f') \<Rightarrow> (Inl er, (t, f')) | (None, f') \<Rightarrow> (Inr (), (t, f')))"
    using assms(1) by (auto simp: shipped_def)
  obtain o1 f1 where f1: "feed (\<lambda>_. fn) ws f = (o1, f1)" by fastforce
  show ?thesis
  proof (cases o1)
    case (Some er)
    have "feed (\<lambda>_. fn) (ws @ ys) f = (Some er, f1)" using f1 Some by (simp add: feed_append)
    then show ?thesis using t f1 Some list_emb_append_mono [OF t(2) subseq_order.refl, of ys]
      unfolding shipped_def by (auto intro!: exI [of _ "ws @ ys"] exI [of _ t])
  next
    case None
    obtain ws2 u where u: "after_read t u" "subseq ws2 ys" "faults (disk t) = [] \<longrightarrow> ws2 = ys"
      "g t f1 = (case feed (\<lambda>_. fn) ws2 f1 of (Some er, f') \<Rightarrow> (Inl er, (u, f')) | (None, f') \<Rightarrow> (Inr (), (u, f')))"
      using assms(2) [OF t(1), of f1] by (auto simp: shipped_def)
    then show ?thesis
      using t f1 None after_read_trans [OF t(1) u(1)] after_readD(5) [OF t(1)] list_emb_append_mono [OF t(2) u(2)]
      unfolding shipped_def by (auto simp: feed_append intro!: exI [of _ "ws @ ws2"] exI [of _ u])
  qed
qed

lemma shipment_after: "after_read s t \<Longrightarrow> shipment t refs = shipment s refs"
  by (simp add: shipment_def after_readD(2))

lemma indexed_after: "after_read s t \<Longrightarrow> indexed t refs = indexed s refs"
  by (simp only: indexed_def after_readD(1,2))

lemma snapshot_refs_ok:
  assumes "files_ok (files s) (dfs s) (disk s)" and "indexed s refs"
  shows "shipped fn (shipment s refs) (s, f) (snapshot_refs (\<lambda>s. s) fn refs (s, f))"
  using assms
proof (induction refs arbitrary: s f)
  case Nil
  then show ?case by (simp add: shipment_def shipped_Nil)
next
  case (Cons x refs)
  obtain k e where x: "x = (k, e)" by fastforce
  obtain r where r: "stored (logs s) e r" "idx_lookup (ix s) k = Some e" using Cons.prems(2) x by (auto simp: indexed_def)
  let ?raw = "encode (lone r)"
  have W: "shipment s (x # refs) = [(k, ?raw)] @ shipment s refs"
    by (simp add: shipment_def x rec_of_stored [OF r(1)])
  obtain t where t: "after_read s t" "rawRecord (\<lambda>s. s) k e s = (Inr ?raw, t) \<or>
      rawRecord (\<lambda>s. s) k e s = (Inl errFileGone, t) \<and> faults (disk s) \<noteq> []"
    using raw_loop_ok [OF Cons.prems(1) r, of 3] by (auto simp: rawRecord_def)
  let ?one = "case rawRecord (\<lambda>s. s) k e s of
      (Inl er, s) \<Rightarrow> (Inr (), (s, f))
    | (Inr buf, s) \<Rightarrow> (case fn buf f of (Some er, f) \<Rightarrow> (Inl er, (s, f)) | (None, f) \<Rightarrow> (Inr (), (s, f)))"
  have one: "shipped fn [(k, ?raw)] (s, f) ?one"
    using t(2)
  proof
    assume ok: "rawRecord (\<lambda>s. s) k e s = (Inr ?raw, t)"
    obtain o1 f1 where "fn ?raw f = (o1, f1)" by fastforce
    then show ?thesis unfolding shipped_def
      using ok t(1) by (cases o1) (auto intro!: exI [of _ "[(k, ?raw)]"] exI [of _ t])
  next
    assume "rawRecord (\<lambda>s. s) k e s = (Inl errFileGone, t) \<and> faults (disk s) \<noteq> []"
    then show ?thesis unfolding shipped_def using t(1) by (auto intro!: exI [of _ "[]"] exI [of _ t])
  qed
  have rest: "shipped fn (shipment s refs) (t, f') (snapshot_refs (\<lambda>s. s) fn refs (t, f'))"
    if t: "after_read s t" for t f'
  proof -
    have "indexed t refs" using Cons.prems(2) unfolding indexed_after [OF t] by (simp add: indexed_def)
    then show ?thesis using Cons.IH [of t f'] after_readD(6) [OF t Cons.prems(1)] by (simp add: shipment_after [OF t])
  qed
  have "snapshot_refs (\<lambda>s. s) fn (x # refs) (s, f) =
      (case ?one of (Inl er, st) \<Rightarrow> (Inl er, st) | (Inr _, (t, f')) \<Rightarrow> snapshot_refs (\<lambda>s. s) fn refs (t, f'))"
    using t(2)
  proof
    assume ok: "rawRecord (\<lambda>s. s) k e s = (Inr ?raw, t)"
    obtain o1 f1 where "fn ?raw f = (o1, f1)" by fastforce
    with ok show ?thesis by (cases o1) (simp_all add: x)
  qed (simp add: x)
  then show ?case unfolding W using shipped_bind [OF one rest] by simp
qed

lemma live_refs_indexed:
  assumes "index_ok (ix s) (logs s)" and "set L \<subseteq> set (nodes (ix s))"
  shows "indexed s (live_refs L)"
proof -
  have inv: "index_inv (ix s)" using assms(1) by (simp add: index_ok_def)
  have "idx_lookup (ix s) (nkey n) = Some (ent n)" if "n \<in> set L" for n
    using nodes_lookup [OF inv, of "nkey n" "ent n"] that assms(2) by auto
  then have "idx_lookup (ix s) (nkey n) = Some (ent n) \<and> (\<exists>r. stored (logs s) (ent n) r)" if "n \<in> set L" for n
    using that assms(1) unfolding index_ok_def by blast
  then show ?thesis by (auto simp: indexed_def live_refs_def)
qed

lemma snapshot_chunks_ok:
  assumes "files_ok (files s) (dfs s) (disk s)" and "index_ok (ix s) (logs s)"
  shows "\<exists>res. snapshot_chunks (\<lambda>s. s) fn c b (s, f) = Some res \<and>
    shipped fn (shipment s (live_refs (ahead c b (ix s)))) (s, f) res"
  using assms
proof (induction "length (ahead c b (ix s))" arbitrary: c b s f rule: less_induct)
  case less
  have inv: "index_inv (ix s)" using less.prems(2) by (simp add: index_ok_def)
  obtain res L1 L2 where chunk: "scan_chunk [] c b (ix s) = Some res"
    "chunk_split [] (ahead c b (ix s)) c b 0 [] L1 L2 res" by (rule scan_chunk_ok [OF inv])
  then obtain c' b' where res: "res = (c', b', length L1, live_refs L1, False)"
    and L: "ahead c b (ix s) = L1 @ L2" and c': "L1 \<noteq> [] \<Longrightarrow> c' = nkey (last L1) \<and> b'"
    and fin: "L1 \<noteq> [] \<or> L2 = []"
    by (cases res) (auto simp: chunk_split_def split: if_splits)
  have W: "shipment s (live_refs (ahead c b (ix s))) = shipment s (live_refs L1) @ shipment s (live_refs L2)"
    by (simp add: L shipment_def)
  show ?case
  proof (cases "L1 = []")
    case True
    then show ?thesis using chunk(1) res fin W by (simp add: snapshot_chunks.simps shipment_def shipped_Nil)
  next
    case False
    define g where "g t f' = the (snapshot_chunks (\<lambda>s. s) fn c' b' (t, f'))" for t f'
    have g: "snapshot_chunks (\<lambda>s. s) fn c' b' (t, f') = Some (g t f')"
        "shipped fn (shipment s (live_refs L2)) (t, f') (g t f')" if t: "after_read s t" for t f'
    proof -
      note tD = after_readD [OF t]
      have a: "ahead c' b' (ix t) = L2" using ahead_next [OF inv L False] c' False tD(1) by simp
      have "\<exists>r. snapshot_chunks (\<lambda>s. s) fn c' b' (t, f') = Some r \<and>
          shipped fn (shipment t (live_refs (ahead c' b' (ix t)))) (t, f') r"
        using less.prems tD(6) L False a by (intro less.hyps) (simp_all add: tD(1,2) del: log_of_def)
      then show "snapshot_chunks (\<lambda>s. s) fn c' b' (t, f') = Some (g t f')"
          "shipped fn (shipment s (live_refs L2)) (t, f') (g t f')"
        unfolding g_def a shipment_after [OF t] by auto
    qed
    have "indexed s (live_refs L1)"
      using L by (intro live_refs_indexed less.prems(2)) (auto simp: ahead_def dest!: arg_cong [of _ _ set])
    note sent = snapshot_refs_ok [OF less.prems(1) this, of fn f]
    obtain r t f' where r: "snapshot_refs (\<lambda>s. s) fn (live_refs L1) (s, f) = (r, (t, f'))" by (metis prod.exhaust)
    have "shipped fn (shipment s (live_refs (ahead c b (ix s)))) (s, f)
        (case (r, (t, f')) of (Inl er, st) \<Rightarrow> (Inl er, st) | (Inr _, (t, f')) \<Rightarrow> g t f')"
      unfolding W by (rule shipped_bind [OF sent [unfolded r] g(2)])
    moreover have "after_read s t" using sent unfolding r by (rule shipped_after)
    then have "snapshot_chunks (\<lambda>s. s) fn c b (s, f) =
        Some (case (r, (t, f')) of (Inl er, st) \<Rightarrow> (Inl er, st) | (Inr _, (t, f')) \<Rightarrow> g t f')"
      unfolding snapshot_chunks.simps [of _ fn c b] fst_conv chunk(1) res
      using False g(1) by (cases r) (simp_all add: r apfst_def map_prod_def)
    ultimately show ?thesis by blast
  qed
qed


text \<open>The whole snapshot, collected by the receiver.\<close>

abbreviation collect_raw :: "bytes list raw_fn" where
  "collect_raw \<equiv> \<lambda>raw out. (None, out @ [raw])"

definition snapshot_recs :: "store \<Rightarrow> krecord list" where
  "snapshot_recs s = lone_recs s (live_refs (nodes (ix s)))"

lemma feed_raw: "feed (\<lambda>_. collect_raw) xs out = (None, out @ map snd xs)"
  by (induction xs arbitrary: out) auto

lemma shipment_raws: "map snd (shipment s refs) = map encode (lone_recs s refs)"
  by (simp add: shipment_def lone_recs_def split_beta comp_def)

lemma SnapshotRecords_feeds:
  assumes "store_ok s" and "faults (disk s) = []"
  obtains t xs where "after_read s t" and "map snd xs = map encode (snapshot_recs s)"
    and "SnapshotRecords fn (s, f) = Some (case feed (\<lambda>_. fn) xs f of
      (Some er, f') \<Rightarrow> (Inl er, (t, f')) | (None, f') \<Rightarrow> (Inr (), (t, f')))"
proof -
  have ok: "files_ok (files s) (dfs s) (disk s)" "index_ok (ix s) (logs s)"
    using assms(1) by (simp_all add: store_ok_def store_inv_def)
  obtain res where res: "snapshot_chunks (\<lambda>s. s) fn [] False (s, f) = Some res"
    "shipped fn (shipment s (live_refs (ahead [] False (ix s)))) (s, f) res"
    using snapshot_chunks_ok [OF ok, of fn "[]" False f] by blast
  have "ahead [] False (ix s) = nodes (ix s)" by (simp add: ahead_def)
  with res(2) assms(2) obtain t where "after_read s t"
    "res = (case feed (\<lambda>_. fn) (shipment s (live_refs (nodes (ix s)))) f of
       (Some er, f') \<Rightarrow> (Inl er, (t, f')) | (None, f') \<Rightarrow> (Inr (), (t, f')))"
    by (auto simp: shipped_def)
  then show ?thesis
    using that [of t "shipment s (live_refs (nodes (ix s)))"] res(1)
    by (simp add: SnapshotRecords_with_def snapshot_recs_def shipment_raws)
qed

lemma SnapshotRecords_sends:
  assumes "store_ok s" and "faults (disk s) = []"
  obtains t where "SnapshotRecords collect_raw (s, []) = Some (Inr (), (t, map encode (snapshot_recs s)))"
    and "after_read s t"
  by (rule SnapshotRecords_feeds [OF assms, of collect_raw "[]"]) (use that in \<open>simp add: feed_raw\<close>)

lemma tombstone_lone [simp]: "tombstone (lone r) = tombstone r"
proof -
  have "(flags r AND NOT (flagBatch OR flagBatchEnd)) AND flagTombstone = flags r AND flagTombstone"
    by (simp add: record_consts and.assoc)
  then show ?thesis by (simp add: tombstone_def lone_def)
qed

lemma lone_simps [simp]: "key (lone r) = key r" "val (lone r) = val r" "rseq (lone r) = rseq r" "wf_rec (lone r) = wf_rec r"
  by (simp_all add: lone_def wf_rec_def)

lemma payload_lone [simp]: "payload (lone r) = payload r"
  by (simp add: payload_def)

lemma snapshot_recs_mem:
  assumes "index_ok (ix s) (logs s)"
  shows "r \<in> set (snapshot_recs s) \<longleftrightarrow>
    (\<exists>k e q. idx_lookup (ix s) k = Some e \<and> \<not> tomb e \<and> stored (logs s) e q \<and> key q = k \<and> r = lone q)"
proof -
  have inv: "index_inv (ix s)" using assms by (simp add: index_ok_def)
  have "r \<in> set (snapshot_recs s) \<longleftrightarrow> (\<exists>k e. (\<exists>n \<in> set (nodes (ix s)). nkey n = k \<and> ent n = e) \<and> \<not> tomb e \<and> r = lone (rec_of (logs s) e))"
    by (auto simp: snapshot_recs_def lone_recs_def live_refs_def)
  also have "\<dots> \<longleftrightarrow> (\<exists>k e. idx_lookup (ix s) k = Some e \<and> \<not> tomb e \<and> r = lone (rec_of (logs s) e))"
    unfolding nodes_lookup [OF inv] ..
  also have "\<dots> \<longleftrightarrow> (\<exists>k e q. idx_lookup (ix s) k = Some e \<and> \<not> tomb e \<and> stored (logs s) e q \<and> key q = k \<and> r = lone q)"
    using assms by (auto simp: rec_of_stored index_ok_def) (use rec_of_stored in blast)+
  finally show ?thesis .
qed

lemma snapshot_recs_contents:
  assumes "index_ok (ix s) (logs s)"
  shows "contents_of (foldl (newest fst) Map.empty (map rec_view (snapshot_recs s))) = contents s"
proof
  fix k
  let ?m = "foldl (newest fst) Map.empty (map rec_view (snapshot_recs s))"
  have mem: "(k, v) \<in> set (map rec_view (snapshot_recs s)) \<longleftrightarrow>
      (\<exists>e. idx_lookup (ix s) k = Some e \<and> \<not> tomb e \<and> v = payload (rec_of (logs s) e))" for v
  proof
    assume "(k, v) \<in> set (map rec_view (snapshot_recs s))"
    then obtain r where "r \<in> set (snapshot_recs s)" "k = key r" "v = payload r" by (auto simp: rec_view_def)
    then show "\<exists>e. idx_lookup (ix s) k = Some e \<and> \<not> tomb e \<and> v = payload (rec_of (logs s) e)"
      unfolding snapshot_recs_mem [OF assms] by (auto simp: rec_of_stored)
  next
    assume "\<exists>e. idx_lookup (ix s) k = Some e \<and> \<not> tomb e \<and> v = payload (rec_of (logs s) e)"
    then obtain e where e: "idx_lookup (ix s) k = Some e" "\<not> tomb e" "v = payload (rec_of (logs s) e)" by blast
    obtain q where q: "stored (logs s) e q" "key q = k" "rec_of (logs s) e = q" by (rule index_ok_lookup [OF assms e(1)])
    then have "lone q \<in> set (snapshot_recs s)" unfolding snapshot_recs_mem [OF assms] using e by blast
    moreover have "rec_view (lone q) = (k, v)" using q e(3) by (simp add: rec_view_def)
    ultimately show "(k, v) \<in> set (map rec_view (snapshot_recs s))" by force
  qed
  have K: "k \<in> fst ` X \<longleftrightarrow> (\<exists>v. (k, v) \<in> X)" for X :: "(bytes \<times> u64 \<times> bytes option) set" by force
  show "contents_of ?m k = contents s k"
  proof (cases "\<exists>e. idx_lookup (ix s) k = Some e \<and> \<not> tomb e")
    case False
    then have "k \<notin> fst ` set (map rec_view (snapshot_recs s))" unfolding K mem by blast
    then have "?m k = None" unfolding foldl_newest_None by blast
    moreover have "contents s k = None" unfolding contents_lookup [OF assms] using False by (auto split: option.splits)
    ultimately show ?thesis by (simp add: contents_of_def)
  next
    case True
    then obtain e where e: "idx_lookup (ix s) k = Some e" "\<not> tomb e" by blast
    then have "(k, payload (rec_of (logs s) e)) \<in> set (map rec_view (snapshot_recs s))" using mem by blast
    then have "?m k \<noteq> None" unfolding foldl_newest_None K by blast
    then obtain v where v: "?m k = Some v" by blast
    have "(k, v) \<in> set (map rec_view (snapshot_recs s))" using foldl_newest_Some [OF v] by blast
    then have "v = payload (rec_of (logs s) e)" unfolding mem using e by auto
    moreover obtain r where "stored (logs s) e r" "rec_of (logs s) e = r" by (rule index_ok_lookup [OF assms e(1)])
    then have "\<not> tombstone (rec_of (logs s) e)" using e(2) by (simp add: stored_def)
    ultimately show ?thesis
      unfolding contents_lookup [OF assms] using v e by (simp add: contents_of_def payload_def)
  qed
qed

lemma snapshot_carries:
  assumes "index_ok (ix s) (logs s)"
  shows "carries (map (\<lambda>r. [r]) (snapshot_recs s)) (map encode (snapshot_recs s))"
proof -
  have "wf_rec r" if "r \<in> set (snapshot_recs s)" for r
    using that unfolding snapshot_recs_mem [OF assms] by (auto simp: stored_def)
  then show ?thesis using wf_rec_single by (auto simp: carries_def list_all_iff)
qed

section \<open>Properties\<close>

text \<open>
  C26. \<open>ApplyRaw\<close> takes what is a run of valid records and nothing else: if the message is not the
  concatenation of valid record encodings (a torn, damaged or oversized record anywhere, an empty
  key), it is rejected with \<open>ErrCorrupt\<close> and the store is not touched; otherwise either an I/O
  error is reported and the map is as before, or every record has been offered to the index,
  newest sequence number per key, and the store's sequence number is at least theirs.
\<close>

theorem ApplyRaw_refines:
  assumes "store_ok s" and "\<not> closed s" and "length raw < 2 ^ 32"
  shows "if \<exists>recs. list_all wf_rec recs \<and> raw = encode_all recs
    then \<exists>recs. list_all wf_rec recs \<and> raw = encode_all recs \<and> applied recs s (ApplyRaw raw s)
    else ApplyRaw raw s = (Inl ErrCorrupt, s)"
  using assms by (rule ApplyRaw_cases)

theorem ApplyRaw_refines_witness: "ApplyRaw [7, 7] store_ex = (Inl ErrCorrupt, store_ex)"
proof -
  have "[7, 7] \<noteq> encode_all recs" for recs
  proof (cases recs)
    case (Cons r rs)
    then have "2 < length (encode_all recs)" using rec_size_def [of r] by (simp add: recordHeaderSize_def)
    then show ?thesis by (metis length_Cons list.size(3) less_irrefl numeral_2_eq_2)
  qed simp
  then show ?thesis using ApplyRaw_refines [OF store_ex_ok store_ex_calm(2), of "[7, 7]"] by simp
qed

text \<open>
  C4. Replicas converge: two stores with the same map of versions that apply messages carrying the
  same set of records, split into messages differently, in different orders and with repetitions,
  end with the same version of every key, hence the same map. (Two records of one key with one
  sequence number are the same record.)
\<close>

theorem replicas_converge:
  assumes "store_ok s1" "\<not> closed s1" "store_ok s2" "\<not> closed s2" "view s1 = view s2"
    and "carries rss1 raws1" "carries rss2 raws2" "set (concat rss1) = set (concat rss2)"
    and "ranked fst (set (map rec_view (concat rss1)))"
    and "apply_all raws1 s1 = (Inr (), t1)" "apply_all raws2 s2 = (Inr (), t2)"
  shows "view t1 = view t2 \<and> contents t1 = contents t2"
proof -
  have "view t1 = view t2"
    using rp.converge [of s1 s2 rss1 rss2 t1 t2] assms(1-9) apply_all_survivor [OF assms(10)] apply_all_survivor [OF assms(11)]
    by (simp add: carries_def flip: map_concat)
  then show ?thesis by simp
qed

text \<open>
  C14. A full resync copies the map: without read errors on the sender, \<open>SnapshotRecords\<close> ends
  successfully, and a replica that resets itself and then applies the records it was sent, all
  without errors, has exactly the sender's map and a consistent store.
\<close>

theorem full_sync_copies:
  assumes "store_ok s" and "faults (disk s) = []"
  shows "\<exists>t raws. SnapshotRecords collect_raw (s, []) = Some (Inr (), (t, raws)) \<and>
    (\<forall>f f1 f2. store_ok f \<longrightarrow> \<not> closed f \<longrightarrow> Reset f = (Inr (), f1) \<longrightarrow> apply_all raws f1 = (Inr (), f2) \<longrightarrow>
       store_ok f2 \<and> contents f2 = contents s)"
proof -
  have io: "index_ok (ix s) (logs s)" using assms(1) by (simp add: store_ok_def store_inv_def)
  obtain t where t: "SnapshotRecords collect_raw (s, []) = Some (Inr (), (t, map encode (snapshot_recs s)))"
    by (rule SnapshotRecords_sends [OF assms])
  have "store_ok f2 \<and> contents f2 = contents s"
    if f: "store_ok f" "\<not> closed f" "Reset f = (Inr (), f1)" "apply_all (map encode (snapshot_recs s)) f1 = (Inr (), f2)" for f f1 f2
  proof -
    note f1 = Reset_empties [OF f(1,3,2)]
    have "concat (map (\<lambda>r. [r]) (snapshot_recs s)) = snapshot_recs s" by (induction "snapshot_recs s") auto
    with apply_all_view [OF f1(1,3) snapshot_carries [OF io] f(4)] f1(2) snapshot_recs_contents [OF io]
    show ?thesis by simp
  qed
  with t show ?thesis by blast
qed


section \<open>Catching up from the log\<close>

text \<open>The records a scan finds in the data file with a given number.\<close>

definition file_holds :: "fs \<Rightarrow> u32 \<Rightarrow> krecord list \<Rightarrow> bool" where
  "file_holds d i rs \<longleftrightarrow> list_all wf_rec rs \<and> (\<exists>j tail. map_of (dir d) (dataPath i) = Some j \<and>
     content (inodes d ! j) = encode_all rs @ tail \<and> no_record tail)"

lemma file_holds_ex:
  assumes "files_ok fl ds d" and "i \<in> set (map fst fl)"
  shows "\<exists>rs. file_holds d i rs"
proof -
  obtain p where p: "map_of fl i = Some p" using assms(2) by (metis map_of_eq_None_iff not_None_eq set_map)
  let ?j = "ino (dfile (ds ! p))"
  have "map_of (dir d) (dataPath i) = Some ?j" using assms(1) p by (simp add: files_ok_def)
  then show ?thesis using log_split [of "content (inodes d ! ?j)"] unfolding file_holds_def by blast
qed

lemma list_all2_mapI: "\<forall>x \<in> set xs. P x (g x) \<Longrightarrow> list_all2 P xs (map g xs)"
  by (induction xs) auto

text \<open>What \<open>RecordsSince\<close> hands to its visitor (the first component is a dummy key).\<close>

definition newer :: "u64 \<Rightarrow> krecord list \<Rightarrow> (bytes \<times> bytes) list" where
  "newer n rs = map (\<lambda>r. ([], encode r)) (filter (\<lambda>r. n < rseq r) rs)"

lemma newer_append: "newer n (rs @ qs) = newer n rs @ newer n qs"
  by (simp add: newer_def)

lemma visit_since:
  "feed (\<lambda>_. fn) (newer n rs) f = (None, f') \<Longrightarrow>
   visit_all (since_visitor n fn) p rs f = (p + length (encode_all rs), None, f')"
  by (induction rs arbitrary: p f) (auto simp: newer_def since_visitor_def not_le split: prod.splits option.splits if_splits)

lemma since_files_ok:
  assumes "faults d = []" and "list_all2 (file_holds d) ids rss"
    and "feed (\<lambda>_. fn) (newer n (concat rss)) f = (None, f')"
  shows "since_files n fn ids (d, f) = (Inr (), (d, f'))"
  using assms(2,3)
proof (induction ids rss arbitrary: f rule: list_all2_induct)
  case Nil
  then show ?case by (simp add: newer_def)
next
  case (Cons i ids rs rss)
  obtain j tail where j: "map_of (dir d) (dataPath i) = Some j" "content (inodes d ! j) = encode_all rs @ tail"
      "no_record tail" "list_all wf_rec rs"
    using Cons.hyps(1) by (auto simp: file_holds_def)
  obtain f1 where f1: "feed (\<lambda>_. fn) (newer n rs) f = (None, f1)" "feed (\<lambda>_. fn) (newer n (concat rss)) f1 = (None, f')"
    using Cons.prems by (auto simp: newer_append feed_append split: prod.splits option.splits)
  have "scanDataFile i (since_visitor n fn) f d = ((length (encode_all rs), None, f1), d)"
    using assms(1) j(1,2) scan_loop_encode_all [OF j(4,3), of "since_visitor n fn" 0 f] visit_since [OF f1(1), of 0]
    by (simp add: scanDataFile_def openFile_def fault_def readAll_def the_file_def scanFile_def)
  then show ?case using Cons.IH [OF f1(2)] by simp
qed

lemma feed_newer: "feed (\<lambda>_. collect_raw) (newer n rs) out = (None, out @ map encode (filter (\<lambda>r. n < rseq r) rs))"
  by (simp add: feed_raw newer_def comp_def)

text \<open>
  C12. Catching up from the log: a leader that has kept every record above its merge watermark
  streams, for a follower at sequence number \<open>n\<close>, exactly the records of its files above \<open>n\<close>
  (below the watermark it asks for a full resync instead), and a follower that holds everything
  up to \<open>n\<close> and applies them has the leader's version of every key afterwards.
\<close>

theorem catch_up_converges:
  assumes "store_ok s" and "faults (disk s) = []"
  shows "\<exists>rss. list_all2 (file_holds (disk s)) (sort (map fst (files s))) rss \<and>
    (if n < mergeSeq s then RecordsSince n collect_raw (s, []) = (Inl ErrNeedFullSync, (s, []))
     else \<exists>raws. RecordsSince n collect_raw (s, []) = (Inr (), (s, raws)) \<and>
       raws = map encode (filter (\<lambda>r. n < rseq r) (concat rss)) \<and>
       (\<forall>f f'. store_ok f \<longrightarrow> \<not> closed f \<longrightarrow> ranked fst (set (map rec_view (concat rss))) \<longrightarrow>
          view s = foldl (newest fst) Map.empty (map rec_view (concat rss)) \<longrightarrow>
          view f = foldl (newest fst) Map.empty (map rec_view (filter (\<lambda>r. rseq r \<le> n) (concat rss))) \<longrightarrow>
          apply_all raws f = (Inr (), f') \<longrightarrow> view f' = view s))"
proof -
  let ?ids = "sort (map fst (files s))"
  have "files_ok (files s) (dfs s) (disk s)" using assms(1) by (simp add: store_ok_def store_inv_def)
  then have "\<forall>i \<in> set ?ids. \<exists>rs. file_holds (disk s) i rs" using file_holds_ex by simp
  then obtain g where "\<forall>i \<in> set ?ids. file_holds (disk s) i (g i)" by metis
  then have rss: "list_all2 (file_holds (disk s)) ?ids (map g ?ids)"
    by (rule list_all2_mapI)
  define R where "R = concat (map g ?ids)"
  have since: "RecordsSince n collect_raw (s, []) = (Inr (), (s, map encode (filter (\<lambda>r. n < rseq r) R)))"
    if "\<not> n < mergeSeq s"
    using that since_files_ok [OF assms(2) rss feed_newer, of n "[]"] by (simp add: RecordsSince_def R_def)
  have "list_all2 (\<lambda>i. list_all wf_rec) ?ids (map g ?ids)"
    using rss by (rule list_all2_mono) (simp add: file_holds_def)
  then have "list_all (list_all wf_rec) (map g ?ids)" by (simp add: list_all2_conv_all_nth list_all_length)
  then have wf: "list_all wf_rec R" by (simp add: R_def list_all_iff)
  have conv: "view f' = view s"
    if f: "store_ok f" "\<not> closed f" "ranked fst (set (map rec_view R))"
      "view s = foldl (newest fst) Map.empty (map rec_view R)"
      "view f = foldl (newest fst) Map.empty (map rec_view (filter (\<lambda>r. rseq r \<le> n) R))"
      "apply_all (map encode (filter (\<lambda>r. n < rseq r) R)) f = (Inr (), f')" for f f'
  proof -
    let ?new = "filter (\<lambda>r. n < rseq r) R" and ?old = "filter (\<lambda>r. rseq r \<le> n) R"
    have "carries (map (\<lambda>r. [r]) ?new) (map encode ?new)"
      using wf wf_rec_single by (auto simp: carries_def list_all_iff)
    moreover have "concat (map (map rec_view) (map (\<lambda>r. [r]) ?new)) = map rec_view ?new" by (simp add: concat_map_singleton comp_def)
    moreover have "set (?old @ ?new) = set R" by auto
    then have "set (map rec_view (?old @ ?new)) = set (map rec_view R)" by (simp only: set_map)
    ultimately show ?thesis
      using rp.catch_up [of f "map (\<lambda>r. [r]) ?new" f' Map.empty "map rec_view ?old" "map rec_view R"] f apply_all_survivor [OF f(6)]
      by (simp add: carries_def comp_def)
  qed
  show ?thesis
  proof (cases "n < mergeSeq s")
    case True
    then have "RecordsSince n collect_raw (s, []) = (Inl ErrNeedFullSync, (s, []))" by (simp add: RecordsSince_def)
    then show ?thesis unfolding if_P [OF True] using rss by blast
  next
    case False
    have "\<exists>raws. RecordsSince n collect_raw (s, []) = (Inr (), (s, raws)) \<and>
       raws = map encode (filter (\<lambda>r. n < rseq r) R) \<and>
       (\<forall>f f'. store_ok f \<longrightarrow> \<not> closed f \<longrightarrow> ranked fst (set (map rec_view R)) \<longrightarrow>
          view s = foldl (newest fst) Map.empty (map rec_view R) \<longrightarrow>
          view f = foldl (newest fst) Map.empty (map rec_view (filter (\<lambda>r. rseq r \<le> n) R)) \<longrightarrow>
          apply_all raws f = (Inr (), f') \<longrightarrow> view f' = view s)"
      using since [OF False] conv by blast
    then show ?thesis unfolding if_not_P [OF False] R_def using rss by (intro exI [of _ "map g ?ids"] conjI)
  qed
qed

section \<open>Success without I/O errors\<close>

lemma ApplyRaw_calm:
  assumes "store_ok s" and "calm s" and "\<not> closed s" and "recs \<noteq> []" "list_all wf_rec recs" "length (encode_all recs) < 2 ^ 32"
  shows "\<exists>m t. ApplyRaw (encode_all recs) s = (Inr m, t)"
proof -
  have "store_inv s" using assms(1) by (simp add: store_ok_def)
  then obtain t where "writeLocked recs s = (Inr (), t)" using writeLocked_calm assms(2,4-6) by blast
  moreover have "apply_parse (encode_all recs) 0 [] 0 = Inr (recs, max_seq 0 recs)"
    using apply_parse_log [OF assms(5), of "[]"] by (simp add: no_record_def)
  ultimately show ?thesis using assms(3,4) by (simp add: ApplyRaw_def)
qed

text \<open>A file name that is free stays free while nothing creates it.\<close>

definition free :: "bytes \<Rightarrow> fs \<Rightarrow> bool" where
  "free name d \<longleftrightarrow> faults d = [] \<and> map_of (dir d) name = None"

lemma free_Remove: "free name d \<Longrightarrow> free name (ignore (Remove p d))"
  by (auto simp: free_def ignore_def Remove_def fault_def delete_conv' split: option.splits)

lemma free_reset:
  "free name (disk s) \<Longrightarrow> free name (disk (foldl reset_file s xs))"
  by (induction xs arbitrary: s) (auto simp: reset_file_def free_Remove split: prod.splits)

lemma dataPath_last: "last (dataPath i) = 97"
  by (simp add: dataPath_def dataSuffix_def lit_def)

lemma dataPath_not_manifest: "dataPath i \<noteq> manifestPath" "dataPath i \<noteq> manifestTmp"
proof -
  have "last manifestPath \<noteq> 97" "last manifestTmp \<noteq> 97" by (simp_all add: manifestPath_def manifestTmp_def lit_def)
  then show "dataPath i \<noteq> manifestPath" "dataPath i \<noteq> manifestTmp" using dataPath_last [of i] by metis+
qed

lemma free_writeManifest: "free (dataPath i) d \<Longrightarrow> free (dataPath i) (ignore (writeManifest n d))"
  by (auto simp: free_def ignore_def writeManifest_def openTrunc_def fileAppend_def WriteAt_def SyncFile_def Rename_def syncDir_def
      Remove_def fault_def set_file_def update_conv' delete_conv' dataPath_not_manifest Let_def
      dataPath_not_manifest [symmetric] split: option.splits)

lemma Reset_calm:
  assumes "\<not> closed s" and "free (dataPath (nextID s)) (disk s)" "free (dataPath (nextID s + 1)) (disk s)"
  shows "\<exists>t. Reset s = (Inr (), t) \<and> calm t"
proof -
  let ?s0 = "s\<lparr>ix := new_index (heap (ix s))\<rparr>"
  obtain ds d where f: "foldl reset_file ?s0 (files s) = ?s0\<lparr>dfs := ds, disk := d\<rparr>"
    using reset_files [OF refl, of ?s0 "files s"] by auto
  have "free (dataPath i) (ignore (writeManifest 0 d))" if "free (dataPath i) (disk s)" for i
    using free_reset [of "dataPath i" ?s0 "files s"] that unfolding f by (intro free_writeManifest) simp
  note d = this [OF assms(2), unfolded free_def] this [OF assms(3), unfolded free_def]
  define e where "e = ignore (writeManifest 0 d)"
  have "Reset s = andThen (openNewActive (?s0\<lparr>dfs := ds, disk := d, files := [], live := 0, total := 0,
      nLive := 0, seq := 0, mergeSeq := 0, disk := e\<rparr>)) (\<lambda>_ s. (Inr (), s\<lparr>dirty := False\<rparr>))"
    using assms(1) f by (simp add: Reset_def Let_def e_def)
  then show ?thesis using d [folded e_def]
    by (auto simp: openNewActive_def createDataFile_def openExcl_def on_disk_def Let_def syncDir_def fault_def calm_def update_conv')
qed

lemma snapshot_recs_sorted:
  assumes "index_ok (ix s) (logs s)"
  shows "sorted_wrt (<) (map key (snapshot_recs s))"
proof -
  have inv: "index_inv (ix s)" using assms by (simp add: index_ok_def)
  let ?L = "filter (\<lambda>n. \<not> tomb (ent n)) (nodes (ix s))"
  have "key (rec_of (logs s) (ent n)) = nkey n" if "n \<in> set (nodes (ix s))" for n
  proof -
    have "idx_lookup (ix s) (nkey n) = Some (ent n)" using nodes_lookup [OF inv, of "nkey n" "ent n"] that by blast
    then show ?thesis by (rule index_ok_lookup [OF assms]) simp
  qed
  then have "map key (snapshot_recs s) = map nkey ?L" by (simp add: snapshot_recs_def lone_recs_def live_refs_def)
  then show ?thesis using nodes_sorted [OF inv] by (simp add: sorted_wrt_map sorted_wrt_filter)
qed

lemma snapshot_recs_single:
  assumes "index_ok (ix s) (logs s)" and "contents s = [k \<mapsto> v]"
  obtains r where "snapshot_recs s = [r]" and "wf_rec r"
proof -
  have keys: "key r = k \<and> wf_rec r" if mem: "r \<in> set (snapshot_recs s)" for r
  proof -
    obtain e q where q: "idx_lookup (ix s) (key r) = Some e" "\<not> tomb e" "stored (logs s) e q" "r = lone q"
      using mem unfolding snapshot_recs_mem [OF assms(1)] by auto
    have "contents s (key r) \<noteq> None" unfolding contents_lookup [OF assms(1)] using q(1,2) by simp
    then show ?thesis using assms(2) q(3,4) by (auto simp: stored_def split: if_splits)
  qed
  have "snapshot_recs s \<noteq> []"
  proof
    assume "snapshot_recs s = []"
    then have "contents s = Map.empty" using snapshot_recs_contents [OF assms(1)] by (simp add: contents_of_def fun_eq_iff)
    then show False using assms(2) by (simp add: fun_eq_iff split: if_splits)
  qed
  then obtain r rs where rs: "snapshot_recs s = r # rs" by (cases "snapshot_recs s") auto
  have "rs = []"
  proof (cases rs)
    case (Cons q qs)
    then show ?thesis using keys [of r] keys [of q] snapshot_recs_sorted [OF assms(1)] by (simp add: rs)
  qed
  then show ?thesis using that rs keys by simp
qed

theorem replicas_converge_witness:
  "\<exists>t1 t2. apply_all [encode rec_ex] store_ex = (Inr (), t1) \<and>
    apply_all [encode rec_ex @ encode rec_ex] store_ex = (Inr (), t2) \<and> contents t1 = contents t2"
proof -
  have len: "length (encode rec_ex) < 2 ^ 31" by (simp add: rec_size_def rec_ex_def recordHeaderSize_def)
  obtain m1 t1 where 1: "ApplyRaw (encode rec_ex) store_ex = (Inr m1, t1)"
    using ApplyRaw_calm [OF store_ex_ok store_ex_calm(1,2), of "[rec_ex]"] rec_ex_wf len by auto
  obtain m2 t2 where 2: "ApplyRaw (encode rec_ex @ encode rec_ex) store_ex = (Inr m2, t2)"
    using ApplyRaw_calm [OF store_ex_ok store_ex_calm(1,2), of "[rec_ex, rec_ex]"] rec_ex_wf len by auto
  have c: "carries [[rec_ex]] [encode rec_ex]" "carries [[rec_ex, rec_ex]] [encode rec_ex @ encode rec_ex]"
    using rec_ex_wf len by (simp_all add: carries_def)
  have "ranked fst {rec_view rec_ex}" by (auto simp: ranked_def rec_view_def payload_def)
  then show ?thesis
    using replicas_converge [OF store_ex_ok store_ex_calm(2) store_ex_ok store_ex_calm(2) refl c, of t1 t2] 1 2 by simp
qed

theorem full_sync_copies_witness:
  "\<exists>t raws f1 f2. SnapshotRecords collect_raw (store_ex1, []) = Some (Inr (), (t, raws)) \<and>
    Reset store_ex = (Inr (), f1) \<and> apply_all raws f1 = (Inr (), f2) \<and> contents f2 = [[0x61] \<mapsto> [0x62]]"
proof -
  obtain f1 where f1: "Reset store_ex = (Inr (), f1)" "calm f1"
    using Reset_calm [of store_ex] store_ex_calm(2) by (auto simp: free_def store_ex_def)
  note f = Reset_empties [OF store_ex_ok f1(1) store_ex_calm(2)]
  have io: "index_ok (ix store_ex1) (logs store_ex1)" using store_ex1_ok(1) by (simp add: store_ok_def store_inv_def)
  obtain r where r: "snapshot_recs store_ex1 = [r]" "wf_rec r" by (rule snapshot_recs_single [OF io store_ex1_ok(2)])
  obtain t where t: "SnapshotRecords collect_raw (store_ex1, []) = Some (Inr (), (t, [encode r]))"
    using SnapshotRecords_sends [OF store_ex1_ok(1,5)] r(1) by auto
  obtain m f2 where f2: "ApplyRaw (encode r) f1 = (Inr m, f2)"
    using ApplyRaw_calm [OF f(1) f1(2) f(3), of "[r]"] r(2) wf_rec_single [OF r(2)] by auto
  then have "apply_all [encode r] f1 = (Inr (), f2)" by simp
  then show ?thesis
    using full_sync_copies [OF store_ex1_ok(1,5)] t f1(1) store_ex_ok store_ex_calm(2) store_ex1_ok(2) by auto
qed


text \<open>The store after applying one record, as the leader to catch up with.\<close>

lemma index_recs_keeps:
  "index_recs base i xs s = Some s' \<Longrightarrow> disk s' = disk s \<and> files s' = files s \<and> mergeSeq s' = mergeSeq s"
proof (induction base i xs s rule: index_recs.induct)
  case (2 base i off r xs s)
  have ix: "disk t' = disk t \<and> files t' = files t \<and> mergeSeq t' = mergeSeq t"
    if "indexApplyLocked k e tmb t = Some t'" for k e tmb t t'
    using that by (auto simp: indexApplyLocked_def Let_def split: option.splits if_splits bind_splits)
  from 2 show ?case by (auto simp: bind_eq_Some_conv) (metis ix)+
qed simp

lemma leader_ex:
  obtains t where "ApplyRaw (encode rec_ex) store_ex = (Inr 7, t)" and "file_holds (disk t) 1 [rec_ex]"
    and "files t = [(1, 0)]" "mergeSeq t = 0" "faults (disk t) = []"
proof -
  have len: "length (encode rec_ex) < 2 ^ 31" by (simp add: rec_size_def rec_ex_def recordHeaderSize_def)
  obtain m t where a: "ApplyRaw (encode rec_ex) store_ex = (Inr m, t)"
    using ApplyRaw_calm [OF store_ex_ok store_ex_calm(1,2), of "[rec_ex]"] rec_ex_wf len by auto
  have parse: "apply_parse (encode rec_ex) 0 [] 0 = Inr ([rec_ex], 7)"
    using apply_parse_log [of "[rec_ex]" "[]"] rec_ex_wf by (simp add: no_record_def max_seq_def rec_ex_def)
  obtain u where u: "writeLocked [rec_ex] store_ex = (Inr (), u)" "m = 7" "t = (if 7 > seq u then u\<lparr>seq := 7\<rparr> else u)"
    using a parse store_ex_calm(2) by (auto simp: ApplyRaw_def andThen_Inr)
  let ?d = "\<lparr> dir = [(dataPath 1, 0)], ddir = [(dataPath 1, 0)],
     inodes = [\<lparr> isdir = False, content = encode rec_ex, durable = rec_size rec_ex \<rparr>], faults = [] \<rparr>"
  have "disk u = ?d \<and> files u = [(1, 0)] \<and> mergeSeq u = 0"
    using u(1) unfolding writeLocked_split
    by (auto simp: store_ex_def maybeRotateLocked_def write_active_def WriteAt_def SyncFile_def on_disk_def fault_def
        set_file_def the_file_def new_inode_def splice_def Let_def notify_def split: option.splits dest!: index_recs_keeps simp del: index_recs.simps)
  moreover have "no_record []" by (simp add: no_record_def)
  ultimately show ?thesis
    using that a u(2,3) rec_ex_wf by (simp add: file_holds_def)
qed

lemma file_holds_unique:
  assumes "file_holds d i rs" and "file_holds d i rs'"
  shows "rs = rs'"
proof -
  have visit: "visit_all (\<lambda>_ _ r out. (None, out @ [r])) p rs out = (p + length (encode_all rs), None, out @ rs)" for p rs out
    by (induction rs arbitrary: p out) auto
  from assms(1) obtain j tail where 1: "map_of (dir d) (dataPath i) = Some j" "content (inodes d ! j) = encode_all rs @ tail"
    "list_all wf_rec rs" "no_record tail" by (auto simp: file_holds_def)
  from assms(2) obtain j' tail' where 2: "map_of (dir d) (dataPath i) = Some j'" "content (inodes d ! j') = encode_all rs' @ tail'"
    "list_all wf_rec rs'" "no_record tail'" by (auto simp: file_holds_def)
  have eq: "encode_all rs @ tail = encode_all rs' @ tail'" using 1(1,2) 2(1,2) by simp
  let ?fn = "\<lambda>_ _ r out. (None, out @ [r])"
  have "visit_all ?fn 0 rs [] = visit_all ?fn 0 rs' []"
    using scan_loop_encode_all [OF 1(3,4), of ?fn 0 "[]"] scan_loop_encode_all [OF 2(3,4), of ?fn 0 "[]"] unfolding eq by simp
  then show ?thesis by (simp add: visit)
qed

theorem catch_up_converges_witness:
  "\<exists>s f. store_ok s \<and> RecordsSince 0 collect_raw (s, []) = (Inr (), (s, [encode rec_ex])) \<and>
    apply_all [encode rec_ex] store_ex = (Inr (), f) \<and> view f = view s"
proof -
  obtain t where t: "ApplyRaw (encode rec_ex) store_ex = (Inr 7, t)" "file_holds (disk t) 1 [rec_ex]"
    "files t = [(1, 0)]" "mergeSeq t = 0" "faults (disk t) = []" by (rule leader_ex)
  have len: "length (encode rec_ex) < 2 ^ 32" by (simp add: rec_size_def rec_ex_def recordHeaderSize_def)
  have "applied [rec_ex] store_ex (ApplyRaw (encode rec_ex) store_ex)"
    using ApplyRaw_records [OF store_ex_ok store_ex_calm(2), of "[rec_ex]"] rec_ex_wf len by simp
  then have ok: "store_ok t" "view t = newest fst (view store_ex) (rec_view rec_ex)" by (simp_all add: t(1) applied_def)
  have empty: "view store_ex = Map.empty" by (simp add: view_of_def store_ex_def lookup_new_index fun_eq_iff)
  have seq: "filter (\<lambda>r. 0 < rseq r) [rec_ex] = [rec_ex]" "filter (\<lambda>r. rseq r \<le> 0) [rec_ex] = []"
    by (simp_all add: rec_ex_def)
  from catch_up_converges [OF ok(1) t(5), of 0] obtain rss where
    r: "list_all2 (file_holds (disk t)) (sort (map fst (files t))) rss" and
    c: "if 0 < mergeSeq t then RecordsSince 0 collect_raw (t, []) = (Inl ErrNeedFullSync, (t, []))
     else \<exists>raws. RecordsSince 0 collect_raw (t, []) = (Inr (), (t, raws)) \<and>
       raws = map encode (filter (\<lambda>r. 0 < rseq r) (concat rss)) \<and>
       (\<forall>f f'. store_ok f \<longrightarrow> \<not> closed f \<longrightarrow> ranked fst (set (map rec_view (concat rss))) \<longrightarrow>
          view t = foldl (newest fst) Map.empty (map rec_view (concat rss)) \<longrightarrow>
          view f = foldl (newest fst) Map.empty (map rec_view (filter (\<lambda>r. rseq r \<le> 0) (concat rss))) \<longrightarrow>
          apply_all raws f = (Inr (), f') \<longrightarrow> view f' = view t)" by (elim exE conjE)
  have rss: "concat rss = [rec_ex]"
    using r t(2) by (auto simp: t(3) list_all2_Cons1 dest: file_holds_unique)
  have "ranked fst (set (map rec_view [rec_ex]))" by (auto simp: ranked_def rec_view_def payload_def)
  moreover have "apply_all [encode rec_ex] store_ex = (Inr (), t)" using t(1) by simp
  moreover have "\<not> 0 < mergeSeq t" using t(4) by simp
  from c [unfolded if_not_P [OF this] rss seq] obtain raws where
    R: "RecordsSince 0 collect_raw (t, []) = (Inr (), (t, raws))" "raws = map encode [rec_ex]"
    "\<forall>f f'. store_ok f \<longrightarrow> \<not> closed f \<longrightarrow> ranked fst (set (map rec_view [rec_ex])) \<longrightarrow>
      view t = foldl (newest fst) Map.empty (map rec_view [rec_ex]) \<longrightarrow> view f = foldl (newest fst) Map.empty (map rec_view []) \<longrightarrow>
      apply_all raws f = (Inr (), f') \<longrightarrow> view f' = view t" by (elim exE conjE)
  have "view t = foldl (newest fst) Map.empty (map rec_view [rec_ex])" "view store_ex = foldl (newest fst) Map.empty (map rec_view [])"
    using ok(2) empty by simp_all
  note R(3) [rule_format, OF store_ex_ok store_ex_calm(2) _ this, of t] R(1) [unfolded R(2) list.map]
  ultimately show ?thesis using ok(1) by blast
qed

end
