(* ===== verification/Lock.thy ===== *)
theory Lock
  imports Files
begin

text \<open>
  The advisory lock on the data directory, \<open>internal/engine/lock.go\<close>. The kernel's table of
  exclusive \<open>flock\<close>s is a list of inodes; it is emptied of a process's locks when the process dies.

  The lemmas show that a directory has at most one holder as long as nobody releases the lock
  while another process is acquiring it, and that the three steps of a release leave a gap in
  which two processes can hold it.
\<close>

section \<open>Operations\<close>

definition lockPath :: bytes where "lockPath = lit ''LOCK''"

record os =
  osfs :: fs
  flocks :: "nat list"

definition on_fs :: "(fs \<Rightarrow> (fs, 'a) res) \<Rightarrow> os \<Rightarrow> (os, 'a) res" where
  "on_fs f k = (case f (osfs k) of (r, d) \<Rightarrow> (r, k\<lparr>osfs := d\<rparr>))"

text \<open>\<open>os.OpenFile\<close> with \<open>O_RDWR|O_CREATE\<close>.\<close>

definition openCreate :: "bytes \<Rightarrow> fs \<Rightarrow> (fs, ofile) res" where
  "openCreate name d = (case fault d of
       (Some _, d) \<Rightarrow> (Inl ErrIO, d)
     | (None, d) \<Rightarrow> (case map_of (dir d) name of
           None \<Rightarrow> (Inr \<lparr> ino = length (inodes d), fopen = True, fwr = True \<rparr>,
             d\<lparr>inodes := inodes d @ [new_inode], dir := AList.update name (length (inodes d)) (dir d)\<rparr>)
         | Some i \<Rightarrow>
             if isdir (inodes d ! i) then (Inl ErrIO, d) else (Inr \<lparr> ino = i, fopen = True, fwr = True \<rparr>, d)))"

text \<open>\<open>syscall.Flock\<close> with \<open>LOCK_EX|LOCK_NB\<close> and with \<open>LOCK_UN\<close>.\<close>

definition flock_ex :: "ofile \<Rightarrow> os \<Rightarrow> bool \<times> os" where
  "flock_ex f k = (if ino f \<in> set (flocks k) then (False, k) else (True, k\<lparr>flocks := ino f # flocks k\<rparr>))"

definition flock_un :: "ofile \<Rightarrow> os \<Rightarrow> os" where
  "flock_un f k = k\<lparr>flocks := removeAll (ino f) (flocks k)\<rparr>"

definition acquireLock :: "nat \<Rightarrow> os \<Rightarrow> (os, ofile) res" where
  "acquireLock pid k =
     andThen (on_fs (openCreate lockPath) k) (\<lambda>f k.
       (case flock_ex f k of
          (False, k) \<Rightarrow> (Inl ErrLocked, k)
        | (True, k) \<Rightarrow>
            let k = ignore (on_fs (Truncate f 0) k);
                k = ignore (on_fs (WriteAt f (digits pid @ [10]) 0) k)
            in (Inr f, k)))"

definition releaseLock :: "ofile option \<Rightarrow> os \<Rightarrow> os" where
  "releaseLock lk k = (case lk of
       None \<Rightarrow> k
     | Some f \<Rightarrow> ignore (on_fs (Remove lockPath) (flock_un f k)))"

section \<open>Exclusion\<close>

text \<open>The lock of the directory is held: the inode under its name is locked.\<close>

definition held :: "os \<Rightarrow> bool" where
  "held k \<longleftrightarrow> (\<exists>i. map_of (dir (osfs k)) lockPath = Some i \<and> i \<in> set (flocks k))"

lemma dir_set_file [simp]: "dir (set_file f c n d) = dir d"
  by (simp add: set_file_def)

lemma Truncate_dir: "dir (ignore (Truncate f n d)) = dir d"
  by (auto simp: Truncate_def ignore_def fault_def Let_def split: list.splits nat.splits)

lemma WriteAt_dir: "dir (ignore (WriteAt f bs n d)) = dir d"
  by (auto simp: WriteAt_def ignore_def fault_def split: list.splits nat.splits)

lemma on_fs_ignore: "ignore (on_fs f k) = k\<lparr>osfs := ignore (f (osfs k))\<rparr>"
  by (simp add: on_fs_def ignore_def split: prod.split)

lemma openCreate_Inr:
  assumes "openCreate name d = (Inr f, d')"
  shows "map_of (dir d') name = Some (ino f) \<and> fopen f \<and> fwr f"
  using assms by (auto simp: openCreate_def fault_def update_conv' split: list.splits nat.splits option.splits if_splits)

lemma acquireLock_steps:
  assumes "acquireLock pid k = (Inr f, k')"
  shows "\<exists>d. openCreate lockPath (osfs k) = (Inr f, d) \<and> ino f \<notin> set (flocks k) \<and> flocks k' = ino f # flocks k \<and>
    osfs k' = ignore (WriteAt f (digits pid @ [10]) 0 (ignore (Truncate f 0 d)))"
proof -
  obtain r d where o: "openCreate lockPath (osfs k) = (r, d)" by fastforce
  then obtain g where "r = Inr g" using assms by (cases r) (auto simp: acquireLock_def on_fs_def)
  with o show ?thesis
    using assms by (auto simp: acquireLock_def on_fs_def flock_ex_def Let_def ignore_def split_beta split: if_splits)
qed

lemma acquireLock_Inr:
  assumes "acquireLock pid k = (Inr f, k')"
  shows "map_of (dir (osfs k')) lockPath = Some (ino f) \<and> ino f \<notin> set (flocks k) \<and> flocks k' = ino f # flocks k"
  using acquireLock_steps [OF assms] openCreate_Inr by (auto simp: WriteAt_dir Truncate_dir)

lemma openCreate_existing:
  "map_of (dir d) name = Some i \<Longrightarrow> openCreate name d = (Inr f, d') \<Longrightarrow> ino f = i"
  by (auto simp: openCreate_def fault_def split: list.splits nat.splits if_splits)

lemma acquireLock_held:
  assumes "held k" and "acquireLock pid k = (r, k')"
  shows "r = Inl ErrLocked \<or> r = Inl ErrIO"
proof (cases "fst (openCreate lockPath (osfs k))")
  case (Inl er)
  then have "er = ErrIO" by (auto simp: openCreate_def fault_def split: list.splits nat.splits option.splits if_splits)
  then show ?thesis using assms(2) Inl by (cases "openCreate lockPath (osfs k)") (auto simp: acquireLock_def on_fs_def)
next
  case (Inr g)
  then obtain d where o: "openCreate lockPath (osfs k) = (Inr g, d)" by (metis prod.collapse)
  have "ino g \<in> set (flocks k)" using assms(1) openCreate_existing [OF _ o] by (auto simp: held_def)
  then show ?thesis using assms(2) o by (auto simp: acquireLock_def on_fs_def flock_ex_def)
qed

lemma openCreate_same_dir:
  "map_of (dir d) name = Some i \<Longrightarrow> openCreate name d = (r, d') \<Longrightarrow> dir d' = dir d"
  by (auto simp: openCreate_def fault_def split: list.splits nat.splits if_splits)

lemma acquireLock_keeps_held:
  assumes "held k" and "acquireLock pid k = (r, k')"
  shows "held k'"
proof -
  obtain i where i: "map_of (dir (osfs k)) lockPath = Some i" "i \<in> set (flocks k)" using assms(1) by (auto simp: held_def)
  obtain x d where o: "openCreate lockPath (osfs k) = (x, d)" by fastforce
  have "k' = k\<lparr>osfs := d\<rparr>"
    using assms(2) o i openCreate_existing [OF i(1)]
    by (cases x) (auto simp: acquireLock_def on_fs_def flock_ex_def split: if_splits)
  then show ?thesis using i openCreate_same_dir [OF i(1) o] by (simp add: held_def)
qed

definition os_ok :: "os \<Rightarrow> bool" where
  "os_ok k \<longleftrightarrow> faults (osfs k) = [] \<and> (\<forall>i \<in> set (flocks k). i < length (inodes (osfs k))) \<and>
     (\<forall>i. map_of (dir (osfs k)) lockPath = Some i \<longrightarrow> i < length (inodes (osfs k)) \<and> \<not> isdir (inodes (osfs k) ! i))"

lemma acquireLock_free:
  assumes "os_ok k" and "\<not> held k"
  obtains g k' where "acquireLock pid k = (Inr g, k')" "os_ok k'" "flocks k' = ino g # flocks k"
    "ino g \<notin> set (flocks k)" "map_of (dir (osfs k')) lockPath = Some (ino g)"
proof -
  obtain f d where o: "openCreate lockPath (osfs k) = (Inr f, d)" "ino f \<notin> set (flocks k)" "ino f < length (inodes d)"
    "faults d = []" "length (inodes (osfs k)) \<le> length (inodes d)" "\<not> isdir (inodes d ! ino f)" "fopen f" "fwr f"
    "map_of (dir d) lockPath = Some (ino f)"
  proof (cases "map_of (dir (osfs k)) lockPath")
    case None
    then show ?thesis
      using assms(1) by (intro that [of "\<lparr> ino = length (inodes (osfs k)), fopen = True, fwr = True \<rparr>"
          "snd (openCreate lockPath (osfs k))"])
        (auto simp: openCreate_def os_ok_def new_inode_def update_conv')
  next
    case (Some i)
    then show ?thesis
      using assms by (intro that [of "\<lparr> ino = i, fopen = True, fwr = True \<rparr>" "osfs k"])
        (auto simp: openCreate_def os_ok_def held_def)
  qed
  define k1 where "k1 = ignore (on_fs (WriteAt f (digits pid @ [10]) 0)
      (ignore (on_fs (Truncate f 0) (k\<lparr>osfs := d, flocks := ino f # flocks k\<rparr>))))"
  have a: "acquireLock pid k = (Inr f, k1)"
    using o by (simp add: acquireLock_def on_fs_def flock_ex_def k1_def Let_def ignore_def split_def)
  have "os_ok k1"
    using o assms(1) by (auto simp: k1_def os_ok_def on_fs_def ignore_def Truncate_def WriteAt_def set_file_def
        the_file_def Let_def)
  then show ?thesis using that [OF a] acquireLock_Inr [OF a] by blast
qed

lemma released:
  assumes "os_ok k" and "map_of (dir (osfs k)) lockPath = Some (ino f)"
  shows "os_ok (flock_un f k) \<and> \<not> held (flock_un f k)"
    and "os_ok (ignore (on_fs (Remove lockPath) k)) \<and> \<not> held (ignore (on_fs (Remove lockPath) k))"
  using assms by (auto simp: os_ok_def held_def flock_un_def on_fs_def ignore_def Remove_def delete_conv')

text \<open>
  What the users of a lock rely on: it is refused while it is held, granted when it is free, and
  free once its owner has given it up.
\<close>

locale exclusive_lock =
  fixes acquire :: "'p \<Rightarrow> 'k \<Rightarrow> ('k, 'f) res"
    and give_back :: "'f \<Rightarrow> 'k \<Rightarrow> 'k"
    and taken :: "'k \<Rightarrow> bool"
    and owns :: "'f \<Rightarrow> 'k \<Rightarrow> bool"
    and ok :: "'k \<Rightarrow> bool"
  assumes owned: "owns f k \<Longrightarrow> taken k"
    and refused: "taken k \<Longrightarrow> acquire p k = (r, k') \<Longrightarrow> r \<in> {Inl ErrLocked, Inl ErrIO} \<and> taken k'"
    and granted: "ok k \<Longrightarrow> \<not> taken k \<Longrightarrow> \<exists>f k'. acquire p k = (Inr f, k') \<and> ok k' \<and> owns f k'"
    and given_back: "ok k \<Longrightarrow> owns f k \<Longrightarrow> ok (give_back f k) \<and> \<not> taken (give_back f k)"
begin

lemma acquired:
  assumes "ok k" and "acquire p k = (Inr f, k')"
  shows "\<not> taken k" and "ok k'" and "owns f k'"
proof -
  show "\<not> taken k" using refused [of k p] assms(2) by auto
  then show "ok k'" "owns f k'" using granted [OF assms(1), of p] assms(2) by auto
qed

lemma excluded:
  assumes "ok k" and "acquire p k = (Inr f, k1)" and "acquire q k1 = (r, k2)"
  shows "(r = Inl ErrLocked \<or> r = Inl ErrIO) \<and> taken k2"
  using refused [OF owned [OF acquired(3) [OF assms(1,2)]] assms(3)] by simp

lemma reacquired:
  assumes "ok k" and "acquire p k = (Inr f, k1)"
  shows "\<exists>g k2. acquire q (give_back f k1) = (Inr g, k2)"
  using given_back [OF acquired(2,3) [OF assms]] granted [of "give_back f k1" q] by blast

end

text \<open>The lock of the directory, given up by its owner or dropped when the owner dies.\<close>

definition owned_by :: "ofile \<Rightarrow> os \<Rightarrow> bool" where
  "owned_by f k \<longleftrightarrow> map_of (dir (osfs k)) lockPath = Some (ino f) \<and> ino f \<in> set (flocks k)"

lemma lock_laws:
  "owned_by f k \<Longrightarrow> held k"
  "held k \<Longrightarrow> acquireLock p k = (r, k') \<Longrightarrow> r \<in> {Inl ErrLocked, Inl ErrIO} \<and> held k'"
  "os_ok k \<Longrightarrow> \<not> held k \<Longrightarrow> \<exists>f k'. acquireLock p k = (Inr f, k') \<and> os_ok k' \<and> owned_by f k'"
  "os_ok k \<Longrightarrow> owned_by f k \<Longrightarrow> os_ok (flock_un f k) \<and> \<not> held (flock_un f k)"
  "os_ok k \<Longrightarrow> owned_by f k \<Longrightarrow> os_ok (releaseLock (Some f) k) \<and> \<not> held (releaseLock (Some f) k)"
proof -
  show "owned_by f k \<Longrightarrow> held k" by (auto simp: owned_by_def held_def)
  show "held k \<Longrightarrow> acquireLock p k = (r, k') \<Longrightarrow> r \<in> {Inl ErrLocked, Inl ErrIO} \<and> held k'"
    using acquireLock_held acquireLock_keeps_held by simp
  show "os_ok k \<Longrightarrow> \<not> held k \<Longrightarrow> \<exists>f k'. acquireLock p k = (Inr f, k') \<and> os_ok k' \<and> owned_by f k'"
    using acquireLock_free [of k p] unfolding owned_by_def by (metis list.set_intros(1))
  show u: "os_ok k \<Longrightarrow> owned_by f k \<Longrightarrow> os_ok (flock_un f k) \<and> \<not> held (flock_un f k)" for k
    using released(1) by (simp add: owned_by_def)
  show "os_ok k \<Longrightarrow> owned_by f k \<Longrightarrow> os_ok (releaseLock (Some f) k) \<and> \<not> held (releaseLock (Some f) k)"
    using u [of k] released(2) [of "flock_un f k" f] by (simp add: releaseLock_def owned_by_def flock_un_def)
qed

interpretation lk: exclusive_lock acquireLock "\<lambda>f. releaseLock (Some f)" held owned_by os_ok
  by unfold_locales (use lock_laws in blast)+

interpretation gone: exclusive_lock acquireLock flock_un held owned_by os_ok
  by unfold_locales (use lock_laws in blast)+


definition os_ex :: os where
  "os_ex = \<lparr> osfs = \<lparr> dir = [], ddir = [], inodes = [], faults = [] \<rparr>, flocks = [] \<rparr>"


section \<open>The gap in a release\<close>

text \<open>
  A release unlocks the file before it removes it. If a second process takes the lock in between,
  the removal takes the second process's file away, and a third process locks a new one.
\<close>

lemma release_race:
  assumes "os_ok k" and "map_of (dir (osfs k)) lockPath = Some (ino f)" and "flocks k = [ino f]"
  shows "\<exists>g k2 h k3. acquireLock q (flock_un f k) = (Inr g, k2) \<and>
    acquireLock r (ignore (on_fs (Remove lockPath) k2)) = (Inr h, k3) \<and>
    ino g \<noteq> ino h \<and> ino g \<in> set (flocks k3) \<and> ino h \<in> set (flocks k3)"
proof -
  note u = released(1) [OF assms(1,2)]
  obtain g k2 where g: "acquireLock q (flock_un f k) = (Inr g, k2)" "os_ok k2" "flocks k2 = ino g # flocks (flock_un f k)"
    "map_of (dir (osfs k2)) lockPath = Some (ino g)"
    using acquireLock_free [OF conjunct1 [OF u] conjunct2 [OF u]] by metis
  let ?k = "ignore (on_fs (Remove lockPath) k2)"
  note v = released(2) [OF g(2,4)]
  have fl: "flocks ?k = flocks k2" by (simp add: on_fs_ignore)
  obtain h k3 where "acquireLock r ?k = (Inr h, k3)" "flocks k3 = ino h # flocks ?k" "ino h \<notin> set (flocks ?k)"
    using acquireLock_free [OF conjunct1 [OF v] conjunct2 [OF v]] by metis
  with g(1,3) fl show ?thesis by auto
qed

end
