(* ===== verification/Recovery.thy ===== *)
theory Recovery
  imports Replica Lock
begin

text \<open>
  Opening a store, \<open>Open\<close>, \<open>recover\<close> and \<open>scanIntoIndex\<close> of \<open>internal/engine/store.go\<close>: the index
  is rebuilt from the hint files and, where there is none, from the data files; the torn tail of the
  last file is cut off.
\<close>

section \<open>Options\<close>

text \<open>
  The threshold, a \<open>float64\<close>, is a fraction: numerator and positive denominator. The rounding of
  floating-point numbers is not modelled. Durations are nanoseconds. The logger is left out, the
  directory is an argument of \<open>Open\<close>.
\<close>

record Options =
  oMaxFileSize :: int
  oSyncMode :: SyncMode
  oSyncEvery :: int
  oCompactionThreshold :: "int \<times> int"
  oCompactionInterval :: int

definition optionDefaults :: "Options \<Rightarrow> Options" where
  "optionDefaults c =
     (let c = (if oMaxFileSize c \<le> 0 then c\<lparr>oMaxFileSize := 268435456\<rparr> else c);
          c = (if oSyncEvery c \<le> 0 then c\<lparr>oSyncEvery := 200 * 1000000\<rparr> else c);
          c = (if fst (oCompactionThreshold c) \<le> 0 then c\<lparr>oCompactionThreshold := (2, 5)\<rparr> else c)
      in if oCompactionInterval c \<le> 0 then c\<lparr>oCompactionInterval := 30 * 1000000000\<rparr> else c)"

text \<open>The store \<open>Open\<close> allocates, on a disk and a heap for the index.\<close>

definition blank_store :: "Options \<Rightarrow> slheap \<Rightarrow> fs \<Rightarrow> store" where
  "blank_store c h d = \<lparr> maxFileSize = nat (oMaxFileSize c), syncMode = oSyncMode c, ix = new_index h,
     active = None, nextID = 0, seq = 0, dirty = False, files = [], dfs = [], obs = [], obsID = 0,
     outbox = [], live = 0, total = 0, nLive = 0, nPut = 0, nGet = 0, nDel = 0, nScan = 0, nMiss = 0,
     compacting = False, mergeSeq = 0, hintJobs = [], closed = False, disk = d \<rparr>"

lemma blank_store_disk [simp]: "disk (blank_store c h d) = d"
  by (simp add: blank_store_def)

section \<open>Recovery\<close>

text \<open>
  The callback of \<open>scanIntoIndex\<close>. Its state: the records of an unfinished batch, the end of the
  last record that counts, the index and the highest sequence number.
\<close>

type_synonym replay = "(bytes \<times> entry \<times> bool) list \<times> nat \<times> index option \<times> u64"

definition recover_visitor :: "u32 \<Rightarrow> replay visitor" where
  "recover_visitor i ps raw r = (\<lambda>(pending, cmt, x, maxSeq).
     let size = of_nat (length raw) :: u32;
         maxSeq = (if rseq r > maxSeq then rseq r else maxSeq);
         e = \<lparr> pos = ps, eseq = rseq r, fileID = i, esize = size, tomb = False \<rparr>
     in
     if flags r AND flagBatch \<noteq> 0
     then (let pending = pending @ [(key r, e, tombstone r)] in
           if flags r AND flagBatchEnd \<noteq> 0
           then (None, ([], ps + unat size, Option.bind x (applyRecovered_all pending), maxSeq))
           else (None, (pending, cmt, x, maxSeq)))
     else (None, (pending, ps + unat size, Option.bind x (applyRecovered (key r) e (tombstone r)), maxSeq)))"

definition scanIntoIndex :: "u32 \<Rightarrow> index option \<times> u64 \<Rightarrow> fs \<Rightarrow> (error + nat) \<times> (index option \<times> u64) \<times> fs" where
  "scanIntoIndex i xm d =
     (case xm of (x, maxSeq) \<Rightarrow>
      (case scanDataFile i (recover_visitor i) ([], 0, x, maxSeq) d of
         ((_, err, (_, cmt, x, maxSeq)), d) \<Rightarrow>
           (case err of Some er \<Rightarrow> Inl er | None \<Rightarrow> Inr cmt, (x, maxSeq), d)))"

text \<open>The callback \<open>recover\<close> hands to \<open>readHint\<close>.\<close>

definition hint_replay :: "(index option \<times> u64) hint_visitor" where
  "hint_replay k e fl = (\<lambda>(x, maxSeq).
     (Option.bind x (applyRecovered k e (fl AND flagTombstone \<noteq> 0)), if eseq e > maxSeq then eseq e else maxSeq))"

text \<open>
  Replaying one file, from its hint if that can be read, from the data file otherwise. The result:
  whether the hint was used (the variable \<open>scanned\<close> of the code), the end of the committed part and
  the highest sequence number.
\<close>

definition replay_file :: "u32 \<Rightarrow> u64 \<Rightarrow> store \<Rightarrow> (store, bool \<times> nat \<times> u64) res" where
  "replay_file i maxSeq s =
     (let (ex, d) = hintExists i (disk s);
          (scanned, (x, maxSeq), d) =
            (if ex then (case readHint i hint_replay (Some (ix s), maxSeq) d of ((err, xm), d) \<Rightarrow> (err = None, xm, d))
             else (False, (Some (ix s), maxSeq), d));
          (res, (x, maxSeq), d) =
            (if scanned then (Inr 0, (x, maxSeq), d) else scanIntoIndex i (x, maxSeq) d)
      in
      case x of
        None \<Rightarrow> (Inl Panic, s\<lparr>disk := d\<rparr>)
      | Some x \<Rightarrow>
          (case res of
             Inl er \<Rightarrow> (Inl er, s\<lparr>ix := x, disk := d\<rparr>)
           | Inr cmt \<Rightarrow> (Inr (scanned, cmt, maxSeq), s\<lparr>ix := x, disk := d\<rparr>)))"

definition recover_file ::
    "bool \<Rightarrow> u32 \<Rightarrow> u64 \<times> nat \<times> dfptr option \<Rightarrow> store \<Rightarrow> (store, u64 \<times> nat \<times> dfptr option) res" where
  "recover_file isLast i acc s = (case acc of (maxSeq, totalBytes, reuseActive) \<Rightarrow>
     andThen (replay_file i maxSeq s) (\<lambda>(scanned, cmt, maxSeq) s.
     andThen (on_disk (openDataFile i isLast) s) (\<lambda>df s.
     andThen
       (if isLast \<and> \<not> scanned \<and> cmt < dsize df
        then andThen (on_disk (Truncate (dfile df) cmt) s) (\<lambda>_ s.
             andThen (on_disk (SyncFile (dfile df)) s) (\<lambda>_ s. (Inr (df\<lparr>dsize := cmt\<rparr>), s)))
        else (Inr df, s))
       (\<lambda>df s.
         let p = length (dfs s);
             s = s\<lparr>dfs := dfs s @ [df], files := AList.update i p (files s),
                   nextID := (if i \<ge> nextID s then i + 1 else nextID s)\<rparr>
         in (Inr (maxSeq, totalBytes + dsize df,
                  if isLast \<and> \<not> scanned \<and> dsize df < maxFileSize s then Some p else reuseActive), s)))))"

fun recover_files :: "u32 list \<Rightarrow> u64 \<times> nat \<times> dfptr option \<Rightarrow> store \<Rightarrow> (store, u64 \<times> nat \<times> dfptr option) res" where
  "recover_files [] acc s = (Inr acc, s)"
| "recover_files (i # ids) acc s =
     andThen (recover_file (ids = []) i acc s) (\<lambda>acc s. recover_files ids acc s)"

definition recover :: "store \<Rightarrow> (store, unit) res" where
  "recover s =
     (let (m, d) = readManifest (disk s); s = s\<lparr>mergeSeq := m, disk := d\<rparr> in
      andThen (on_disk listDataFiles s) (\<lambda>ids s.
        let s = ignore (on_disk (removeOrphanHints ids) s) in
        andThen (recover_files ids (0, 0, None) s) (\<lambda>(maxSeq, totalBytes, reuseActive) s.
          let s = s\<lparr>seq := maxSeq\<rparr> in
          andThen
            (case reuseActive of
               Some p \<Rightarrow> (Inr (), s\<lparr>active := Some p\<rparr>)
             | None \<Rightarrow> openNewActive s)
            (\<lambda>_ s. (Inr (), recountLocked (s\<lparr>total := int totalBytes\<rparr>))))))"

text \<open>
  \<open>Open\<close>; the background goroutine it starts is \<open>background_tick\<close> of the compaction. The data
  directory exists in the model, so \<open>MkdirAll\<close> can only fail.
\<close>

definition Open :: "Options \<Rightarrow> bytes \<Rightarrow> nat \<Rightarrow> slheap \<Rightarrow> os \<Rightarrow> (os, store \<times> ofile) res" where
  "Open c dirname pid h k =
     (let c = optionDefaults c in
      if dirname = [] then (Inl (ErrOther ''Dir is required''), k)
      else (case fault (osfs k) of
          (Some _, d) \<Rightarrow> (Inl ErrIO, k\<lparr>osfs := d\<rparr>)
        | (None, d) \<Rightarrow>
            andThen (acquireLock pid (k\<lparr>osfs := d\<rparr>)) (\<lambda>lk k.
              (case recover (blank_store c h (osfs k)) of
                 (Inl er, s) \<Rightarrow> (Inl er, releaseLock (Some lk) (k\<lparr>osfs := disk s\<rparr>))
               | (Inr _, s) \<Rightarrow> (Inr (s, lk), k\<lparr>osfs := disk s\<rparr>)))))"

section \<open>What a replay applies\<close>

text \<open>The records of a log with their offsets, and the locator a replay makes for each.\<close>

fun placed :: "nat \<Rightarrow> krecord list \<Rightarrow> (nat \<times> krecord) list" where
  "placed p [] = []"
| "placed p (r # rs) = (p, r) # placed (p + rec_size r) rs"

definition loc :: "u32 \<Rightarrow> nat \<times> krecord \<Rightarrow> bytes \<times> entry \<times> bool" where
  "loc i x = (case x of (p, r) \<Rightarrow>
     (key r, \<lparr> pos = p, eseq = rseq r, fileID = i, esize = of_nat (rec_size r), tomb = False \<rparr>, tombstone r))"

text \<open>
  The records that count: those outside batches, and those of batches that are complete; and the end
  of the last of them.
\<close>

fun stage :: "(nat \<times> krecord) list \<Rightarrow> nat \<Rightarrow> (nat \<times> krecord) list \<Rightarrow> nat \<times> (nat \<times> krecord) list" where
  "stage pl c [] = (c, [])"
| "stage pl c ((p, r) # xs) =
     (if flags r AND flagBatch = 0 then (let (c', ys) = stage pl (p + rec_size r) xs in (c', (p, r) # ys))
      else if flags r AND flagBatchEnd = 0 then stage (pl @ [(p, r)]) c xs
      else (let (c', ys) = stage [] (p + rec_size r) xs in (c', pl @ (p, r) # ys)))"

definition replayed :: "index option \<Rightarrow> (bytes \<times> entry \<times> bool) list \<Rightarrow> index option" where
  "replayed x xs = Option.bind x (applyRecovered_all xs)"

lemma applyRecovered_all_append:
  "applyRecovered_all (xs @ ys) x = Option.bind (applyRecovered_all xs x) (applyRecovered_all ys)"
  by (induction xs arbitrary: x) (auto split: prod.splits)

lemma replayed_simps [simp]:
  "replayed x [] = x" "replayed (replayed x xs) ys = replayed x (xs @ ys)"
  "replayed (Some y) xs = applyRecovered_all xs y"
  by (cases x; simp add: replayed_def applyRecovered_all_append)+

lemma replayed_one: "Option.bind x (applyRecovered k e t) = replayed x [(k, e, t)]"
  by (cases x) (simp_all add: replayed_def)

lemma max_seq_Cons: "max_seq m (r # rs) = max_seq (if rseq r > m then rseq r else m) rs"
  by (simp add: max_seq_def)

lemma visit_recover:
  assumes "list_all wf_rec rs" and "stage pl c (placed p rs) = (c', ys)"
  shows "\<exists>pl'. visit_all (recover_visitor i) p rs (map (loc i) pl, c, x, m) =
    (p + length (encode_all rs), None, (map (loc i) pl', c', replayed x (map (loc i) ys), max_seq m rs))"
  using assms
proof (induction rs arbitrary: p pl c x m ys)
  case Nil
  then show ?case by (auto simp: max_seq_def)
next
  case (Cons r rs)
  let ?m = "if rseq r > m then rseq r else m"
  have size: "unat (of_nat (rec_size r) :: u32) = rec_size r" and wf: "list_all wf_rec rs"
    using Cons.prems(1) wf_rec_bounds(3) [of r] by (simp_all add: unat_of_nat_u32)
  consider (plain) "flags r AND flagBatch = 0" | (inner) "flags r AND flagBatch \<noteq> 0" "flags r AND flagBatchEnd = 0"
    | (fin) "flags r AND flagBatch \<noteq> 0" "flags r AND flagBatchEnd \<noteq> 0" by blast
  then show ?case
  proof cases
    case plain
    obtain ys' where ys: "stage pl (p + rec_size r) (placed (p + rec_size r) rs) = (c', ys')" "ys = (p, r) # ys'"
      using Cons.prems(2) plain by (auto split: prod.splits)
    have "recover_visitor i p (encode r) r (map (loc i) pl, c, x, m) =
        (None, (map (loc i) pl, p + rec_size r, replayed x (map (loc i) [(p, r)]), ?m))"
      using plain size by (simp add: recover_visitor_def Let_def loc_def replayed_one)
    then show ?thesis
      using Cons.IH [OF wf ys(1), of "replayed x (map (loc i) [(p, r)])" ?m]
      by (simp add: ys(2) max_seq_Cons add.assoc)
  next
    case inner
    have "recover_visitor i p (encode r) r (map (loc i) pl, c, x, m) = (None, (map (loc i) (pl @ [(p, r)]), c, x, ?m))"
      using inner by (simp add: recover_visitor_def Let_def loc_def)
    moreover have "stage (pl @ [(p, r)]) c (placed (p + rec_size r) rs) = (c', ys)" using Cons.prems(2) inner by simp
    ultimately show ?thesis
      using Cons.IH [OF wf, of "pl @ [(p, r)]" c "p + rec_size r" ys x ?m] by (simp add: max_seq_Cons add.assoc)
  next
    case fin
    obtain ys' where ys: "stage [] (p + rec_size r) (placed (p + rec_size r) rs) = (c', ys')" "ys = pl @ (p, r) # ys'"
      using Cons.prems(2) fin by (auto split: prod.splits)
    have "recover_visitor i p (encode r) r (map (loc i) pl, c, x, m) =
        (None, (map (loc i) [], p + rec_size r, replayed x (map (loc i) (pl @ [(p, r)])), ?m))"
      using fin size by (simp add: recover_visitor_def Let_def loc_def replayed_def)
    then show ?thesis
      using Cons.IH [OF wf ys(1), of "replayed x (map (loc i) (pl @ [(p, r)]))" ?m]
      by (simp add: ys(2) max_seq_Cons add.assoc)
  qed
qed

lemma hint_replay_all:
  "foldl (\<lambda>st (k, e, fl). hint_replay k e fl st) (x, m) (log_entries i p rs) =
   (replayed x (map (loc i) (placed p rs)), max_seq m rs)"
proof (induction rs arbitrary: p x m)
  case Nil
  then show ?case by (simp add: max_seq_def)
next
  case (Cons r rs)
  have "hint_replay (key r) \<lparr> pos = p, eseq = rseq r, fileID = i, esize = of_nat (rec_size r), tomb = False \<rparr> (flags r) (x, m) =
      (replayed x [loc i (p, r)], if rseq r > m then rseq r else m)"
    by (simp add: hint_replay_def replayed_one loc_def tombstone_def)
  then show ?case by (simp add: max_seq_Cons Cons.IH)
qed

section \<open>Locators of replayed records\<close>

text \<open>The log of the file holds the record at its place.\<close>

definition in_log :: "bytes \<Rightarrow> nat \<times> krecord \<Rightarrow> bool" where
  "in_log bs x \<longleftrightarrow> (case x of (p, r) \<Rightarrow> wf_rec r \<and> p + rec_size r \<le> length bs \<and> bslice p (p + rec_size r) bs = encode r)"

lemma stored_loc:
  assumes "in_log (L i) (p, r)" and "loc i (p, r) = (k, e, t)"
  shows "stored L (e\<lparr>tomb := t\<rparr>) r" and "key r = k"
  using assms by (auto simp: in_log_def loc_def stored_def encodedSize_def rec_size_def)

lemma placed_in_log:
  assumes "bs = pre @ encode_all rs @ tail" and "length pre = p" and "list_all wf_rec rs" and "x \<in> set (placed p rs)"
  shows "in_log bs x"
  using assms
proof (induction rs arbitrary: pre p)
  case (Cons r rs)
  then show ?case
  proof (cases "x = (p, r)")
    case True
    then show ?thesis using Cons.prems(1-3) by (simp add: in_log_def bslice_mid)
  next
    case False
    then show ?thesis using Cons.IH [of "pre @ encode r" "p + rec_size r"] Cons.prems by simp
  qed
qed simp

lemma stage_sub:
  "stage pl c xs = (c', ys) \<Longrightarrow> set ys \<subseteq> set pl \<union> set xs"
  by (induction pl c xs arbitrary: c' ys rule: stage.induct) (fastforce split: prod.splits if_splits)+

lemma newest_view:
  assumes "index_ok x L" and "index_inv y" and "idx_lookup y = newest eseq (idx_lookup x) (k, e)"
    and "stored L e r" and "key r = k"
  shows "index_ok y L \<and> view_of y L = newest fst (view_of x L) (k, payload r)"
proof (cases "\<exists>old. idx_lookup x k = Some old \<and> eseq e \<le> eseq old")
  case True
  then obtain old where old: "idx_lookup x k = Some old" "eseq e \<le> eseq old" by blast
  obtain r' where r': "stored L old r'" "rec_of L old = r'" by (rule index_ok_lookup [OF assms(1) old(1)])
  have same: "idx_lookup y = idx_lookup x" using old by (simp add: assms(3) newest_def)
  have "newest fst (view_of x L) (k, payload r) = view_of x L"
    using old r' stored_payload [OF r'(1)] stored_payload [OF assms(4)] by (simp add: newest_def view_of_def)
  moreover have "view_of y L = view_of x L" by (rule ext) (simp add: view_of_def same)
  moreover have "index_ok y L" using assms(1,2) same by (simp add: index_ok_def)
  ultimately show ?thesis by simp
next
  case False
  then have put: "idx_lookup y = (idx_lookup x)(k \<mapsto> e)" by (auto simp: assms(3) newest_def split: option.splits)
  have "newest fst (view_of x L) (k, payload r) = (view_of x L)(k \<mapsto> payload r)"
  proof (cases "idx_lookup x k")
    case None
    then show ?thesis by (simp add: newest_def view_of_def)
  next
    case (Some old)
    obtain r' where "stored L old r'" "rec_of L old = r'" by (rule index_ok_lookup [OF assms(1) Some])
    then show ?thesis
      using Some False stored_payload [OF assms(4)] stored_payload [of L old r'] by (auto simp: newest_def view_of_def)
  qed
  moreover have "index_ok y L" using assms(1,2,4,5) put by (auto simp: index_ok_def)
  ultimately show ?thesis using view_of_put [OF put assms(4)] by simp
qed

lemma replay_view:
  assumes "index_ok x L" and "\<forall>y \<in> set ys. in_log (L i) y"
  shows "\<exists>x'. applyRecovered_all (map (loc i) ys) x = Some x' \<and> index_ok x' L \<and>
    view_of x' L = foldl (newest fst) (view_of x L) (map (\<lambda>y. rec_view (snd y)) ys)"
  using assms
proof (induction ys arbitrary: x)
  case (Cons y ys)
  obtain p r where y: "y = (p, r)" by fastforce
  obtain k e t where l: "loc i (p, r) = (k, e, t)" by (metis prod.exhaust)
  have st: "stored L (e\<lparr>tomb := t\<rparr>) r" "key r = k" using stored_loc [OF _ l, of L] Cons.prems(2) y by simp_all
  have inv: "index_inv x" using Cons.prems(1) by (simp add: index_ok_def)
  obtain x1 where x1: "applyRecovered k e t x = Some x1" "index_inv x1"
      "idx_lookup x1 = newest eseq (idx_lookup x) (k, e\<lparr>tomb := t\<rparr>)"
    using applyRecovered_newest [OF inv] by blast
  have "index_ok x1 L \<and> view_of x1 L = newest fst (view_of x L) (k, payload r)"
    by (rule newest_view [OF Cons.prems(1) x1(2,3) st])
  then show ?case using Cons.IH [of x1] Cons.prems(2) x1(1) l y st(2) by (auto simp: rec_view_def)
qed simp

lemma stage_bound:
  assumes "stage pl c (placed p rs) = (c', ys)" and "\<forall>(q, r) \<in> set pl. q + rec_size r \<le> p" and "c \<le> p"
  shows "c \<le> c' \<and> (\<forall>(q, r) \<in> set ys. q + rec_size r \<le> c') \<and> c' \<le> p + length (encode_all rs)"
  using assms
proof (induction rs arbitrary: pl c p ys)
  case (Cons r rs)
  consider (plain) "flags r AND flagBatch = 0" | (inner) "flags r AND flagBatch \<noteq> 0" "flags r AND flagBatchEnd = 0"
    | (fin) "flags r AND flagBatch \<noteq> 0" "flags r AND flagBatchEnd \<noteq> 0" by blast
  then show ?case
  proof cases
    case plain
    obtain ys' where "stage pl (p + rec_size r) (placed (p + rec_size r) rs) = (c', ys')" "ys = (p, r) # ys'"
      using Cons.prems(1) plain by (auto split: prod.splits)
    with Cons.IH [of pl "p + rec_size r" "p + rec_size r" ys'] Cons.prems(2,3) show ?thesis by fastforce
  next
    case inner
    then have "stage (pl @ [(p, r)]) c (placed (p + rec_size r) rs) = (c', ys)" using Cons.prems(1) by simp
    with Cons.IH [of "pl @ [(p, r)]" c "p + rec_size r" ys] Cons.prems(2,3) show ?thesis by fastforce
  next
    case fin
    obtain ys' where "stage [] (p + rec_size r) (placed (p + rec_size r) rs) = (c', ys')" "ys = pl @ (p, r) # ys'"
      using Cons.prems(1) fin by (auto split: prod.splits)
    with Cons.IH [of "[]" "p + rec_size r" "p + rec_size r" ys'] Cons.prems(2,3) show ?thesis by fastforce
  qed
qed simp

lemma in_log_untake: "in_log (take c bs) y \<Longrightarrow> in_log bs y"
  by (auto simp: in_log_def bslice_take)

lemma in_log_take: "in_log bs (p, r) \<Longrightarrow> p + rec_size r \<le> c \<Longrightarrow> in_log (take c bs) (p, r)"
  by (auto simp: in_log_def bslice_take)

section \<open>Disks that can be opened\<close>

definition log_recs :: "bytes \<Rightarrow> krecord list" where
  "log_recs c = snd (snd (scanFile (Inr c) (\<lambda>_ _ r acc. (None, acc @ [r])) []))"

lemma visit_collect: "visit_all (\<lambda>_ _ r acc. (None, acc @ [r])) p rs acc = (p + length (encode_all rs), None, acc @ rs)"
  by (induction rs arbitrary: p acc) simp_all

lemma log_recs_eq: "list_all wf_rec rs \<Longrightarrow> no_record tail \<Longrightarrow> log_recs (encode_all rs @ tail) = rs"
  by (simp add: log_recs_def scanFile_def scan_loop_encode_all visit_collect)

lemma log_recs_split:
  obtains tail where "c = encode_all (log_recs c) @ tail" "list_all wf_rec (log_recs c)" "no_record tail"
  using log_split [of c] log_recs_eq by metis

text \<open>The bytes of data file \<open>i\<close>, and whether it has a hint.\<close>

definition file_at :: "fs \<Rightarrow> u32 \<Rightarrow> bytes" where
  "file_at d i = content (inodes d ! the (map_of (dir d) (dataPath i)))"

definition hinted :: "fs \<Rightarrow> u32 \<Rightarrow> bool" where
  "hinted d i \<longleftrightarrow> map_of (dir d) (hintPath i) \<noteq> None"

text \<open>What a replay takes from a file: the end of the committed part, and the records.\<close>

definition committed :: "fs \<Rightarrow> u32 \<Rightarrow> nat \<times> (nat \<times> krecord) list" where
  "committed d i =
     (let xs = placed 0 (log_recs (file_at d i)) in if hinted d i then (0, xs) else stage [] 0 xs)"

text \<open>
  A data directory: plain files under the store's names, no two names for one file, and every hint
  as \<open>buildHint\<close> writes it.
\<close>

definition good_dir :: "fs \<Rightarrow> u32 list \<Rightarrow> bool" where
  "good_dir d ids \<longleftrightarrow> faults d = [] \<and> distinct (map fst (dir d)) \<and> sorted ids \<and> distinct ids \<and>
     (\<forall>i. map_of (dir d) (dataPath i) \<noteq> None \<longleftrightarrow> i \<in> set ids) \<and>
     (\<forall>n j. map_of (dir d) n = Some j \<longrightarrow> j < length (inodes d) \<and> \<not> isdir (inodes d ! j)) \<and>
     (\<forall>n n' j. map_of (dir d) n = Some j \<longrightarrow> map_of (dir d) n' = Some j \<longrightarrow> n = n') \<and>
     (\<forall>n m. map_of (dir d) n \<noteq> None \<longrightarrow> HasSuffix n dataSuffix \<longrightarrow>
        ParseUint (TrimSuffix n dataSuffix) 32 = Some m \<longrightarrow> n = dataPath (of_nat m))"

definition good_hints :: "fs \<Rightarrow> u32 list \<Rightarrow> bool" where
  "good_hints d ids \<longleftrightarrow> (\<forall>i \<in> set ids. \<forall>j. map_of (dir d) (hintPath i) = Some j \<longrightarrow>
     length (file_at d i) < 2 ^ 63 \<and>
     content (inodes d ! j) = hintMagic @ concat (map hint_bytes (log_entries i 0 (log_recs (file_at d i)))))"

lemma picks:
  assumes "distinct ns" and "\<forall>n \<in> set ns. distinct (g n) \<and> (\<forall>i. i \<in> set (g n) \<longleftrightarrow> n = dataPath i)"
  shows "distinct (concat (map g ns)) \<and> set (concat (map g ns)) = {i. dataPath i \<in> set ns}"
  using assms by (induction ns) auto

lemma listDataFiles_good:
  assumes "good_dir d ids"
  shows "listDataFiles d = (Inr ids, d)"
proof -
  define ns where "ns = map fst (sort_key fst (dir d))"
  define g where "g = (\<lambda>name. if \<not> HasSuffix name dataSuffix then []
      else (case ParseUint (TrimSuffix name dataSuffix) 32 of None \<Rightarrow> [] | Some n \<Rightarrow> [of_nat n :: u32]))"
  have g: "g (dataPath i) = [i]" for i
    using parse_dataPath [of i] by (simp add: g_def) (simp add: dataPath_def)
  have mem: "n \<in> set ns \<longleftrightarrow> map_of (dir d) n \<noteq> None" for n
    by (auto simp: ns_def map_of_eq_None_iff)
  have "mset ns = mset (map fst (dir d))" by (simp add: ns_def)
  then have "distinct ns" using assms mset_eq_imp_distinct_iff [of ns] unfolding good_dir_def by blast
  moreover have "\<forall>n \<in> set ns. distinct (g n) \<and> (\<forall>i. i \<in> set (g n) \<longleftrightarrow> n = dataPath i)"
  proof (intro ballI conjI allI)
    fix n i assume "n \<in> set ns"
    then have std: "n = dataPath (of_nat m)" if "HasSuffix n dataSuffix" "ParseUint (TrimSuffix n dataSuffix) 32 = Some m" for m
      using that assms mem unfolding good_dir_def by blast
    have "n = dataPath i" if "i \<in> set (g n)"
      using that std unfolding g_def by (cases "ParseUint (TrimSuffix n dataSuffix) 32") (auto split: if_splits)
    then show "i \<in> set (g n) \<longleftrightarrow> n = dataPath i" using g [of i] by auto
    show "distinct (g n)" by (simp add: g_def split: option.splits)
  qed
  ultimately have cs: "distinct (concat (map g ns))" "set (concat (map g ns)) = {i. dataPath i \<in> set ns}"
    using picks by blast+
  have "sort (concat (map g ns)) = ids"
    using cs assms mem by (intro sorted_distinct_set_unique) (auto simp: good_dir_def)
  moreover have "map (\<lambda>(name, isd). if isd \<or> \<not> HasSuffix name dataSuffix then []
      else (case ParseUint (TrimSuffix name dataSuffix) 32 of None \<Rightarrow> [] | Some n \<Rightarrow> [of_nat n :: u32]))
      (map (\<lambda>(n, i). (n, isdir (inodes d ! i))) (sort_key fst (dir d))) = map g ns"
  proof -
    have "\<not> isdir (inodes d ! j)" if "(n, j) \<in> set (dir d)" for n j
      using that assms map_of_eq_Some_iff by (fastforce simp: good_dir_def)
    then show ?thesis by (auto simp: ns_def g_def)
  qed
  ultimately show ?thesis using assms by (simp add: listDataFiles_def ReadDir_def good_dir_def)
qed

text \<open>Directories that differ in removed names only.\<close>

definition fewer_names :: "fs \<Rightarrow> fs \<Rightarrow> u32 list \<Rightarrow> bool" where
  "fewer_names d d' ids \<longleftrightarrow> inodes d' = inodes d \<and> faults d' = [] \<and> distinct (map fst (dir d')) \<and>
     (\<forall>n j. map_of (dir d') n = Some j \<longrightarrow> map_of (dir d) n = Some j) \<and>
     (\<forall>i. map_of (dir d') (dataPath i) = map_of (dir d) (dataPath i)) \<and>
     (\<forall>i \<in> set ids. map_of (dir d') (hintPath i) = map_of (dir d) (hintPath i))"

lemma Remove_calm:
  "faults d = [] \<Longrightarrow> ignore (Remove name d) = (if map_of (dir d) name = None then d else d\<lparr>dir := AList.delete name (dir d)\<rparr>)"
  by (auto simp: Remove_def ignore_def split: option.splits)

lemma fewer_namesD:
  assumes "fewer_names d d' ids"
  shows "faults d' = []" and "inodes d' = inodes d" and "distinct (map fst (dir d'))"
    and "map_of (dir d') n = Some j \<Longrightarrow> map_of (dir d) n = Some j"
    and "map_of (dir d') (dataPath i) = map_of (dir d) (dataPath i)"
    and "i \<in> set ids \<Longrightarrow> map_of (dir d') (hintPath i) = map_of (dir d) (hintPath i)"
  using assms unfolding fewer_names_def by blast+

lemma fewer_names_Remove:
  assumes fn: "fewer_names d d1 ids" and "\<forall>i. name \<noteq> dataPath i" and "\<forall>i \<in> set ids. name \<noteq> hintPath i"
  shows "fewer_names d (ignore (Remove name d1)) ids"
proof (cases "map_of (dir d1) name = None")
  case True
  then show ?thesis using fn Remove_calm [OF fewer_namesD(1) [OF fn], of name] by simp
next
  case False
  let ?d = "d1\<lparr>dir := AList.delete name (dir d1)\<rparr>"
  have eq: "ignore (Remove name d1) = ?d"
    unfolding Remove_calm [OF fewer_namesD(1) [OF fn]] using False by (rule if_not_P)
  have m: "map_of (dir ?d) n = (if n = name then None else map_of (dir d1) n)" for n by (simp add: delete_conv')
  show ?thesis
    unfolding eq fewer_names_def m
    using assms(2,3) fewer_namesD [OF fn] by (intro conjI allI ballI impI) (auto simp: distinct_delete split: if_splits)
qed

lemma last_suffix: "HasSuffix name suf \<Longrightarrow> suf \<noteq> [] \<Longrightarrow> last name = last suf"
  using TrimSuffix_id [of name suf] by (metis last_append)

lemma removeOrphanHints_good:
  assumes "good_dir d ids" and "removeOrphanHints ids d = (r, d')"
  shows "fewer_names d d' ids"
proof -
  let ?f = "\<lambda>d (name, isd). if isd then d
      else if HasSuffix name (tmpPath hintSuffix) then ignore (Remove name d)
      else if HasSuffix name hintSuffix then
        (case ParseUint (TrimSuffix name hintSuffix) 32 of
           None \<Rightarrow> ignore (Remove name d)
         | Some n \<Rightarrow> if (of_nat n :: u32) \<in> set ids then d else ignore (Remove name d))
      else d"
  have step: "fewer_names d (?f d1 (name, isd)) ids" if fn: "fewer_names d d1 ids" for d1 name isd
  proof (cases "isd \<or> \<not> HasSuffix name (tmpPath hintSuffix) \<and> (\<not> HasSuffix name hintSuffix \<or>
      (\<exists>n. ParseUint (TrimSuffix name hintSuffix) 32 = Some n \<and> of_nat n \<in> set ids))")
    case True
    then show ?thesis using fn by auto
  next
    case False
    then have eq: "?f d1 (name, isd) = ignore (Remove name d1)" by (auto split: option.splits)
    have "last name = 112 \<or> last name = 116" using False last_suffix [of name hintSuffix] last_suffix [of name "tmpPath hintSuffix"]
      by (auto simp: name_consts)
    then have "\<forall>i. name \<noteq> dataPath i" by auto
    moreover have "\<forall>i \<in> set ids. name \<noteq> hintPath i"
    proof (intro ballI notI)
      fix i assume i: "i \<in> set ids" "name = hintPath i"
      then have "\<not> HasSuffix name (tmpPath hintSuffix)" using last_suffix [of name "tmpPath hintSuffix"] by (auto simp: tmpPath_def lit_def)
      moreover have "ParseUint (TrimSuffix name hintSuffix) 32 = Some (unat i)" unfolding i(2) by (rule parse_hintPath)
      ultimately show False using False i(1) by auto
    qed
    ultimately show ?thesis using fewer_names_Remove [OF fn] unfolding eq by blast
  qed
  have "fewer_names d (foldl ?f d1 ents) ids" if "fewer_names d d1 ids" for d1 ents
    using that
  proof (induction ents arbitrary: d1)
    case (Cons x ents)
    obtain name isd where x: "x = (name, isd)" by fastforce
    show ?case using Cons.IH [OF step [OF Cons.prems, of name isd]] unfolding x foldl_Cons .
  qed simp
  moreover have "fewer_names d d ids" using assms(1) by (simp add: fewer_names_def good_dir_def)
  ultimately show ?thesis using assms by (auto simp: removeOrphanHints_def ReadDir_def good_dir_def)
qed

lemma good_dirD:
  assumes "good_dir d ids"
  shows "faults d = []" and "sorted ids" and "distinct ids"
    and "map_of (dir d) (dataPath i) \<noteq> None \<longleftrightarrow> i \<in> set ids"
    and "map_of (dir d) n = Some j \<Longrightarrow> j < length (inodes d) \<and> \<not> isdir (inodes d ! j)"
    and "map_of (dir d) n = Some j \<Longrightarrow> map_of (dir d) n' = Some j \<Longrightarrow> n = n'"
  using assms unfolding good_dir_def by blast+

lemma good_file:
  assumes "good_dir d ids" and "i \<in> set ids"
  obtains j where "map_of (dir d) (dataPath i) = Some j" "file_at d i = content (inodes d ! j)"
  using good_dirD(4) [OF assms(1), of i] assms(2) by (auto simp: file_at_def)

lemma fewer_names_good:
  assumes "good_dir d ids" and "fewer_names d d' ids"
  shows "good_dir d' ids" and "file_at d' i = file_at d i" and "i \<in> set ids \<Longrightarrow> hinted d' i = hinted d i"
    and "good_hints d ids \<Longrightarrow> good_hints d' ids"
proof -
  note f = fewer_namesD [OF assms(2)] and g = good_dirD [OF assms(1)]
  have "n = dataPath (of_nat m)" if "map_of (dir d') n \<noteq> None" "HasSuffix n dataSuffix"
      "ParseUint (TrimSuffix n dataSuffix) 32 = Some m" for n m
    using that f(4) assms(1) unfolding good_dir_def by (metis not_None_eq)
  moreover have "map_of (dir d') (dataPath i) \<noteq> None \<longleftrightarrow> i \<in> set ids" for i by (simp only: f(5) g(4))
  moreover have "j < length (inodes d') \<and> \<not> isdir (inodes d' ! j)" if "map_of (dir d') n = Some j" for n j
    unfolding f(2) by (rule g(5) [OF f(4) [OF that]])
  moreover have "n = n'" if "map_of (dir d') n = Some j" "map_of (dir d') n' = Some j" for n n' j
    by (rule g(6) [OF f(4) [OF that(1)] f(4) [OF that(2)]])
  ultimately show "good_dir d' ids" unfolding good_dir_def using f(1,3) g(2,3) by blast
  show fa: "file_at d' i = file_at d i" for i by (simp only: file_at_def f(5) f(2))
  show "i \<in> set ids \<Longrightarrow> hinted d' i = hinted d i" by (simp only: hinted_def f(6))
  show "good_hints d ids \<Longrightarrow> good_hints d' ids"
    unfolding good_hints_def fa f(2) using f(6) by metis
qed

section \<open>Replaying one file\<close>

lemma store_ix_disk: "d = disk s \<Longrightarrow> s\<lparr>ix := x, disk := d\<rparr> = s\<lparr>ix := x\<rparr>"
  by (cases s) simp

lemma openFile_good:
  "faults d = [] \<Longrightarrow> map_of (dir d) n = Some j \<Longrightarrow> \<not> isdir (inodes d ! j) \<Longrightarrow>
   openFile n w d = (Inr \<lparr> ino = j, fopen = True, fwr = w \<rparr>, d)"
  by (simp add: openFile_def)

lemma hintExists_good:
  assumes "good_dir d ids"
  shows "hintExists i d = (hinted d i, d)"
  using good_dirD(1) [OF assms] good_dirD(5) [OF assms, of "hintPath i"]
  by (auto simp: hintExists_def statIsDir_def hinted_def split: option.splits)

lemma scanIntoIndex_good:
  assumes "good_dir d ids" and "i \<in> set ids" and "stage [] 0 (placed 0 (log_recs (file_at d i))) = (c, ys)"
  shows "scanIntoIndex i (x, m) d = (Inr c, (replayed x (map (loc i) ys), max_seq m (log_recs (file_at d i))), d)"
proof -
  obtain j where j: "map_of (dir d) (dataPath i) = Some j" "file_at d i = content (inodes d ! j)"
    by (rule good_file [OF assms(1,2)])
  obtain tail where t: "file_at d i = encode_all (log_recs (file_at d i)) @ tail"
      "list_all wf_rec (log_recs (file_at d i))" "no_record tail" by (rule log_recs_split)
  define rs where "rs = log_recs (file_at d i)"
  have fa: "content (inodes d ! j) = encode_all rs @ tail" using t(1) j(2) by (simp add: rs_def)
  obtain pl' where v: "visit_all (recover_visitor i) 0 rs (map (loc i) [], 0, x, m) =
      (0 + length (encode_all rs), None, (map (loc i) pl', c, replayed x (map (loc i) ys), max_seq m rs))"
    using visit_recover [of rs "[]" 0 0 c ys i x m] t(2) assms(3) unfolding rs_def by blast
  have "scanFile (Inr (content (inodes d ! j))) (recover_visitor i) ([], 0, x, m) =
      (0 + length (encode_all rs), None, (map (loc i) pl', c, replayed x (map (loc i) ys), max_seq m rs))"
    using v t(2,3) unfolding fa rs_def by (simp add: scanFile_def scan_loop_encode_all)
  then show ?thesis
    using good_dirD(1) [OF assms(1)] good_dirD(5) [OF assms(1) j(1)] j(1)
    by (simp add: scanIntoIndex_def scanDataFile_def openFile_good readAll_def the_file_def rs_def)
qed

lemma hinted_replay:
  assumes "good_dir d ids" and "good_hints d ids" and "i \<in> set ids" and "hinted d i"
  shows "readHint i hint_replay (x, m) d =
    ((None, replayed x (map (loc i) (placed 0 (log_recs (file_at d i)))), max_seq m (log_recs (file_at d i))), d)"
proof -
  define rs where "rs = log_recs (file_at d i)"
  obtain j where j: "map_of (dir d) (hintPath i) = Some j" using assms(4) by (auto simp: hinted_def)
  have c: "length (file_at d i) < 2 ^ 63" "content (inodes d ! j) = hintMagic @ concat (map hint_bytes (log_entries i 0 rs))"
    using assms(2,3) j by (simp_all add: good_hints_def rs_def)
  obtain tail where t: "file_at d i = encode_all rs @ tail" "list_all wf_rec rs"
    using log_recs_split unfolding rs_def by metis
  have "length (encode_all rs) \<le> length (file_at d i)" unfolding t(1) by simp
  then have "list_all hint_ok (log_entries i 0 rs)" using t(2) c(1) by (intro log_entries_ok) simp_all
  from readHint_complete [OF good_dirD(1) [OF assms(1)] j c(2) this, of hint_replay "(x, m)"]
  show ?thesis unfolding foldl_log_entries hint_replay_all rs_def .
qed

lemma replay_file_good:
  assumes d: "good_dir (disk s) ids" "good_hints (disk s) ids" "i \<in> set ids"
    and "committed (disk s) i = (c, ys)" and "index_ok (ix s) L" and "\<forall>y \<in> set ys. in_log (L i) y"
  obtains x where "replay_file i m s =
      (Inr (hinted (disk s) i, c, max_seq m (log_recs (file_at (disk s) i))), s\<lparr>ix := x\<rparr>)"
    "index_ok x L" "view_of x L = foldl (newest fst) (view_of (ix s) L) (map (\<lambda>y. rec_view (snd y)) ys)"
proof -
  obtain x where x: "applyRecovered_all (map (loc i) ys) (ix s) = Some x" "index_ok x L"
      "view_of x L = foldl (newest fst) (view_of (ix s) L) (map (\<lambda>y. rec_view (snd y)) ys)"
    using replay_view [OF assms(5,6)] by blast
  have "replay_file i m s =
      (Inr (hinted (disk s) i, c, max_seq m (log_recs (file_at (disk s) i))), s\<lparr>ix := x, disk := disk s\<rparr>)"
  proof (cases "hinted (disk s) i")
    case True
    then have "c = 0" "ys = placed 0 (log_recs (file_at (disk s) i))" using assms(4) by (auto simp: committed_def)
    then show ?thesis
      using True x(1) hinted_replay [OF d True, of "Some (ix s)" m] by (simp add: replay_file_def hintExists_good [OF d(1)])
  next
    case False
    then have st: "stage [] 0 (placed 0 (log_recs (file_at (disk s) i))) = (c, ys)" using assms(4) by (simp add: committed_def)
    show ?thesis
      using False x(1) scanIntoIndex_good [OF d(1,3) st, of "Some (ix s)" m]
      by (simp add: replay_file_def hintExists_good [OF d(1)])
  qed
  then show ?thesis using that x(2,3) store_ix_disk [of "disk s" s x] by simp
qed

section \<open>Opening the files\<close>

lemma files_ok_open:
  assumes "files_ok fl ds d" and "map_of fl i = None" and "map_of (dir d) (dataPath i) = Some j"
    and "j < length (inodes d)" and "n \<le> length (content (inodes d ! j))"
    and inj: "\<And>m m' j. map_of (dir d) m = Some j \<Longrightarrow> map_of (dir d) m' = Some j \<Longrightarrow> m = m'"
    and df: "df = \<lparr> did = i, dpath = dataPath i, dfile = \<lparr> ino = j, fopen = True, fwr = w \<rparr>, dsize = n \<rparr>"
  shows "files_ok (AList.update i (length ds) fl) (ds @ [df]) d"
    and "log_of (AList.update i (length ds) fl) (ds @ [df]) d = (log_of fl ds d)(i := take n (content (inodes d ! j)))"
proof -
  have old: "p < length ds" "k \<noteq> i" "ino (dfile (ds ! p)) \<noteq> j" if "map_of fl k = Some p" for k p
    using files_okD(1,7) [OF assms(1) that] assms(2,3) that inj [of "dataPath k" _ "dataPath i"] by auto
  show "files_ok (AList.update i (length ds) fl) (ds @ [df]) d"
    unfolding files_ok_def
  proof (intro conjI allI impI)
    show "distinct (map fst (AList.update i (length ds) fl))"
      using assms(1) by (simp add: files_ok_def distinct_update)
  next
    fix k p assume k: "map_of (AList.update i (length ds) fl) k = Some p"
    let ?n = "(ds @ [df]) ! p"
    show "p < length (ds @ [df])" "did ?n = k" "dpath ?n = dataPath k" "fopen (dfile ?n)"
      "ino (dfile ?n) < length (inodes d)" "dsize ?n \<le> length (content (inodes d ! ino (dfile ?n)))"
      "map_of (dir d) (dataPath k) = Some (ino (dfile ?n))"
      using k old [of k p] files_okD [OF assms(1), of k p] assms(3-5) df
      by (auto simp: update_conv' nth_append split: if_splits)
  next
    fix k l p q
    assume "map_of (AList.update i (length ds) fl) k = Some p" "map_of (AList.update i (length ds) fl) l = Some q"
      "ino (dfile ((ds @ [df]) ! p)) = ino (dfile ((ds @ [df]) ! q))"
    then show "k = l"
      using old [of k p] old [of l q] files_ok_inj [OF assms(1), of k p l q] df
      by (auto simp: update_conv' nth_append split: if_splits)
  qed
  show "log_of (AList.update i (length ds) fl) (ds @ [df]) d = (log_of fl ds d)(i := take n (content (inodes d ! j)))"
  proof
    fix k
    show "log_of (AList.update i (length ds) fl) (ds @ [df]) d k = ((log_of fl ds d)(i := take n (content (inodes d ! j)))) k"
      using old [of k] df by (auto simp: log_of_def update_conv' nth_append split: option.splits)
  qed
qed

lemma openDataFile_good:
  assumes "good_dir d ids" and "map_of (dir d) (dataPath i) = Some j"
  shows "openDataFile i w d = (Inr \<lparr> did = i, dpath = dataPath i, dfile = \<lparr> ino = j, fopen = True, fwr = w \<rparr>,
    dsize = length (content (inodes d ! j)) \<rparr>, d)"
  using good_dirD(1) [OF assms(1)] good_dirD(5) [OF assms] assms(2)
  by (simp add: openDataFile_def openFile_good fileSize_def the_file_def)

text \<open>
  The state between two files: \<open>m\<close> holds what the files replayed so far say, \<open>L\<close> is the logs as the
  recovery leaves them.
\<close>

definition opts :: "store \<Rightarrow> nat \<times> SyncMode \<times> bool \<times> bool \<times> u64 list \<times> u32 list" where
  "opts s = (maxFileSize s, syncMode s, closed s, dirty s, obs s, hintJobs s)"

definition mid_replay :: "store \<Rightarrow> (u32 \<Rightarrow> bytes) \<Rightarrow> u32 list \<Rightarrow> (bytes \<Rightarrow> (u64 \<times> bytes option) option) \<Rightarrow> store \<Rightarrow> bool" where
  "mid_replay s0 L ids m s \<longleftrightarrow> opts s = opts s0 \<and> files_ok (files s) (dfs s) (disk s) \<and>
     (\<forall>i. map_of (files s) i \<noteq> None \<longleftrightarrow> i \<in> set ids) \<and> (\<forall>i \<in> set ids. logs s i = L i) \<and>
     index_ok (ix s) L \<and> view_of (ix s) L = m \<and> faults (disk s) = [] \<and> dir (disk s) = dir (disk s0) \<and>
     nextID s = (if ids = [] then 0 else last ids + 1)"

definition replay_recs :: "fs \<Rightarrow> u32 \<Rightarrow> krecord list" where
  "replay_recs d i = map snd (snd (committed d i))"

lemma mid_replay_open:
  assumes "mid_replay s0 L ids m s" and "i \<notin> set ids" and "\<forall>k \<in> set ids. k < i"
    and "good_dir (disk s) ids'" and "map_of (dir (disk s)) (dataPath i) = Some j"
    and "n \<le> length (content (inodes (disk s) ! j))" and "L i = take n (content (inodes (disk s) ! j))"
    and "index_ok x L"
    and "df = \<lparr> did = i, dpath = dataPath i, dfile = \<lparr> ino = j, fopen = True, fwr = w \<rparr>, dsize = n \<rparr>"
  shows "mid_replay s0 L (ids @ [i]) (view_of x L) (s\<lparr>ix := x, dfs := dfs s @ [df], files := AList.update i (length (dfs s)) (files s),
    nextID := (if i \<ge> nextID s then i + 1 else nextID s)\<rparr>)"
proof -
  have none: "map_of (files s) i = None" using assms(1,2) unfolding mid_replay_def by blast
  have fok: "files_ok (files s) (dfs s) (disk s)" using assms(1) by (simp add: mid_replay_def)
  have jl: "j < length (inodes (disk s))" using good_dirD(5) [OF assms(4,5)] by simp
  note o = files_ok_open [OF fok none assms(5) jl assms(6) good_dirD(6) [OF assms(4)] assms(9)]
  have "nextID s \<le> i"
  proof (cases "ids = []")
    case True
    then show ?thesis using assms(1) by (simp add: mid_replay_def)
  next
    case False
    then have "last ids < i" using assms(3) by simp
    then have "last ids + 1 \<le> i" by unat_arith
    then show ?thesis using False assms(1) by (simp add: mid_replay_def)
  qed
  moreover have "\<forall>k \<in> set ids. log_of (files s) (dfs s) (disk s) k = L k" using assms(1) by (simp add: mid_replay_def)
  ultimately show ?thesis
    using assms(1,2,7,8) o unfolding mid_replay_def by (simp add: update_conv' opts_def)
qed

lemma committed_in_log:
  assumes "committed d i = (c, ys)" and "y \<in> set ys"
  shows "in_log (if hinted d i then file_at d i else take c (file_at d i)) y"
proof -
  define rs where "rs = log_recs (file_at d i)"
  obtain tail where t: "file_at d i = [] @ encode_all rs @ tail" "list_all wf_rec rs"
    using log_recs_split [of "file_at d i"] unfolding rs_def by (metis append_Nil)
  have all: "in_log (file_at d i) z" if "z \<in> set (placed 0 rs)" for z
    using placed_in_log [OF t(1) _ t(2) that] by simp
  show "in_log (if hinted d i then file_at d i else take c (file_at d i)) y"
  proof (cases "hinted d i")
    case True
    then show ?thesis using assms all by (simp add: committed_def rs_def)
  next
    case False
    then have st: "stage [] 0 (placed 0 rs) = (c, ys)" using assms(1) by (simp add: committed_def rs_def)
    obtain p r where y: "y = (p, r)" by fastforce
    have "p + rec_size r \<le> c" using stage_bound [OF st] assms(2) y by auto
    moreover have "in_log (file_at d i) (p, r)" using stage_sub [OF st] assms(2) y all by auto
    ultimately show ?thesis using False in_log_take y by simp
  qed
qed

lemma committed_bound: "committed d i = (c, ys) \<Longrightarrow> c \<le> length (file_at d i)"
proof -
  assume c: "committed d i = (c, ys)"
  define rs where "rs = log_recs (file_at d i)"
  obtain tail where t: "file_at d i = encode_all rs @ tail" using log_recs_split unfolding rs_def by metis
  show "c \<le> length (file_at d i)"
  proof (cases "hinted d i")
    case False
    then have "stage [] 0 (placed 0 rs) = (c, ys)" using c by (simp add: committed_def rs_def)
    from stage_bound [OF this] show ?thesis unfolding t by simp
  qed (use c in \<open>simp add: committed_def\<close>)
qed

lemma on_disk_same: "f (disk s) = (r, disk s) \<Longrightarrow> on_disk f s = (r, s)"
  by (cases s) (simp add: on_disk_def)

lemma recover_file_inner:
  assumes "mid_replay s0 L ids m s" and "disk s = disk s0" and d: "good_dir (disk s) ids'" "good_hints (disk s) ids'" "i \<in> set ids'"
    and "\<forall>k \<in> set ids. k < i" and "L i = file_at (disk s) i"
  shows "\<exists>s'. recover_file False i (mx, tb, ra) s =
      (Inr (max_seq mx (log_recs (file_at (disk s) i)), tb + length (L i), ra), s') \<and> disk s' = disk s0 \<and>
    mid_replay s0 L (ids @ [i]) (foldl (newest fst) m (map rec_view (replay_recs (disk s) i))) s'"
proof -
  obtain c ys where c: "committed (disk s) i = (c, ys)" by fastforce
  obtain j where j: "map_of (dir (disk s)) (dataPath i) = Some j" "file_at (disk s) i = content (inodes (disk s) ! j)"
    by (rule good_file [OF d(1,3)])
  have ix: "index_ok (ix s) L" "view_of (ix s) L = m" using assms(1) by (simp_all add: mid_replay_def)
  have "\<forall>y \<in> set ys. in_log (L i) y"
    using committed_in_log(1) [OF c] in_log_untake unfolding assms(7) by (metis (full_types))
  from replay_file_good [OF d c ix(1) this] obtain x where x: "replay_file i mx s =
      (Inr (hinted (disk s) i, c, max_seq mx (log_recs (file_at (disk s) i))), s\<lparr>ix := x\<rparr>)" "index_ok x L"
      "view_of x L = foldl (newest fst) (view_of (ix s) L) (map (\<lambda>y. rec_view (snd y)) ys)" by metis
  note op = openDataFile_good [OF d(1) j(1), of False]
  let ?df = "\<lparr> did = i, dpath = dataPath i, dfile = \<lparr> ino = j, fopen = True, fwr = False \<rparr>, dsize = length (content (inodes (disk s) ! j)) \<rparr>"
  let ?s = "s\<lparr>ix := x, dfs := dfs s @ [?df], files := AList.update i (length (dfs s)) (files s),
    nextID := (if i \<ge> nextID s then i + 1 else nextID s)\<rparr>"
  have "on_disk (openDataFile i False) (s\<lparr>ix := x\<rparr>) = (Inr ?df, s\<lparr>ix := x\<rparr>)"
    by (rule on_disk_same) (simp add: op)
  then have "recover_file False i (mx, tb, ra) s =
      (Inr (max_seq mx (log_recs (file_at (disk s) i)), tb + length (L i), ra), ?s)"
    using x(1) assms(7) j(2) by (simp add: recover_file_def)
  moreover have "mid_replay s0 L (ids @ [i]) (view_of x L) ?s"
    by (rule mid_replay_open [OF assms(1) _ assms(6) d(1) j(1) order.refl _ x(2) refl]) (use assms(6,7) j(2) in auto)
  moreover have "view_of x L = foldl (newest fst) m (map rec_view (replay_recs (disk s) i))"
    using x(3) c ix(2) by (simp add: replay_recs_def comp_def)
  ultimately show ?thesis using assms(2) by simp
qed

text \<open>Cutting a file.\<close>

lemma cut_file:
  assumes "faults d = []" and "fopen f" and "fwr f" and "ino f < length (inodes d)" and "c \<le> length (content (inodes d ! ino f))"
  obtains d1 d2 where "Truncate f c d = (Inr (), d1)" "SyncFile f d1 = (Inr (), d2)" "faults d2 = []" "dir d2 = dir d"
    "length (inodes d2) = length (inodes d)" "\<forall>j. isdir (inodes d2 ! j) = isdir (inodes d ! j)"
    "content (inodes d2 ! ino f) = take c (content (inodes d ! ino f))" "\<forall>j. j \<noteq> ino f \<longrightarrow> inodes d2 ! j = inodes d ! j"
  using assms
  by (simp add: Truncate_def SyncFile_def Let_def set_file_def the_file_def nth_list_update)

lemma good_dir_same_names:
  assumes "good_dir d ids" and "faults d' = []" and "dir d' = dir d" and "length (inodes d') = length (inodes d)"
    and "\<forall>j. isdir (inodes d' ! j) = isdir (inodes d ! j)"
  shows "good_dir d' ids"
  using assms(1) unfolding good_dir_def assms(2-4) using assms(5) by blast

lemma mid_replay_cut:
  assumes "mid_replay s0 L ids m s" and "good_dir (disk s) ids'" and "map_of (dir (disk s)) (dataPath i) = Some j"
    and "\<forall>k \<in> set ids. k < i" and "faults d = []" and "dir d = dir (disk s)" and "length (inodes d) = length (inodes (disk s))"
    and "\<forall>k. k \<noteq> j \<longrightarrow> inodes d ! k = inodes (disk s) ! k"
  shows "mid_replay s0 L ids m (s\<lparr>disk := d\<rparr>)"
proof -
  have ok: "files_ok (files s) (dfs s) (disk s)" "map_of (files s) k \<noteq> None \<longleftrightarrow> k \<in> set ids" for k
    using assms(1) unfolding mid_replay_def by blast+
  have other: "ino (dfile (dfs s ! p)) \<noteq> j" if "map_of (files s) k = Some p" for k p
    using good_dirD(6) [OF assms(2) files_okD(7) [OF ok(1) that], of "dataPath i"] assms(3,4) ok(2) [of k] that by auto
  have keep: "take (dsize (dfs s ! p)) (content (inodes d ! ino (dfile (dfs s ! p)))) =
      take (dsize (dfs s ! p)) (content (inodes (disk s) ! ino (dfile (dfs s ! p)))) \<and>
      dsize (dfs s ! p) \<le> length (content (inodes d ! ino (dfile (dfs s ! p))))" if "map_of (files s) k = Some p" for k p
    using assms(8) other [OF that] files_okD(6) [OF ok(1) that] by simp
  note f = files_ok_frame [OF ok(1) assms(6) _ keep]
  show ?thesis using assms(1,5-7) f unfolding mid_replay_def by (simp add: opts_def)
qed

lemma recover_file_last:
  assumes "mid_replay s0 L ids m s" and "disk s = disk s0" and d: "good_dir (disk s) ids'" "good_hints (disk s) ids'" "i \<in> set ids'"
    and "\<forall>k \<in> set ids. k < i" and c: "committed (disk s) i = (c, ys)"
    and L: "L i = (if hinted (disk s) i then file_at (disk s) i else take c (file_at (disk s) i))"
  shows "\<exists>s' ra. recover_file True i (mx, tb, None) s =
      (Inr (max_seq mx (log_recs (file_at (disk s) i)), tb + length (L i), ra), s') \<and> good_dir (disk s') ids' \<and>
    mid_replay s0 L (ids @ [i]) (foldl (newest fst) m (map rec_view (replay_recs (disk s) i))) s' \<and>
    (\<forall>p. ra = Some p \<longrightarrow> p < length (dfs s') \<and> map_of (files s') (did (dfs s' ! p)) = Some p \<and>
       fopen (dfile (dfs s' ! p)) \<and> fwr (dfile (dfs s' ! p)))"
proof -
  obtain j where j: "map_of (dir (disk s)) (dataPath i) = Some j" "file_at (disk s) i = content (inodes (disk s) ! j)"
    by (rule good_file [OF d(1,3)])
  have ix: "index_ok (ix s) L" "view_of (ix s) L = m" using assms(1) by (simp_all add: mid_replay_def)
  have "\<forall>y \<in> set ys. in_log (L i) y" using committed_in_log [OF c] unfolding L by blast
  from replay_file_good [OF d c ix(1) this] obtain x where x: "replay_file i mx s =
      (Inr (hinted (disk s) i, c, max_seq mx (log_recs (file_at (disk s) i))), s\<lparr>ix := x\<rparr>)" "index_ok x L"
      "view_of x L = foldl (newest fst) (view_of (ix s) L) (map (\<lambda>y. rec_view (snd y)) ys)" by metis
  note op = openDataFile_good [OF d(1) j(1), of True]
  have cb: "c \<le> length (content (inodes (disk s) ! j))" using committed_bound [OF c] j(2) by simp
  let ?f = "\<lparr> ino = j, fopen = True, fwr = True \<rparr>"
  let ?df = "\<lambda>n. \<lparr> did = i, dpath = dataPath i, dfile = ?f, dsize = n \<rparr>"
  let ?s = "\<lambda>n s. s\<lparr>ix := x, dfs := dfs s @ [?df n], files := AList.update i (length (dfs s)) (files s),
    nextID := (if i \<ge> nextID s then i + 1 else nextID s)\<rparr>"
  have v: "view_of x L = foldl (newest fst) m (map rec_view (replay_recs (disk s) i))"
    using x(3) c ix(2) by (simp add: replay_recs_def comp_def)
  have op': "on_disk (openDataFile i True) (s\<lparr>ix := x\<rparr>) = (Inr (?df (length (content (inodes (disk s) ! j)))), s\<lparr>ix := x\<rparr>)"
    by (rule on_disk_same) (simp add: op)
  have ptr: "map_of (files (?s n s1)) (did (dfs (?s n s1) ! length (dfs s1))) = Some (length (dfs s1))" for n s1
    by (simp add: update_conv')
  show ?thesis
  proof (cases "\<not> hinted (disk s) i \<and> c < length (content (inodes (disk s) ! j))")
    case False
    let ?n = "length (content (inodes (disk s) ! j))"
    have Li: "L i = content (inodes (disk s) ! j)" using False cb L j(2) by auto
    have "recover_file True i (mx, tb, None) s = (Inr (max_seq mx (log_recs (file_at (disk s) i)), tb + length (L i),
        if \<not> hinted (disk s) i \<and> ?n < maxFileSize s then Some (length (dfs s)) else None), ?s ?n s)"
      using False x(1) op' Li by (auto simp: recover_file_def Let_def)
    moreover have "mid_replay s0 L (ids @ [i]) (view_of x L) (?s ?n s)"
      by (rule mid_replay_open [OF assms(1) _ assms(6) d(1) j(1) order.refl _ x(2) refl]) (use assms(6) Li in auto)
    ultimately show ?thesis using v d(1) by (auto simp: update_conv')
  next
    case True
    have jl: "j < length (inodes (disk s))" using good_dirD(5) [OF d(1) j(1)] by simp
    obtain d1 d2 where cut: "Truncate ?f c (disk s) = (Inr (), d1)" "SyncFile ?f d1 = (Inr (), d2)" "faults d2 = []"
        "dir d2 = dir (disk s)" "length (inodes d2) = length (inodes (disk s))"
        "\<forall>j. isdir (inodes d2 ! j) = isdir (inodes (disk s) ! j)"
        "content (inodes d2 ! j) = take c (content (inodes (disk s) ! j))" "\<forall>k. k \<noteq> j \<longrightarrow> inodes d2 ! k = inodes (disk s) ! k"
      using cut_file [of "disk s" ?f c] good_dirD(1) [OF d(1)] jl cb by auto
    have Li: "L i = take c (content (inodes (disk s) ! j))" using True L j(2) by simp
    have g2: "good_dir d2 ids'" by (rule good_dir_same_names [OF d(1) cut(3-6)])
    have "recover_file True i (mx, tb, None) s = (Inr (max_seq mx (log_recs (file_at (disk s) i)), tb + length (L i),
        if c < maxFileSize s then Some (length (dfs s)) else None), ?s c (s\<lparr>disk := d2\<rparr>))"
      using True x(1) op' cut(1,2) Li by (simp add: recover_file_def Let_def on_disk_def)
    moreover have "mid_replay s0 L (ids @ [i]) (view_of x L) (?s c (s\<lparr>disk := d2\<rparr>))"
    proof (rule mid_replay_open [OF mid_replay_cut [OF assms(1) d(1) j(1) assms(6) cut(3-5,8)] _ assms(6) _ _ _ _ x(2) refl])
      show "i \<notin> set ids" using assms(6) by auto
      show "good_dir (disk (s\<lparr>disk := d2\<rparr>)) ids'" "map_of (dir (disk (s\<lparr>disk := d2\<rparr>))) (dataPath i) = Some j"
        "c \<le> length (content (inodes (disk (s\<lparr>disk := d2\<rparr>)) ! j))" "L i = take c (content (inodes (disk (s\<lparr>disk := d2\<rparr>)) ! j))"
        using g2 cut(4,7) j(1) cb Li by simp_all
    qed
    ultimately show ?thesis using v g2 by (auto simp: update_conv')
  qed
qed

section \<open>Recovering a store\<close>

text \<open>The logs of a recovered store, and the records it takes from them.\<close>

definition final_log :: "fs \<Rightarrow> u32 list \<Rightarrow> u32 \<Rightarrow> bytes" where
  "final_log d ids i =
     (if i \<notin> set ids then []
      else if i = last ids \<and> \<not> hinted d i then take (fst (committed d i)) (file_at d i)
      else file_at d i)"

definition recovered :: "fs \<Rightarrow> u32 list \<Rightarrow> krecord list" where
  "recovered d ids = concat (map (replay_recs d) ids)"

definition all_recs :: "fs \<Rightarrow> u32 list \<Rightarrow> krecord list" where
  "all_recs d ids = concat (map (\<lambda>i. log_recs (file_at d i)) ids)"

lemma max_seq_append: "max_seq m (xs @ ys) = max_seq (max_seq m xs) ys"
  by (simp add: max_seq_def)

lemma recover_files_good:
  assumes "todo \<noteq> []" and "ids = done @ todo" and "mid_replay s0 L done m s" and "disk s = disk s0"
    and d: "good_dir (disk s0) ids" "good_hints (disk s0) ids" and "L = final_log (disk s0) ids"
  shows "\<exists>s' ra n. recover_files todo (mx, tb, None) s = (Inr (max_seq mx (all_recs (disk s0) todo), n, ra), s') \<and>
    good_dir (disk s') ids \<and> mid_replay s0 L ids (foldl (newest fst) m (map rec_view (recovered (disk s0) todo))) s' \<and>
    (\<forall>p. ra = Some p \<longrightarrow> p < length (dfs s') \<and> map_of (files s') (did (dfs s' ! p)) = Some p \<and>
       fopen (dfile (dfs s' ! p)) \<and> fwr (dfile (dfs s' ! p)))"
  using assms(1-4)
proof (induction todo arbitrary: "done" m s mx tb)
  case (Cons i todo)
  have ord: "\<forall>k \<in> set done. k < i" "i \<in> set ids"
    using good_dirD(2,3) [OF d(1)] Cons.prems(2) by (auto simp: sorted_append less_le)
  have gd: "good_dir (disk s) ids" "good_hints (disk s) ids" using d Cons.prems(4) by simp_all
  show ?case
  proof (cases "todo = []")
    case True
    obtain c ys where c: "committed (disk s) i = (c, ys)" by fastforce
    have "L i = (if hinted (disk s) i then file_at (disk s) i else take c (file_at (disk s) i))"
      using c True Cons.prems(2,4) ord(2) by (simp add: assms(7) final_log_def)
    from recover_file_last [OF Cons.prems(3,4) gd ord(2,1) c this, of mx tb]
    show ?thesis using True Cons.prems(2,4) by (fastforce simp: recovered_def all_recs_def)
  next
    case False
    have "i \<noteq> last ids" using False Cons.prems(2) good_dirD(3) [OF d(1)] last_in_set [OF False] by auto
    then have "L i = file_at (disk s) i" using Cons.prems(4) ord(2) by (simp add: assms(7) final_log_def)
    from recover_file_inner [OF Cons.prems(3,4) gd ord(2,1) this, of mx tb None] obtain s1 where
      1: "recover_file False i (mx, tb, None) s = (Inr (max_seq mx (log_recs (file_at (disk s) i)), tb + length (L i), None), s1)"
        "disk s1 = disk s0" "mid_replay s0 L (done @ [i]) (foldl (newest fst) m (map rec_view (replay_recs (disk s) i))) s1"
      by blast
    have ids: "ids = (done @ [i]) @ todo" using Cons.prems(2) by simp
    show ?thesis
      using Cons.IH [OF False ids 1(3,2), of "max_seq mx (log_recs (file_at (disk s) i))" "tb + length (L i)"] False 1(1) Cons.prems(4)
      by (simp add: recovered_def all_recs_def max_seq_append)
  qed
qed simp

text \<open>The live counters of a recount.\<close>

lemma recount_counts:
  assumes "index_inv x"
  shows "counts_ok x
    (sum_list (map (\<lambda>e. int (unat (esize e))) (filter (\<lambda>e. \<not> tomb e) (map (\<lambda>(k, a). ent (heap x ! a)) (keys x)))))
    (int (length (filter (\<lambda>e. \<not> tomb e) (map (\<lambda>(k, a). ent (heap x ! a)) (keys x)))))"
proof -
  have dist: "distinct (map fst (keys x))" using assms by (simp add: index_inv_def)
  have dom: "dom (idx_lookup x) = set (map fst (keys x))"
    by (auto simp: idx_lookup_def dom_def map_of_eq_None_iff image_iff)
  have sum: "(\<Sum>k \<in> dom (idx_lookup x). f (idx_lookup x k)) = sum_list (map (\<lambda>(k, a). f (Some (ent (heap x ! a)))) (keys x))"
    for f :: "entry option \<Rightarrow> int"
  proof -
    have "map (\<lambda>(k, a). f (Some (ent (heap x ! a)))) (keys x) = map (\<lambda>k. f (idx_lookup x k)) (map fst (keys x))"
      using dist by (auto simp: idx_lookup_def map_of_eq_Some_iff)
    then show ?thesis using dist by (simp only: dom sum_list_distinct_conv_sum_set)
  qed
  have size: "sum_list (map (\<lambda>(k, a). live_size (Some (ent (heap x ! a)))) ys) =
      sum_list (map (\<lambda>e. int (unat (esize e))) (filter (\<lambda>e. \<not> tomb e) (map (\<lambda>(k, a). ent (heap x ! a)) ys)))" for ys
    by (induction ys) (auto simp: live_size_def)
  have one: "sum_list (map (\<lambda>(k, a). live_one (Some (ent (heap x ! a)))) ys) =
      int (length (filter (\<lambda>e. \<not> tomb e) (map (\<lambda>(k, a). ent (heap x ! a)) ys)))" for ys
    by (induction ys) (auto simp: live_one_def)
  show ?thesis unfolding counts_ok_def sum size one by simp
qed

lemma view_versions:
  assumes "\<forall>k v. m k = Some v \<longrightarrow> fst v \<le> n" and "\<forall>r \<in> set rs. rseq r \<le> n"
  shows "\<forall>k v. foldl (newest fst) m (map rec_view rs) k = Some v \<longrightarrow> fst v \<le> n"
  using assms
proof (induction rs arbitrary: m)
  case (Cons r rs)
  have "\<forall>k v. newest fst m (rec_view r) k = Some v \<longrightarrow> fst v \<le> n"
    using Cons.prems by (auto simp: newest_def rec_view_def payload_def split: option.splits if_splits)
  then show ?case using Cons.IH Cons.prems(2) by simp
qed simp

lemma replay_recs_sub: "set (replay_recs d i) \<subseteq> set (log_recs (file_at d i))"
proof -
  have "map snd (placed p rs) = rs" for p rs by (induction rs arbitrary: p) simp_all
  then have sub: "snd ` set (placed p rs) = set rs" for p rs by (metis set_map)
  show ?thesis
  proof (cases "hinted d i")
    case True
    then show ?thesis using sub by (simp add: replay_recs_def committed_def)
  next
    case False
    obtain c ys where st: "stage [] 0 (placed 0 (log_recs (file_at d i))) = (c, ys)" by fastforce
    then show ?thesis
      using False image_mono [OF stage_sub [OF st], of snd] sub by (simp add: replay_recs_def committed_def)
  qed
qed

lemma recovered_sub: "set (recovered d ids) \<subseteq> set (all_recs d ids)"
  using replay_recs_sub by (fastforce simp: recovered_def all_recs_def)

lemma readManifest_calm: "faults d = [] \<Longrightarrow> \<exists>m. readManifest d = (m, d)"
  by (simp add: readManifest_def openFile_def readAll_def split: option.splits)

lemma recountLocked_ok:
  assumes "files_ok (files s) (dfs s) (disk s)" and "active_ok (active s) (files s) (dfs s)"
    and "index_ok (ix s) (logs s)" and "seq_ok s"
  shows "store_ok (recountLocked s)"
proof -
  have "index_inv (ix s)" using assms(3) by (simp add: index_ok_def)
  from recount_counts [OF this] show ?thesis
    using assms by (simp add: recountLocked_def Let_def store_ok_def store_inv_def seq_ok_def)
qed

definition calm_active :: "store \<Rightarrow> bool" where
  "calm_active s \<longleftrightarrow> (\<exists>p. active s = Some p \<and> fopen (dfile (dfs s ! p)) \<and> fwr (dfile (dfs s ! p)))"

lemma openNewActive_blank:
  assumes "files_ok (files s) (dfs s) (disk s)" and "faults (disk s) = []" and "map_of (dir (disk s)) (dataPath (nextID s)) = None"
  obtains s' where "openNewActive s = (Inr (), s')" "files_ok (files s') (dfs s') (disk s')" "logs s' = logs s"
    "active_ok (active s') (files s') (dfs s')" "calm_active s'" "ix s' = ix s" "seq s' = seq s" "opts s' = opts s"
    "nextID s' = nextID s + 1" "faults (disk s') = []"
    "\<forall>n. n \<noteq> dataPath (nextID s) \<longrightarrow> map_of (dir (disk s')) n = map_of (dir (disk s)) n"
proof -
  obtain df d where c: "createDataFile (nextID s) (disk s) = (Inr df, d)" "faults d = []"
    using assms(2,3) by (simp add: createDataFile_def openExcl_def)
  note o = files_ok_create [OF assms(1) c(1)] and i = createDataFile_Inr [OF c(1)]
  let ?d = "d\<lparr>ddir := dir d\<rparr>"
  let ?s = "s\<lparr>nextID := nextID s + 1, dfs := dfs s @ [df], files := AList.update (nextID s) (length (dfs s)) (files s),
    active := Some (length (dfs s)), disk := ?d\<rparr>"
  have "openNewActive s = (Inr (), ?s)"
    using c i(1) by (simp add: openNewActive_def on_disk_def Let_def syncDir_def)
  moreover have "files_ok (files ?s) (dfs ?s) (disk ?s)" "logs ?s = logs s"
    using files_ok_dir [OF o(1), of ?d] o(2) by simp_all
  moreover have "active_ok (active ?s) (files ?s) (dfs ?s)" "calm_active ?s"
    using i(1) by (simp_all add: active_ok_def calm_active_def update_conv')
  moreover have "\<forall>n. n \<noteq> dataPath (nextID s) \<longrightarrow> map_of (dir (disk ?s)) n = map_of (dir (disk s)) n"
    using i(3) by (simp add: update_conv')
  ultimately show ?thesis using that c(2) by (simp add: opts_def)
qed

lemma next_fresh:
  fixes ids :: "u32 list"
  assumes "sorted ids" and "\<forall>i \<in> set ids. unat i < 2 ^ 32 - 2"
  shows "(if ids = [] then 0 else last ids + 1) \<notin> set ids \<and> (if ids = [] then 0 else last ids + 1) + 1 \<notin> set ids"
proof (cases ids rule: rev_cases)
  case (snoc js l)
  have "unat l + 2 < 2 ^ 32" using assms(2) snoc by simp
  then have "unat (l + 1) = unat l + 1" "unat (l + 1 + 1) = unat l + 2" by (simp_all add: unat_word_ariths)
  moreover have "\<forall>i \<in> set ids. unat i \<le> unat l" using assms(1) snoc by (auto simp: sorted_append word_le_nat_alt)
  ultimately show ?thesis using snoc by fastforce
qed simp

text \<open>Up to the choice of the active file.\<close>

lemma recover_scan:
  assumes d: "good_dir d ids" "good_hints d ids"
  obtains s0 s1 ra n where "recover (blank_store c h d) =
      andThen (case ra of Some p \<Rightarrow> (Inr (), s1\<lparr>seq := max_seq 0 (all_recs d ids), active := Some p\<rparr>)
        | None \<Rightarrow> openNewActive (s1\<lparr>seq := max_seq 0 (all_recs d ids)\<rparr>))
        (\<lambda>_ s. (Inr (), recountLocked (s\<lparr>total := int n\<rparr>)))"
    "good_dir (disk s1) ids" "opts s0 = opts (blank_store c h d)"
    "mid_replay s0 (final_log d ids) ids (foldl (newest fst) Map.empty (map rec_view (recovered d ids))) s1"
    "\<forall>p. ra = Some p \<longrightarrow> p < length (dfs s1) \<and> map_of (files s1) (did (dfs s1 ! p)) = Some p \<and>
       fopen (dfile (dfs s1 ! p)) \<and> fwr (dfile (dfs s1 ! p))"
proof -
  obtain m where m: "readManifest d = (m, d)" using readManifest_calm [OF good_dirD(1) [OF d(1)]] by blast
  obtain r1 d1 where d1: "removeOrphanHints ids d = (r1, d1)" by fastforce
  note fn = removeOrphanHints_good [OF d(1) d1]
  note g = fewer_names_good [OF d(1) fn]
  have same: "committed d1 i = committed d i" if "i \<in> set ids" for i using g(2,3) that by (simp add: committed_def)
  then have "map (replay_recs d1) ids = map (replay_recs d) ids" by (simp add: replay_recs_def)
  then have rr: "recovered d1 ids = recovered d ids" by (simp only: recovered_def)
  have ar: "all_recs d1 ids = all_recs d ids" by (simp add: all_recs_def g(2))
  have fl: "final_log d1 ids = final_log d ids" using same g(2,3) by (auto simp: final_log_def)
  let ?s = "(blank_store c h d)\<lparr>mergeSeq := m, disk := d1\<rparr>"
  have mid0: "mid_replay ?s (final_log d1 ids) [] Map.empty ?s"
    using good_dirD(1) [OF g(1)] new_index_inv [of h]
    by (simp add: mid_replay_def blank_store_def files_ok_def index_ok_def lookup_new_index view_of_def fun_eq_iff)
  obtain s1 ra n where 1: "recover_files ids (0, 0, None) ?s = (Inr (max_seq 0 (all_recs d ids), n, ra), s1)"
      "good_dir (disk s1) ids" "mid_replay ?s (final_log d ids) ids (foldl (newest fst) Map.empty (map rec_view (recovered d ids))) s1"
      "\<forall>p. ra = Some p \<longrightarrow> p < length (dfs s1) \<and> map_of (files s1) (did (dfs s1 ! p)) = Some p \<and>
         fopen (dfile (dfs s1 ! p)) \<and> fwr (dfile (dfs s1 ! p))"
  proof (cases "ids = []")
    case True
    have "mid_replay ?s (final_log d ids) [] Map.empty ?s" using mid0 unfolding fl .
    then show ?thesis
      by (intro that [of 0 None ?s]) (use g(1) in \<open>simp_all add: True all_recs_def max_seq_def recovered_def\<close>)
  next
    case False
    have "good_dir (disk ?s) ids" "good_hints (disk ?s) ids" using g(1,4) d(2) by simp_all
    from recover_files_good [OF False _ mid0 refl this, of 0 0] show ?thesis
      using that by (simp add: rr ar fl) blast
  qed
  let ?b = "(blank_store c h d)\<lparr>mergeSeq := m, disk := d\<rparr>"
  have "on_disk listDataFiles ?b = (Inr ids, ?b)"
    by (rule on_disk_same) (simp add: listDataFiles_good [OF d(1)])
  moreover have "ignore (on_disk (removeOrphanHints ids) ?b) = ?s"
    by (simp add: on_disk_def ignore_def d1)
  ultimately have "recover (blank_store c h d) =
    andThen (case ra of Some p \<Rightarrow> (Inr (), s1\<lparr>seq := max_seq 0 (all_recs d ids), active := Some p\<rparr>)
      | None \<Rightarrow> openNewActive (s1\<lparr>seq := max_seq 0 (all_recs d ids)\<rparr>))
      (\<lambda>_ s. (Inr (), recountLocked (s\<lparr>total := int n\<rparr>)))"
    unfolding recover_def blank_store_disk m Let_def prod.case by (simp add: 1(1) cong: option.case_cong)
  then show ?thesis by (rule that) (use 1(2-4) in \<open>simp_all add: opts_def\<close>)
qed

lemma recover_ok:
  assumes d: "good_dir d ids" "good_hints d ids" and "\<forall>i \<in> set ids. unat i < 2 ^ 32 - 2"
  shows "\<exists>s. recover (blank_store c h d) = (Inr (), s) \<and> store_ok s \<and> calm s \<and>
    opts s = opts (blank_store c h d) \<and> seq s = max_seq 0 (all_recs d ids) \<and> logs s = final_log d ids \<and>
    view s = foldl (newest fst) Map.empty (map rec_view (recovered d ids))"
proof -
  obtain s0 s1 ra n where 1: "recover (blank_store c h d) =
      andThen (case ra of Some p \<Rightarrow> (Inr (), s1\<lparr>seq := max_seq 0 (all_recs d ids), active := Some p\<rparr>)
        | None \<Rightarrow> openNewActive (s1\<lparr>seq := max_seq 0 (all_recs d ids)\<rparr>))
        (\<lambda>_ s. (Inr (), recountLocked (s\<lparr>total := int n\<rparr>)))"
      "good_dir (disk s1) ids" "opts s0 = opts (blank_store c h d)"
      "mid_replay s0 (final_log d ids) ids (foldl (newest fst) Map.empty (map rec_view (recovered d ids))) s1"
      "\<forall>p. ra = Some p \<longrightarrow> p < length (dfs s1) \<and> map_of (files s1) (did (dfs s1 ! p)) = Some p \<and>
         fopen (dfile (dfs s1 ! p)) \<and> fwr (dfile (dfs s1 ! p))"
    by (rule recover_scan [OF d])
  define s2 where "s2 = s1\<lparr>seq := max_seq 0 (all_recs d ids)\<rparr>"
  have lg: "logs s1 = final_log d ids"
  proof
    fix i
    show "logs s1 i = final_log d ids i"
      using 1(4) unfolding mid_replay_def by (cases "i \<in> set ids") (auto simp: log_of_def final_log_def)
  qed
  have mr: "files_ok (files s1) (dfs s1) (disk s1)" "index_ok (ix s1) (logs s1)" "faults (disk s1) = []"
      "view s1 = foldl (newest fst) Map.empty (map rec_view (recovered d ids))" "opts s1 = opts (blank_store c h d)"
      "nextID s1 = (if ids = [] then 0 else last ids + 1)"
    using 1(3,4) lg by (simp_all add: mid_replay_def opts_def)
  have sq: "\<forall>k v. view s1 k = Some v \<longrightarrow> fst v \<le> max_seq 0 (all_recs d ids)"
    unfolding mr(4)
  proof (rule view_versions)
    show "\<forall>r \<in> set (recovered d ids). rseq r \<le> max_seq 0 (all_recs d ids)"
      using recovered_sub [of d ids] max_seq_ge [of 0 "all_recs d ids"] by blast
  qed simp
  have "nextID s1 \<notin> set ids \<and> nextID s1 + 1 \<notin> set ids" unfolding mr(6) using next_fresh [OF good_dirD(2) [OF d(1)] assms(3)] .
  then have free: "map_of (dir (disk s1)) (dataPath (nextID s1)) = None" "map_of (dir (disk s1)) (dataPath (nextID s1 + 1)) = None"
    using good_dirD(4) [OF 1(2)] by blast+
  show ?thesis
  proof (cases ra)
    case None
    have s2: "files_ok (files s2) (dfs s2) (disk s2)" "faults (disk s2) = []" "map_of (dir (disk s2)) (dataPath (nextID s2)) = None"
      using mr(1,3) free(1) by (simp_all add: s2_def)
    obtain s3 where s3: "openNewActive s2 = (Inr (), s3)" "files_ok (files s3) (dfs s3) (disk s3)" "logs s3 = logs s2"
        "active_ok (active s3) (files s3) (dfs s3)" "calm_active s3" "ix s3 = ix s2" "seq s3 = seq s2" "opts s3 = opts s2"
        "nextID s3 = nextID s2 + 1" "faults (disk s3) = []"
        "\<forall>n. n \<noteq> dataPath (nextID s2) \<longrightarrow> map_of (dir (disk s3)) n = map_of (dir (disk s2)) n"
      by (rule openNewActive_blank [OF s2])
    let ?t = "s3\<lparr>total := int n\<rparr>"
    have "store_ok (recountLocked ?t)"
      by (rule recountLocked_ok) (use s3 mr(2) sq in \<open>simp_all add: s2_def seq_ok_def\<close>)
    moreover have "calm (recountLocked ?t)"
      using s3(5,9-11) free(2) by (simp add: calm_def calm_active_def recountLocked_def Let_def s2_def)
    ultimately show ?thesis
      using None s3 mr(4,5) lg by (simp add: 1(1) recountLocked_def Let_def s2_def opts_def)
  next
    case (Some p)
    let ?t = "s2\<lparr>active := Some p, total := int n\<rparr>"
    have p: "p < length (dfs s1)" "map_of (files s1) (did (dfs s1 ! p)) = Some p" "fopen (dfile (dfs s1 ! p))" "fwr (dfile (dfs s1 ! p))"
      using 1(5) Some by simp_all
    have "store_ok (recountLocked ?t)"
      by (rule recountLocked_ok) (use mr(1,2) sq p in \<open>simp_all add: s2_def seq_ok_def active_ok_def\<close>)
    moreover have "calm (recountLocked ?t)"
      using mr(3) free(1) p by (simp add: calm_def recountLocked_def Let_def s2_def)
    ultimately show ?thesis
      using Some mr(4,5) lg by (simp add: 1(1) recountLocked_def Let_def s2_def opts_def)
  qed
qed

section \<open>Opening a store\<close>

lemma lockPath_other [simp]: "lockPath \<noteq> dataPath i" "lockPath \<noteq> hintPath i" "\<not> HasSuffix lockPath dataSuffix"
  "dataPath i \<noteq> lockPath" "hintPath i \<noteq> lockPath"
  by (auto simp: lockPath_def lit_def HasSuffix_def dataSuffix_def dest!: arg_cong [of _ _ last])

lemma acquireLock_disk:
  assumes a: "acquireLock pid k = (Inr f, k')" and g: "good_dir (osfs k) ids"
  shows "faults (osfs k') = []" and "distinct (map fst (dir (osfs k')))"
    and "n \<noteq> lockPath \<Longrightarrow> map_of (dir (osfs k')) n = map_of (dir (osfs k)) n"
    and "length (inodes (osfs k)) \<le> length (inodes (osfs k'))" and "ino f < length (inodes (osfs k'))" "\<not> isdir (inodes (osfs k') ! ino f)"
    and "j < length (inodes (osfs k)) \<Longrightarrow> j \<noteq> ino f \<Longrightarrow> inodes (osfs k') ! j = inodes (osfs k) ! j"
    and "ino f = length (inodes (osfs k)) \<or> map_of (dir (osfs k)) lockPath = Some (ino f)"
proof -
  define d where "d = snd (openCreate lockPath (osfs k))"
  note gd = good_dirD [OF g]
  have o: "openCreate lockPath (osfs k) = (Inr f, d)" and
    k': "osfs k' = ignore (WriteAt f (digits pid @ [10]) 0 (ignore (Truncate f 0 d)))"
    using acquireLock_steps [OF a] by (auto simp: d_def)
  have dist: "distinct (map fst (dir (osfs k)))" using g by (simp add: good_dir_def)
  have d: "faults d = [] \<and> distinct (map fst (dir d)) \<and> (n \<noteq> lockPath \<longrightarrow> map_of (dir d) n = map_of (dir (osfs k)) n) \<and>
      length (inodes (osfs k)) \<le> length (inodes d) \<and> ino f < length (inodes d) \<and> \<not> isdir (inodes d ! ino f) \<and>
      (j < length (inodes (osfs k)) \<longrightarrow> inodes d ! j = inodes (osfs k) ! j) \<and> fopen f \<and> fwr f \<and>
      (ino f = length (inodes (osfs k)) \<or> map_of (dir (osfs k)) lockPath = Some (ino f))"
  proof (cases "map_of (dir (osfs k)) lockPath")
    case None
    then show ?thesis using o gd(1) dist by (auto simp: openCreate_def update_conv' distinct_update nth_append new_inode_def)
  next
    case (Some i)
    then show ?thesis using o gd(1) gd(5) [OF Some] dist by (auto simp: openCreate_def)
  qed
  then have "osfs k' = d\<lparr>inodes := (inodes d)[ino f := (inodes d ! ino f)\<lparr>content := digits pid @ [10], durable := 0\<rparr>]\<rparr>"
    unfolding k' by (simp add: ignore_def Truncate_def WriteAt_def Let_def set_file_def the_file_def splice_def)
  with d show "faults (osfs k') = []" "distinct (map fst (dir (osfs k')))"
    "n \<noteq> lockPath \<Longrightarrow> map_of (dir (osfs k')) n = map_of (dir (osfs k)) n"
    "length (inodes (osfs k)) \<le> length (inodes (osfs k'))" "ino f < length (inodes (osfs k'))" "\<not> isdir (inodes (osfs k') ! ino f)"
    "j < length (inodes (osfs k)) \<Longrightarrow> j \<noteq> ino f \<Longrightarrow> inodes (osfs k') ! j = inodes (osfs k) ! j"
    "ino f = length (inodes (osfs k)) \<or> map_of (dir (osfs k)) lockPath = Some (ino f)"
    by simp_all
qed

lemma lock_good:
  assumes a: "acquireLock pid k = (Inr f, k')" and g: "good_dir (osfs k) ids"
  shows "good_dir (osfs k') ids" and "i \<in> set ids \<Longrightarrow> file_at (osfs k') i = file_at (osfs k) i"
    and "hinted (osfs k') i = hinted (osfs k) i" and "good_hints (osfs k) ids \<Longrightarrow> good_hints (osfs k') ids"
proof -
  note d = acquireLock_disk [OF a g] and gd = good_dirD [OF g]
  note lk = acquireLock_Inr [OF a]
  have other: "j \<noteq> ino f \<and> inodes (osfs k') ! j = inodes (osfs k) ! j"
    if "map_of (dir (osfs k)) n = Some j" "n \<noteq> lockPath" for n j
  proof -
    have "j < length (inodes (osfs k))" using gd(5) [OF that(1)] by simp
    moreover have "j \<noteq> ino f" using d(8) calculation gd(6) [OF that(1), of lockPath] that(2) by auto
    ultimately show ?thesis using d(7) by simp
  qed
  have data: "map_of (dir (osfs k')) (dataPath i) = map_of (dir (osfs k)) (dataPath i)"
      "map_of (dir (osfs k')) (hintPath i) = map_of (dir (osfs k)) (hintPath i)" for i
    by (rule d(3); metis lockPath_other)+
  show fa: "file_at (osfs k') i = file_at (osfs k) i" if "i \<in> set ids" for i
    using gd(4) [of i] that other [of "dataPath i"] lockPath_other(1) by (auto simp: file_at_def data)
  show "hinted (osfs k') i = hinted (osfs k) i" by (simp add: hinted_def data)
  show "good_hints (osfs k') ids" if "good_hints (osfs k) ids"
    using that fa other [of "hintPath _"] lockPath_other(2) unfolding good_hints_def data by metis
  show "good_dir (osfs k') ids"
    unfolding good_dir_def
  proof (intro conjI allI impI)
    show "faults (osfs k') = []" "distinct (map fst (dir (osfs k')))" "sorted ids" "distinct ids" using d(1,2) gd(2,3) by simp_all
    show "map_of (dir (osfs k')) (dataPath i) \<noteq> None \<longleftrightarrow> i \<in> set ids" for i unfolding data by (rule gd(4))
  next
    fix n j assume nj: "map_of (dir (osfs k')) n = Some j"
    have "j < length (inodes (osfs k')) \<and> \<not> isdir (inodes (osfs k') ! j)"
    proof (cases "n = lockPath")
      case True
      then show ?thesis using lk d(5,6) nj by simp
    next
      case False
      then have "map_of (dir (osfs k)) n = Some j" using d(3) nj by simp
      then show ?thesis using gd(5) other False d(4) by fastforce
    qed
    then show "j < length (inodes (osfs k'))" "\<not> isdir (inodes (osfs k') ! j)" by simp_all
  next
    fix n n' j assume "map_of (dir (osfs k')) n = Some j" "map_of (dir (osfs k')) n' = Some j"
    then show "n = n'" using lk d(3) other gd(6) by (metis option.inject)
  next
    fix n m assume "map_of (dir (osfs k')) n \<noteq> None" "HasSuffix n dataSuffix" "ParseUint (TrimSuffix n dataSuffix) 32 = Some m"
    then show "n = dataPath (of_nat m)" using g d(3) lockPath_other(3) unfolding good_dir_def by metis
  qed
qed

lemma Open_ok:
  assumes "os_ok k" and "\<not> held k" and "dirname \<noteq> []" and d: "good_dir (osfs k) ids" "good_hints (osfs k) ids"
    and b: "\<forall>i \<in> set ids. unat i < 2 ^ 32 - 2"
  shows "\<exists>s lk k'. Open c dirname pid h k = (Inr (s, lk), k') \<and> ino lk \<in> set (flocks k') \<and> osfs k' = disk s \<and>
    store_ok s \<and> calm s \<and> opts s = opts (blank_store (optionDefaults c) h (osfs k)) \<and>
    seq s = max_seq 0 (all_recs (osfs k) ids) \<and> logs s = final_log (osfs k) ids \<and>
    view s = foldl (newest fst) Map.empty (map rec_view (recovered (osfs k) ids))"
proof -
  obtain f k1 where a: "acquireLock pid k = (Inr f, k1)" "flocks k1 = ino f # flocks k"
    by (rule acquireLock_free [OF assms(1,2)])
  note g = lock_good [OF a(1) d(1)]
  obtain s where s: "recover (blank_store (optionDefaults c) h (osfs k1)) = (Inr (), s)" "store_ok s" "calm s"
      "opts s = opts (blank_store (optionDefaults c) h (osfs k1))"
      "seq s = max_seq 0 (all_recs (osfs k1) ids)" "logs s = final_log (osfs k1) ids"
      "view s = foldl (newest fst) Map.empty (map rec_view (recovered (osfs k1) ids))"
    using recover_ok [OF g(1) g(4) [OF d(2)] b] by blast
  have c: "committed (osfs k1) i = committed (osfs k) i" if "i \<in> set ids" for i
    using g(2) [OF that] g(3) [of i] by (simp add: committed_def)
  have r: "map (replay_recs (osfs k1)) ids = map (replay_recs (osfs k)) ids" using c by (simp add: replay_recs_def)
  have l: "map (\<lambda>i. log_recs (file_at (osfs k1) i)) ids = map (\<lambda>i. log_recs (file_at (osfs k) i)) ids" using g(2) by simp
  have same: "recovered (osfs k1) ids = recovered (osfs k) ids" "all_recs (osfs k1) ids = all_recs (osfs k) ids"
      "final_log (osfs k1) ids = final_log (osfs k) ids"
    unfolding recovered_def all_recs_def r l using c g(2,3) by (auto simp: final_log_def)
  have "k\<lparr>osfs := osfs k\<rparr> = k" by simp
  then have "Open c dirname pid h k = (Inr (s, f), k1\<lparr>osfs := disk s\<rparr>)"
    using assms(3) good_dirD(1) [OF d(1)] a(1) s(1) by (simp add: Open_def Let_def)
  then show ?thesis
    using s(2-7) a(2) unfolding same by (intro exI [of _ s] exI [of _ f] exI [of _ "k1\<lparr>osfs := disk s\<rparr>"])
      (simp add: opts_def blank_store_def)
qed

text \<open>
  C5. Opening a store rebuilds it from its directory: on a disk without I/O errors whose hint
  files are as \<open>buildHint\<close> writes them, \<open>Open\<close> takes the lock and succeeds, the store invariant
  holds, the highest sequence number is the highest in any log, and each key has the newest of
  the records that count: all records of a file with a hint, and otherwise those outside batches
  and those of complete batches. What follows the last such record in the last file is cut off;
  no other file is changed.
\<close>

theorem Open_recovers:
  assumes "os_ok k" and "\<not> held k" and "dirname \<noteq> []" and "good_dir (osfs k) ids" and "good_hints (osfs k) ids"
    and "\<forall>i \<in> set ids. unat i < 2 ^ 32 - 2"
  shows "\<exists>s lk k'. Open c dirname pid h k = (Inr (s, lk), k') \<and> ino lk \<in> set (flocks k') \<and> osfs k' = disk s \<and>
    store_ok s \<and> \<not> closed s \<and> seq s = max_seq 0 (all_recs (osfs k) ids) \<and> logs s = final_log (osfs k) ids \<and>
    view s = foldl (newest fst) Map.empty (map rec_view (recovered (osfs k) ids))"
  using Open_ok [OF assms, of c pid h] by (auto simp: opts_def blank_store_def)

text \<open>A directory with one data file: a record, a record of a batch whose end is missing, a torn one.\<close>

definition rec_whole :: krecord where
  "rec_whole = \<lparr> ts = 5, rseq = 1, flags = 0, key = [0x61], val = [0x63] \<rparr>"

definition options_ex :: Options where
  "options_ex = \<lparr> oMaxFileSize = 0, oSyncMode = SyncAlways, oSyncEvery = 0, oCompactionThreshold = (0, 1), oCompactionInterval = 0 \<rparr>"

definition rec_open :: krecord where
  "rec_open = \<lparr> ts = 5, rseq = 2, flags = flagBatch, key = [0x62], val = [0x63] \<rparr>"

definition disk_torn :: fs where
  "disk_torn = \<lparr> dir = [(dataPath 1, 0)], ddir = [(dataPath 1, 0)],
     inodes = [\<lparr> isdir = False, content = encode_all [rec_whole, rec_open] @ [1, 2, 3], durable = 0 \<rparr>], faults = [] \<rparr>"

lemma no_record_short: "length bs < 29 \<Longrightarrow> no_record bs"
  by (auto simp: no_record_def rec_size_def record_consts dest: arg_cong [of _ _ length])

lemma disk_torn_good: "good_dir disk_torn [1]" "good_hints disk_torn [1]" "file_at disk_torn 1 = encode_all [rec_whole, rec_open] @ [1, 2, 3]"
  "\<not> hinted disk_torn 1"
proof -
  show "good_dir disk_torn [1]"
    unfolding good_dir_def using parse_dataPath [of 1] by (auto simp: disk_torn_def split: if_splits)
  show "good_hints disk_torn [1]" "file_at disk_torn 1 = encode_all [rec_whole, rec_open] @ [1, 2, 3]" "\<not> hinted disk_torn 1"
    by (simp_all add: good_hints_def disk_torn_def file_at_def hinted_def)
qed

theorem Open_recovers_witness:
  "\<exists>s lk k'. Open options_ex (lit ''d'') 7 [] \<lparr> osfs = disk_torn, flocks = [] \<rparr> = (Inr (s, lk), k') \<and> store_ok s \<and>
     view s [0x61] = Some (1, Some [0x63]) \<and> view s [0x62] = None \<and> logs s 1 = encode rec_whole \<and> seq s = 2"
proof -
  let ?k = "\<lparr> osfs = disk_torn, flocks = [] \<rparr> :: os"
  have wf: "list_all wf_rec [rec_whole, rec_open]"
    by (simp add: rec_whole_def rec_open_def wf_rec_def record_consts)
  have lr: "log_recs (file_at disk_torn 1) = [rec_whole, rec_open]"
    unfolding disk_torn_good(3) by (rule log_recs_eq [OF wf no_record_short]) simp
  have c: "committed disk_torn 1 = (rec_size rec_whole, [(0, rec_whole)])"
    using disk_torn_good(4) lr by (simp add: committed_def rec_whole_def rec_open_def record_consts)
  have ok: "os_ok ?k" "\<not> held ?k" "lit ''d'' \<noteq> []"
    by (simp_all add: os_ok_def held_def disk_torn_def lit_def)
  have "good_dir (osfs ?k) [1]" "good_hints (osfs ?k) [1]" using disk_torn_good(1,2) by simp_all
  from Open_recovers [OF ok this, of options_ex 7 "[]"] obtain s lk k' where s: "Open options_ex (lit ''d'') 7 [] ?k = (Inr (s, lk), k')"
      "store_ok s" "seq s = max_seq 0 (all_recs disk_torn [1])" "logs s = final_log disk_torn [1]"
      "view s = foldl (newest fst) Map.empty (map rec_view (recovered disk_torn [1]))" by auto
  have "logs s 1 = encode rec_whole" using s(4) c disk_torn_good(3,4) by (simp add: final_log_def)
  moreover have "view s = [[0x61] \<mapsto> (1, Some [0x63])]"
    using s(5) c by (simp add: recovered_def replay_recs_def newest_def rec_view_def payload_def rec_whole_def tombstone_def)
  moreover have "seq s = 2" using s(3) lr by (simp add: all_recs_def max_seq_def rec_whole_def rec_open_def)
  ultimately show ?thesis using s(1,2) by auto
qed

end
