(* ===== verification/Proto.thy ===== *)
theory Proto
  imports Files
begin

text \<open>
  The wire format, \<open>internal/proto/proto.go\<close>: opcodes and statuses, length-prefixed frames, and
  the encoder and decoder of frame bodies.

  The lemmas show that frames written to a stream are read back one by one, that a stream cut
  anywhere yields its complete frames and then an error, that the decoder inverts the encoder
  and accepts nothing else, and that it never reads outside its buffer.
\<close>

section \<open>Opcodes and statuses\<close>

definition MaxFrameSize :: nat where "MaxFrameSize = 335544320"

definition OpPing :: byte where "OpPing = 0x01"
definition OpPut :: byte where "OpPut = 0x02"
definition OpGet :: byte where "OpGet = 0x03"
definition OpDelete :: byte where "OpDelete = 0x04"
definition OpRange :: byte where "OpRange = 0x05"
definition OpBatchPut :: byte where "OpBatchPut = 0x06"
definition OpStats :: byte where "OpStats = 0x07"
definition OpInfo :: byte where "OpInfo = 0x08"
definition OpCompact :: byte where "OpCompact = 0x09"
definition OpReplicate :: byte where "OpReplicate = 0x20"
definition OpVote :: byte where "OpVote = 0x21"
definition OpAnnounce :: byte where "OpAnnounce = 0x22"
definition OpPromote :: byte where "OpPromote = 0x23"

lemmas ops = OpPing_def OpPut_def OpGet_def OpDelete_def OpRange_def OpBatchPut_def OpStats_def
  OpInfo_def OpCompact_def OpReplicate_def OpVote_def OpAnnounce_def OpPromote_def

text \<open>The name of an opcode, for error messages; the last case is the format \<open>%#x\<close> of a byte.\<close>

definition OpString :: "byte \<Rightarrow> string" where
  "OpString b =
     (if b = OpPing then ''PING''
      else if b = OpPut then ''PUT''
      else if b = OpGet then ''GET''
      else if b = OpDelete then ''DELETE''
      else if b = OpRange then ''RANGE''
      else if b = OpBatchPut then ''BATCHPUT''
      else if b = OpStats then ''STATS''
      else if b = OpInfo then ''INFO''
      else if b = OpCompact then ''COMPACT''
      else if b = OpReplicate then ''REPLICATE''
      else if b = OpVote then ''VOTE''
      else if b = OpAnnounce then ''ANNOUNCE''
      else if b = OpPromote then ''PROMOTE''
      else
        let hex = (\<lambda>n. ''0123456789abcdef'' ! n); n = unat b
        in ''OP(0x'' @ (if n < 16 then [hex n] else [hex (n div 16), hex (n mod 16)]) @ '')'')"

definition StatusOK :: byte where "StatusOK = 0x00"
definition StatusNotFound :: byte where "StatusNotFound = 0x01"
definition StatusError :: byte where "StatusError = 0x02"
definition StatusRedirect :: byte where "StatusRedirect = 0x03"
definition StatusRangeChunk :: byte where "StatusRangeChunk = 0x04"
definition StatusRangeEnd :: byte where "StatusRangeEnd = 0x05"
definition StatusReplData :: byte where "StatusReplData = 0x06"
definition StatusFullSync :: byte where "StatusFullSync = 0x07"
definition StatusHeartbeat :: byte where "StatusHeartbeat = 0x08"
definition StatusLive :: byte where "StatusLive = 0x09"

lemmas statuses = StatusOK_def StatusNotFound_def StatusError_def StatusRedirect_def
  StatusRangeChunk_def StatusRangeEnd_def StatusReplData_def StatusFullSync_def
  StatusHeartbeat_def StatusLive_def

section \<open>Frames\<close>

text \<open>
  A \<open>Writer\<close>: the bytes handed to the connection so far, and the pending transport faults (as for
  files: \<open>Suc n\<close> fails a write after \<open>n\<close> bytes). The buffering of \<open>bufio.Writer\<close> only delays bytes;
  its errors are sticky, which is why no caller goes on after one.
\<close>

record writer =
  wout :: bytes
  wfaults :: "nat list"

definition NewWriter :: "nat list \<Rightarrow> writer" where
  "NewWriter fl = \<lparr> wout = [], wfaults = fl \<rparr>"

definition bwWrite :: "bytes \<Rightarrow> writer \<Rightarrow> (writer, unit) res" where
  "bwWrite bs w = (case wfaults w of
       [] \<Rightarrow> (Inr (), w\<lparr>wout := wout w @ bs\<rparr>)
     | 0 # fl \<Rightarrow> (Inr (), w\<lparr>wout := wout w @ bs, wfaults := fl\<rparr>)
     | Suc n # fl \<Rightarrow> (Inl ErrIO, w\<lparr>wout := wout w @ take n bs, wfaults := fl\<rparr>))"

definition WriteFrame :: "bytes \<Rightarrow> writer \<Rightarrow> (writer, unit) res" where
  "WriteFrame payload w =
     (if length payload > MaxFrameSize then (Inl ErrFrameTooLarge, w)
      else andThen (bwWrite (be_bytes 4 (of_nat (length payload) :: u32)) w) (\<lambda>_ w. bwWrite payload w))"

definition Flush :: "writer \<Rightarrow> (writer, unit) res" where
  "Flush w = bwWrite [] w"

text \<open>
  \<open>ReadFrame\<close> on a stream of which the bytes \<open>inp\<close> arrive before it ends with \<open>er\<close> (\<open>EOF\<close> when the peer
  closed the connection). \<open>io.ReadFull\<close> turns an \<open>EOF\<close> after some bytes into \<open>ErrUnexpectedEOF\<close>.
\<close>

definition ReadFull :: "error \<Rightarrow> nat \<Rightarrow> bytes \<Rightarrow> (bytes, bytes) res" where
  "ReadFull er n inp =
     (if n \<le> length inp then (Inr (take n inp), drop n inp)
      else (Inl (if er = EOF \<and> inp \<noteq> [] then ErrUnexpectedEOF else er), []))"

definition ReadFrame :: "error \<Rightarrow> bytes \<Rightarrow> (bytes, bytes) res" where
  "ReadFrame er inp =
     andThen (ReadFull er 4 inp) (\<lambda>hdr inp.
       let n = unat (be_word hdr :: u32) in
       if n > MaxFrameSize then (Inl ErrFrameTooLarge, inp) else ReadFull er n inp)"

section \<open>Frame bodies\<close>

text \<open>The encoder \<open>Enc\<close> is the byte string it has built.\<close>

definition NewEnc :: "byte \<Rightarrow> bytes" where "NewEnc first = [first]"
definition EncU8 :: "byte \<Rightarrow> bytes \<Rightarrow> bytes" where "EncU8 v e = e @ [v]"
definition EncU32 :: "u32 \<Rightarrow> bytes \<Rightarrow> bytes" where "EncU32 v e = e @ be_bytes 4 v"
definition EncU64 :: "u64 \<Rightarrow> bytes \<Rightarrow> bytes" where "EncU64 v e = e @ be_bytes 8 v"
definition EncBytes :: "bytes \<Rightarrow> bytes \<Rightarrow> bytes" where
  "EncBytes b e = EncU32 (of_nat (length b)) e @ b"
definition EncStr :: "bytes \<Rightarrow> bytes \<Rightarrow> bytes" where
  "EncStr s e = EncU32 (of_nat (length s)) e @ s"
definition EncRaw :: "bytes \<Rightarrow> bytes \<Rightarrow> bytes" where "EncRaw b e = e @ b"

record Dec =
  dB :: bytes
  dpos :: nat
  derr :: "error option"

definition NewDec :: "bytes \<Rightarrow> Dec" where
  "NewDec b = \<lparr> dB = b, dpos = 0, derr = None \<rparr>"

definition fail :: "Dec \<Rightarrow> Dec" where
  "fail d = d\<lparr>derr := Some ErrMalformed\<rparr>"

definition DecU8 :: "Dec \<Rightarrow> byte \<times> Dec" where
  "DecU8 d = (if derr d \<noteq> None \<or> dpos d + 1 > length (dB d) then (0, fail d)
     else (dB d ! dpos d, d\<lparr>dpos := dpos d + 1\<rparr>))"

definition DecU32 :: "Dec \<Rightarrow> u32 \<times> Dec" where
  "DecU32 d = (if derr d \<noteq> None \<or> dpos d + 4 > length (dB d) then (0, fail d)
     else (be_word (take 4 (drop (dpos d) (dB d))), d\<lparr>dpos := dpos d + 4\<rparr>))"

definition DecU64 :: "Dec \<Rightarrow> u64 \<times> Dec" where
  "DecU64 d = (if derr d \<noteq> None \<or> dpos d + 8 > length (dB d) then (0, fail d)
     else (be_word (take 8 (drop (dpos d) (dB d))), d\<lparr>dpos := dpos d + 8\<rparr>))"

definition DecBytes :: "Dec \<Rightarrow> bytes \<times> Dec" where
  "DecBytes d =
     (let (n, d) = DecU32 d; n = unat n in
      if derr d \<noteq> None \<or> dpos d + n > length (dB d) then ([], fail d)
      else (bslice (dpos d) (dpos d + n) (dB d), d\<lparr>dpos := dpos d + n\<rparr>))"

definition DecStr :: "Dec \<Rightarrow> bytes \<times> Dec" where
  "DecStr d = DecBytes d"

definition DecRest :: "Dec \<Rightarrow> bytes \<times> Dec" where
  "DecRest d = (if derr d \<noteq> None then ([], d) else (drop (dpos d) (dB d), d\<lparr>dpos := length (dB d)\<rparr>))"

definition DecErr :: "Dec \<Rightarrow> error option" where
  "DecErr d = derr d"

definition DecDone :: "Dec \<Rightarrow> error option" where
  "DecDone d = (case derr d of
       Some er \<Rightarrow> Some er
     | None \<Rightarrow> if dpos d \<noteq> length (dB d) then Some (ErrTrailing (length (dB d) - dpos d)) else None)"

definition DecRemaining :: "Dec \<Rightarrow> nat" where
  "DecRemaining d = (if derr d \<noteq> None \<or> dpos d > length (dB d) then 0 else length (dB d) - dpos d)"

definition DecEmpty :: "Dec \<Rightarrow> bool" where
  "DecEmpty d \<longleftrightarrow> dpos d \<ge> length (dB d)"

section \<open>Frames round trip\<close>

abbreviation frame :: "bytes \<Rightarrow> bytes" where
  "frame p \<equiv> be_bytes 4 (of_nat (length p) :: u32) @ p"

abbreviation frame_ok :: "bytes \<Rightarrow> bool" where
  "frame_ok p \<equiv> length p \<le> MaxFrameSize"

lemma frame_len: "frame_ok p \<Longrightarrow> unat (of_nat (length p) :: u32) = length p"
  by (simp add: MaxFrameSize_def)

lemma WriteFrame_ok:
  "frame_ok p \<Longrightarrow> wfaults w = [] \<Longrightarrow> WriteFrame p w = (Inr (), w\<lparr>wout := wout w @ frame p\<rparr>)"
  by (simp add: WriteFrame_def bwWrite_def)

lemma ReadFrame_frame: "frame_ok p \<Longrightarrow> ReadFrame er (frame p @ rest) = (Inr p, rest)"
  using frame_len [of p] by (simp add: ReadFrame_def ReadFull_def be_word_be_bytes)

lemma ReadFrame_torn:
  assumes "frame_ok p" and "frame p = torn @ lost" and "lost \<noteq> []"
  shows "\<exists>e r. ReadFrame EOF torn = (Inl e, r) \<and> e \<in> {EOF, ErrUnexpectedEOF}"
proof (cases "4 \<le> length torn")
  case True
  have "take 4 (torn @ lost) = be_bytes 4 (of_nat (length p) :: u32)" unfolding assms(2) [symmetric] by simp
  then have "take 4 torn = be_bytes 4 (of_nat (length p) :: u32)" using True by simp
  moreover have "length torn + length lost = 4 + length p" using arg_cong [OF assms(2), of length] by simp
  then have "\<not> length p \<le> length torn - 4" using assms(3) True by (cases lost) auto
  ultimately show ?thesis
    using True assms(1) frame_len [OF assms(1)]
    by (simp add: ReadFrame_def ReadFull_def be_word_be_bytes Let_def del: One_nat_def)
qed (simp add: ReadFrame_def ReadFull_def)

text \<open>Reading frames until the stream ends, as a server or a client does.\<close>

function read_frames :: "bytes \<Rightarrow> bytes list \<times> error" where
  "read_frames inp = (case ReadFrame EOF inp of
       (Inl er, _) \<Rightarrow> ([], er)
     | (Inr p, rest) \<Rightarrow> (case read_frames rest of (ps, er) \<Rightarrow> (p # ps, er)))"
  by pat_completeness auto
termination
  by (relation "measure length")
     (auto simp: ReadFrame_def ReadFull_def Let_def split: if_splits)

declare read_frames.simps [simp del]

lemma read_frames_append:
  "list_all frame_ok ps \<Longrightarrow> read_frames (concat (map frame ps) @ rest) =
     (case read_frames rest of (qs, er) \<Rightarrow> (ps @ qs, er))"
proof (induction ps)
  case (Cons p ps)
  then show ?case
    by (subst read_frames.simps) (simp add: ReadFrame_frame [simplified append_assoc] split: prod.splits)
qed simp

lemma write_frames_ok:
  "list_all frame_ok ps \<Longrightarrow> wfaults w = [] \<Longrightarrow>
   foldl (\<lambda>w p. snd (WriteFrame p w)) w ps = w\<lparr>wout := wout w @ concat (map frame ps)\<rparr>"
  by (induction ps arbitrary: w) (simp_all add: WriteFrame_ok)

text \<open>
  C36. Frames survive the wire: the frames written to a connection are read back one by one and in
  order, and if the connection breaks in the middle of the next frame, the reader gets every
  complete frame and then an end-of-file error, never a shortened or merged frame.
\<close>

theorem frames_roundtrip:
  assumes "list_all frame_ok ps" and "frame_ok q"
    and "wout (snd (WriteFrame q (NewWriter []))) = torn @ lost" and "lost \<noteq> []"
  shows "\<exists>er \<in> {EOF, ErrUnexpectedEOF}.
    read_frames (wout (foldl (\<lambda>w p. snd (WriteFrame p w)) (NewWriter []) ps) @ torn) = (ps, er)"
proof -
  have "frame q = torn @ lost" using assms(2,3) by (simp add: WriteFrame_ok NewWriter_def)
  from ReadFrame_torn [OF assms(2) this assms(4)] obtain e r where
    e: "ReadFrame EOF torn = (Inl e, r)" "e \<in> {EOF, ErrUnexpectedEOF}" by blast
  then have "read_frames torn = ([], e)" by (simp add: read_frames.simps)
  then have "read_frames (wout (foldl (\<lambda>w p. snd (WriteFrame p w)) (NewWriter []) ps) @ torn) = (ps, e)"
    using write_frames_ok [OF assms(1), of "NewWriter []"] read_frames_append [OF assms(1), of torn]
    by (simp add: NewWriter_def)
  with e(2) show ?thesis by blast
qed

theorem frames_roundtrip_witness:
  "\<exists>er \<in> {EOF, ErrUnexpectedEOF}.
    read_frames (wout (foldl (\<lambda>w p. snd (WriteFrame p w)) (NewWriter []) [[1, 2], []]) @ [0, 0, 0, 1]) = ([[1, 2], []], er)"
proof -
  have "wout (snd (WriteFrame [9] (NewWriter []))) = [0, 0, 0, 1] @ [9]"
    by (simp add: WriteFrame_def bwWrite_def NewWriter_def MaxFrameSize_def be_bytes_def evals)
  then show ?thesis by (intro frames_roundtrip [of _ "[9]" _ "[9]"]) (simp_all add: MaxFrameSize_def)
qed

section \<open>Bodies round trip\<close>

text \<open>A body as the list of the fields its encoder was given, and the shape its decoder expects.\<close>

datatype field = FU8 byte | FU32 u32 | FU64 u64 | FBytes bytes
datatype shape = SU8 | SU32 | SU64 | SBytes

fun shape_of :: "field \<Rightarrow> shape" where
  "shape_of (FU8 _) = SU8" | "shape_of (FU32 _) = SU32" | "shape_of (FU64 _) = SU64" | "shape_of (FBytes _) = SBytes"

fun enc_field :: "bytes \<Rightarrow> field \<Rightarrow> bytes" where
  "enc_field e (FU8 v) = EncU8 v e" | "enc_field e (FU32 v) = EncU32 v e"
| "enc_field e (FU64 v) = EncU64 v e" | "enc_field e (FBytes b) = EncBytes b e"

fun dec_field :: "shape \<Rightarrow> Dec \<Rightarrow> field \<times> Dec" where
  "dec_field SU8 d = map_prod FU8 id (DecU8 d)" | "dec_field SU32 d = map_prod FU32 id (DecU32 d)"
| "dec_field SU64 d = map_prod FU64 id (DecU64 d)" | "dec_field SBytes d = map_prod FBytes id (DecBytes d)"

fun dec_fields :: "shape list \<Rightarrow> Dec \<Rightarrow> field list \<times> Dec" where
  "dec_fields [] d = ([], d)"
| "dec_fields (sh # shs) d =
     (let (f, d) = dec_field sh d; (fs, d) = dec_fields shs d in (f # fs, d))"

fun field_ok :: "field \<Rightarrow> bool" where
  "field_ok (FBytes b) = (length b < 2 ^ 32)" | "field_ok _ = True"

lemma enc_field_append: "enc_field e f = e @ enc_field [] f"
  by (cases f) (simp_all add: EncU8_def EncU32_def EncU64_def EncBytes_def)

text \<open>A decoder that has consumed \<open>pre\<close> and has \<open>rest\<close> ahead.\<close>

definition dec_at :: "bytes \<Rightarrow> bytes \<Rightarrow> Dec" where
  "dec_at pre rest = \<lparr> dB = pre @ rest, dpos = length pre, derr = None \<rparr>"

lemma NewDec_at: "NewDec b = dec_at [] b"
  by (simp add: NewDec_def dec_at_def)

lemma Dec_at [codec]:
  "DecU8 (dec_at pre (v # rest)) = (v, dec_at (pre @ [v]) rest)"
  "DecU32 (dec_at pre (be_bytes 4 w @ rest)) = (w, dec_at (pre @ be_bytes 4 w) rest)"
  "DecU64 (dec_at pre (be_bytes 8 x @ rest)) = (x, dec_at (pre @ be_bytes 8 x) rest)"
  by (simp_all add: DecU8_def DecU32_def DecU64_def dec_at_def be_word_be_bytes)

lemma DecBytes_at [codec]:
  "length b < 2 ^ 32 \<Longrightarrow>
   DecBytes (dec_at pre (be_bytes 4 (of_nat (length b) :: u32) @ b @ rest)) =
     (b, dec_at (pre @ be_bytes 4 (of_nat (length b) :: u32) @ b) rest)"
  by (simp add: DecBytes_def Dec_at Let_def) (simp add: dec_at_def bslice_def)

lemma DecDone_at [codec]: "DecDone (dec_at pre rest) = (if rest = [] then None else Some (ErrTrailing (length rest)))"
  by (simp add: DecDone_def dec_at_def)

lemma dec_field_at:
  "field_ok f \<Longrightarrow> dec_field (shape_of f) (dec_at pre (enc_field [] f @ rest)) = (f, dec_at (pre @ enc_field [] f) rest)"
  by (cases f) (simp_all add: EncU8_def EncU32_def EncU64_def EncBytes_def Dec_at DecBytes_at)

lemma foldl_enc: "foldl enc_field e fs = e @ concat (map (enc_field []) fs)"
proof (induction fs arbitrary: e)
  case (Cons f fs)
  then show ?case using enc_field_append [of e f] by simp
qed simp

lemma dec_fields_at:
  "list_all field_ok fs \<Longrightarrow>
   dec_fields (map shape_of fs) (dec_at pre (concat (map (enc_field []) fs))) =
     (fs, dec_at (pre @ concat (map (enc_field []) fs)) [])"
  by (induction fs arbitrary: pre) (simp_all add: dec_field_at)

text \<open>The other direction: what a decoder consumed is the encoding of what it returned.\<close>

definition dec_inv :: "Dec \<Rightarrow> bool" where
  "dec_inv d \<longleftrightarrow> dpos d \<le> length (dB d) \<and> length (dB d) < 2 ^ 32"

lemma take_add_slice: "i + n \<le> length xs \<Longrightarrow> take (i + n) xs = take i xs @ take n (drop i xs)"
  by (simp add: take_add)

lemma dec_prims:
  assumes "dec_inv d"
  shows "DecU8 d = (v, d') \<Longrightarrow> dec_inv d' \<and> dB d' = dB d \<and>
      (derr d' = None \<longrightarrow> derr d = None \<and> take (dpos d') (dB d) = take (dpos d) (dB d) @ [v])"
    and "DecU32 d = (w, d') \<Longrightarrow> dec_inv d' \<and> dB d' = dB d \<and>
      (derr d' = None \<longrightarrow> derr d = None \<and> take (dpos d') (dB d) = take (dpos d) (dB d) @ be_bytes 4 w)"
    and "DecU64 d = (x, d') \<Longrightarrow> dec_inv d' \<and> dB d' = dB d \<and>
      (derr d' = None \<longrightarrow> derr d = None \<and> take (dpos d') (dB d) = take (dpos d) (dB d) @ be_bytes 8 x)"
  using assms
  by (auto simp: DecU8_def DecU32_def DecU64_def dec_inv_def fail_def be_bytes_be_word take_add
      take_Suc_conv_app_nth split: if_splits)

lemma dec_bytes_prim:
  assumes "dec_inv d" and "DecBytes d = (b, d')"
  shows "dec_inv d' \<and> dB d' = dB d \<and>
    (derr d' = None \<longrightarrow> derr d = None \<and> take (dpos d') (dB d) = take (dpos d) (dB d) @ EncBytes b [])"
proof -
  obtain n d1 where u: "DecU32 d = (n, d1)" by fastforce
  note p = dec_prims(2) [OF assms(1) u]
  then have p1: "dec_inv d1" and p2: "dB d1 = dB d"
    and p3: "derr d1 = None \<Longrightarrow> derr d = None"
    and p4: "derr d1 = None \<Longrightarrow> take (dpos d1) (dB d) = take (dpos d) (dB d) @ be_bytes 4 n"
    by blast+
  show ?thesis
  proof (cases "derr d1 \<noteq> None \<or> dpos d1 + unat n > length (dB d1)")
    case True
    then have "DecBytes d = ([], fail d1)" using u by (simp add: DecBytes_def)
    then have "d' = fail d1" using assms(2) by simp
    then show ?thesis using p1 p2 by (simp add: fail_def dec_inv_def)
  next
    case False
    then have "DecBytes d = (bslice (dpos d1) (dpos d1 + unat n) (dB d1), d1\<lparr>dpos := dpos d1 + unat n\<rparr>)"
      unfolding DecBytes_def u Let_def prod.case by (rule if_not_P)
    then have b: "b = bslice (dpos d1) (dpos d1 + unat n) (dB d)" and d': "d' = d1\<lparr>dpos := dpos d1 + unat n\<rparr>"
      using assms(2) p2 by simp_all
    have f1: "derr d1 = None" and f2: "unat n \<le> length (dB d) - dpos d1" "dpos d1 + unat n \<le> length (dB d)"
      using False unfolding p2 by linarith+
    have "length b = unat n" unfolding b length_bslice add_diff_cancel_left' using f2(1) by (rule min.absorb2)
    then have e: "EncBytes b [] = be_bytes 4 n @ b" by (simp add: EncBytes_def EncU32_def)
    have "take (dpos d1 + unat n) (dB d) = take (dpos d1) (dB d) @ b"
      by (simp add: take_add b bslice_def)
    then have t: "take (dpos d') (dB d) = take (dpos d) (dB d) @ EncBytes b []"
      unfolding e d' using p4 [OF f1] by simp
    have "dec_inv d'" "dB d' = dB d" using p1 p2 f2(2) by (simp_all add: d' dec_inv_def)
    then show ?thesis using t p3 [OF f1] by simp
  qed
qed

lemma dec_field_sound:
  assumes "dec_inv d" and "dec_field sh d = (f, d')"
  shows "dec_inv d' \<and> dB d' = dB d \<and> shape_of f = sh \<and>
    (derr d' = None \<longrightarrow> derr d = None \<and> take (dpos d') (dB d) = take (dpos d) (dB d) @ enc_field [] f)"
proof (cases sh)
  case SU8
  then obtain v where "DecU8 d = (v, d')" "f = FU8 v" using assms(2) by (cases "DecU8 d") auto
  with dec_prims(1) [OF assms(1)] SU8 show ?thesis by (simp add: EncU8_def)
next
  case SU32
  then obtain v where "DecU32 d = (v, d')" "f = FU32 v" using assms(2) by (cases "DecU32 d") auto
  with dec_prims(2) [OF assms(1)] SU32 show ?thesis by (simp add: EncU32_def)
next
  case SU64
  then obtain v where "DecU64 d = (v, d')" "f = FU64 v" using assms(2) by (cases "DecU64 d") auto
  with dec_prims(3) [OF assms(1)] SU64 show ?thesis by (simp add: EncU64_def)
next
  case SBytes
  then obtain v where "DecBytes d = (v, d')" "f = FBytes v" using assms(2) by (cases "DecBytes d") auto
  with dec_bytes_prim [OF assms(1)] SBytes show ?thesis by simp
qed

lemma dec_fields_sound:
  "dec_inv d \<Longrightarrow> dec_fields shs d = (fs, d') \<Longrightarrow>
   dec_inv d' \<and> dB d' = dB d \<and> map shape_of fs = shs \<and>
   (derr d' = None \<longrightarrow> derr d = None \<and> take (dpos d') (dB d) = take (dpos d) (dB d) @ concat (map (enc_field []) fs))"
proof (induction shs arbitrary: d fs)
  case (Cons sh shs)
  obtain f d1 where 1: "dec_field sh d = (f, d1)" by fastforce
  obtain gs where 2: "dec_fields shs d1 = (gs, d')" "fs = f # gs"
    using Cons.prems(2) 1 by (auto split: prod.splits)
  show ?case
    using dec_field_sound [OF Cons.prems(1) 1] Cons.IH [of d1 gs] 2 by auto
qed simp

lemma enc_field_len: "length (enc_field [] f) < 2 ^ 32 \<Longrightarrow> field_ok f"
  by (cases f) (simp_all add: EncBytes_def EncU32_def)

text \<open>
  C37. The body codec is exact: a decoder driven through fields of given shapes ends without error,
  with nothing left over, and returns the fields \<open>fs\<close>, exactly when the body is what the encoder
  produces for \<open>fs\<close>. So requests and replies round trip, and no other body is accepted.
\<close>

theorem dec_fields_exact:
  assumes "length b < 2 ^ 32"
  shows "(\<exists>d. dec_fields shs (NewDec b) = (fs, d) \<and> DecDone d = None) \<longleftrightarrow>
    map shape_of fs = shs \<and> b = foldl enc_field [] fs"
proof
  assume "\<exists>d. dec_fields shs (NewDec b) = (fs, d) \<and> DecDone d = None"
  then obtain d where d: "dec_fields shs (NewDec b) = (fs, d)" "DecDone d = None" by blast
  have "dec_inv (NewDec b)" using assms by (simp add: dec_inv_def NewDec_def)
  from dec_fields_sound [OF this d(1)] d(2)
  show "map shape_of fs = shs \<and> b = foldl enc_field [] fs"
    by (auto simp: NewDec_def DecDone_def foldl_enc split: option.splits if_splits)
next
  assume b: "map shape_of fs = shs \<and> b = foldl enc_field [] fs"
  have "field_ok f" if "f \<in> set fs" for f
  proof -
    have "length (enc_field [] f) \<le> length b"
      using that b by (auto simp: foldl_enc dest!: split_list)
    then show ?thesis using assms by (intro enc_field_len) simp
  qed
  then show "\<exists>d. dec_fields shs (NewDec b) = (fs, d) \<and> DecDone d = None"
    using b dec_fields_at [of fs "[]"] by (auto simp: NewDec_at foldl_enc list_all_iff DecDone_at)
qed

theorem dec_fields_exact_witness:
  "\<exists>d. dec_fields [SBytes, SU8] (NewDec [0, 0, 0, 1, 0x61, 7]) = ([FBytes [0x61], FU8 7], d) \<and> DecDone d = None"
proof -
  have "foldl enc_field [] [FBytes [0x61], FU8 7] = [0, 0, 0, 1, 0x61, 7]"
    by (simp add: EncBytes_def EncU32_def EncU8_def be_bytes_def evals)
  then show ?thesis using dec_fields_exact [of "[0, 0, 0, 1, 0x61, 7]" "[SBytes, SU8]" "[FBytes [0x61], FU8 7]"] by simp
qed

end
