(* ===== verification/Cluster_Node.thy ===== *)
theory Cluster_Node
  imports Replica Proto
begin

text \<open>
  A node of the cluster: configuration and construction (\<open>internal/node/node.go\<close>), the replication
  streams of a leader (first part of \<open>internal/node/replication.go\<close>) and failover
  (\<open>internal/node/election.go\<close>).

  Logging is not modelled. The text of an error, \<open>err.Error()\<close>, is a parameter \<open>msg\<close>, since it may
  come from the operating system. Times are nanoseconds; the clock is an argument \<open>now\<close>.
\<close>

section \<open>Configuration\<close>

datatype Role = Follower | Leader

record Config =
  cID :: bytes
  cAddr :: bytes
  cPeers :: "bytes list"
  cBootstrap :: bool
  cLeader :: bytes
  cHeartbeat :: int
  cElection :: int
  cMaxRange :: int

definition applyDefaults :: "Config \<Rightarrow> Config" where
  "applyDefaults c =
     (let c = (if cAddr c = [] then c\<lparr>cAddr := lit ''127.0.0.1:7070''\<rparr> else c);
          c = (if cID c = [] then c\<lparr>cID := cAddr c\<rparr> else c);
          c = (if cHeartbeat c \<le> 0 then c\<lparr>cHeartbeat := 1000000000\<rparr> else c);
          c = (if cElection c \<le> 0 then c\<lparr>cElection := 5 * 1000000000\<rparr> else c)
      in if cMaxRange c \<le> 0 then c\<lparr>cMaxRange := 100000\<rparr> else c)"

section \<open>State\<close>

text \<open>A replication stream: the pending messages of its channel and whether \<open>done\<close> is closed.\<close>

record replStream =
  sch :: "bytes list"
  sdone :: bool
  speer :: bytes

text \<open>
  \<open>streams\<close> lists the attached streams under the number they were given (the pointer in the code).
  \<open>calls\<close> are the requests handed to goroutines of their own (announcements), with their address.
\<close>

record node =
  cfg :: Config
  kv :: store
  role :: Role
  leaderAddr :: bytes
  epoch :: u64
  lastContact :: int
  wasLeader :: bool
  streams :: "(nat \<times> replStream) list"
  nextStream :: nat
  electing :: bool
  closing :: bool
  observer :: u64
  calls :: "(bytes \<times> bytes) list"

text \<open>\<open>New\<close>, given what \<open>engine.Open\<close> returned.\<close>

definition New :: "Config \<Rightarrow> int \<Rightarrow> error + store \<Rightarrow> error + node" where
  "New c now opened =
     (let c = applyDefaults c in
      case opened of
        Inl er \<Rightarrow> Inl er
      | Inr st \<Rightarrow>
          let (i, st) = AddObserver st;
              lead = (cBootstrap c \<or> length (cPeers c) \<le> 1)
          in Inr \<lparr> cfg = c, kv = st, role = (if lead then Leader else Follower),
                   leaderAddr = (if lead then cAddr c else cLeader c), epoch = 1, lastContact = now,
                   wasLeader = False, streams = [], nextStream = 0, electing = False, closing = False,
                   observer = i, calls = [] \<rparr>)"

section \<open>Streams\<close>

definition streamBuffer :: nat where "streamBuffer = 4096"

definition newReplStream :: "bytes \<Rightarrow> replStream" where
  "newReplStream peer = \<lparr> sch = [], sdone = False, speer = peer \<rparr>"

definition closeStream :: "replStream \<Rightarrow> replStream" where
  "closeStream s = s\<lparr>sdone := True\<rparr>"

definition addStream :: "replStream \<Rightarrow> node \<Rightarrow> nat \<times> node" where
  "addStream s n = (nextStream n, n\<lparr>streams := streams n @ [(nextStream n, s)], nextStream := nextStream n + 1\<rparr>)"

definition removeStream :: "nat \<Rightarrow> node \<Rightarrow> node" where
  "removeStream i n = n\<lparr>streams := filter (\<lambda>(j, _). j \<noteq> i) (streams n)\<rparr>"

definition closeAllStreams :: "node \<Rightarrow> node" where
  "closeAllStreams n = n\<lparr>streams := map (apsnd closeStream) (streams n)\<rparr>"

text \<open>\<open>fanout\<close>: a stream with a full channel is closed instead of blocking the writer.\<close>

definition offer :: "bytes \<Rightarrow> replStream \<Rightarrow> replStream" where
  "offer raw s = (if length (sch s) < streamBuffer then s\<lparr>sch := sch s @ [raw]\<rparr> else closeStream s)"

definition fanout :: "u64 \<Rightarrow> bytes \<Rightarrow> node \<Rightarrow> node" where
  "fanout maxSeq raw n =
     (if streams n = [] then n else n\<lparr>streams := map (apsnd (offer raw)) (streams n)\<rparr>)"

text \<open>
  The store reports every write to its observers; the node's observer is \<open>fanout\<close>. The store's
  operations list the reports, here they reach the streams, in order.
\<close>

definition notified :: "node \<Rightarrow> node" where
  "notified n =
     foldl (\<lambda>n (i, maxSeq, raw). if i = observer n then fanout maxSeq raw n else n)
       (n\<lparr>kv := (kv n)\<lparr>outbox := []\<rparr>\<rparr>) (outbox (kv n))"

definition on_store :: "(store \<Rightarrow> (store, 'a) res) \<Rightarrow> node \<Rightarrow> (node, 'a) res" where
  "on_store f n = (case f (kv n) of (r, s) \<Rightarrow> (r, notified (n\<lparr>kv := s\<rparr>)))"

section \<open>Replies\<close>

definition writeError :: "(error \<Rightarrow> bytes) \<Rightarrow> error \<Rightarrow> writer \<Rightarrow> (writer, unit) res" where
  "writeError msg er w = andThen (WriteFrame (EncStr (msg er) (NewEnc StatusError)) w) (\<lambda>_ w. Flush w)"

definition writeStatus :: "byte \<Rightarrow> writer \<Rightarrow> (writer, unit) res" where
  "writeStatus st w = WriteFrame [st] w"

section \<open>Requests to other nodes\<close>

text \<open>
  A connection to another node: the pending transport faults, what arrives back after given bytes
  have been sent, and the error that ends it. Dialling is a function of the address.
\<close>

record conn =
  cfaults :: "nat list"
  cin :: "bytes \<Rightarrow> bytes"
  cend :: error

type_synonym network = "bytes \<Rightarrow> error + conn"

definition errFromFrame :: "bytes \<Rightarrow> error" where
  "errFromFrame fr = RemoteError (fst (DecStr (NewDec (tl fr))))"

definition roundTrip :: "network \<Rightarrow> bytes \<Rightarrow> bytes \<Rightarrow> error + bytes" where
  "roundTrip net addr req =
     (case net addr of
        Inl er \<Rightarrow> Inl er
      | Inr c \<Rightarrow>
          (case andThen (WriteFrame req (NewWriter (cfaults c))) (\<lambda>_ w. Flush w) of
             (Inl er, _) \<Rightarrow> Inl er
           | (Inr _, w) \<Rightarrow>
               (case ReadFrame (cend c) (cin c (wout w)) of
                  (Inl er, _) \<Rightarrow> Inl er
                | (Inr fr, _) \<Rightarrow>
                    if fr = [] then Inl ErrMalformed
                    else if hd fr = StatusError then Inl (errFromFrame fr)
                    else Inr fr)))"

section \<open>Elections\<close>

record voteReply =
  vid :: bytes
  vrole :: byte
  vepoch :: u64
  vseq :: u64
  vleaderAddr :: bytes
  vleaderAlive :: bool
  responseFrom :: bytes

definition role_byte :: "Role \<Rightarrow> byte" where
  "role_byte r = (case r of Follower \<Rightarrow> 0 | Leader \<Rightarrow> 1)"

definition handleVote :: "(error \<Rightarrow> bytes) \<Rightarrow> int \<Rightarrow> Dec \<Rightarrow> node \<Rightarrow> writer \<Rightarrow> (writer, unit) res" where
  "handleVote msg now d n w =
     (let (candidateID, d) = DecStr d;
          (candidateSeq, d) = DecU64 d
      in case DecDone d of
           Some er \<Rightarrow> writeError msg er w
         | None \<Rightarrow>
             let alive = (role n = Leader \<or> now - lastContact n \<le> cElection (cfg n));
                 e = NewEnc StatusOK;
                 e = EncStr (cID (cfg n)) e;
                 e = EncU8 (role_byte (role n)) e;
                 e = EncU64 (epoch n) e;
                 e = EncU64 (seq (kv n)) e;
                 e = EncStr (leaderAddr n) e;
                 e = EncU8 (if alive then 1 else 0) e
             in WriteFrame e w)"

definition handleAnnounce :: "(error \<Rightarrow> bytes) \<Rightarrow> int \<Rightarrow> Dec \<Rightarrow> node \<times> writer \<Rightarrow> (node \<times> writer, unit) res" where
  "handleAnnounce msg now d nw = (case nw of (n, w) \<Rightarrow>
     let (leader, d) = DecStr d;
         (leaderID, d) = DecStr d;
         (ep, d) = DecU64 d
     in case DecDone d of
          Some er \<Rightarrow> (case writeError msg er w of (r, w) \<Rightarrow> (r, (n, w)))
        | None \<Rightarrow>
            if ep \<le> epoch n then (case writeStatus StatusOK w of (r, w) \<Rightarrow> (r, (n, w)))
            else
              let demoted = (role n = Leader);
                  n = n\<lparr>role := Follower, leaderAddr := leader, epoch := ep, lastContact := now\<rparr>;
                  n = (if demoted then n\<lparr>wasLeader := True\<rparr> else n);
                  n = (if demoted then closeAllStreams n else n)
              in (case writeStatus StatusOK w of (r, w) \<Rightarrow> (r, (n, w))))"

definition peersExceptSelf :: "node \<Rightarrow> bytes list" where
  "peersExceptSelf n = filter (\<lambda>p. p \<noteq> cAddr (cfg n) \<and> p \<noteq> []) (cPeers (cfg n))"

definition clusterSize :: "node \<Rightarrow> nat" where
  "clusterSize n = length (peersExceptSelf n) + 1"

definition adoptLeader :: "bytes \<Rightarrow> u64 \<Rightarrow> int \<Rightarrow> node \<Rightarrow> node" where
  "adoptLeader addr ep now n =
     (let n = n\<lparr>leaderAddr := addr\<rparr>;
          n = (if ep > epoch n then n\<lparr>epoch := ep\<rparr> else n)
      in n\<lparr>lastContact := now\<rparr>)"

definition announce_req :: "node \<Rightarrow> u64 \<Rightarrow> bytes" where
  "announce_req n ep =
     (let e = NewEnc OpAnnounce;
          e = EncStr (cAddr (cfg n)) e;
          e = EncStr (cID (cfg n)) e
      in EncU64 ep e)"

text \<open>The answer to an announcement is only logged.\<close>

definition announceTo :: "network \<Rightarrow> bytes \<Rightarrow> u64 \<Rightarrow> node \<Rightarrow> error + bytes" where
  "announceTo net addr ep n = roundTrip net addr (announce_req n ep)"

definition promoteTo :: "u64 \<Rightarrow> int \<Rightarrow> node \<Rightarrow> node" where
  "promoteTo ep now n =
     (if role n = Leader \<and> epoch n \<ge> ep then n
      else
        let n = n\<lparr>role := Leader, leaderAddr := cAddr (cfg n), epoch := ep, lastContact := now\<rparr>
        in n\<lparr>calls := calls n @ map (\<lambda>p. (p, announce_req n ep)) (peersExceptSelf n)\<rparr>)"

definition Promote :: "int \<Rightarrow> node \<Rightarrow> node" where
  "Promote now n = promoteTo (epoch n + 1) now n"

definition vote_req :: "node \<Rightarrow> u64 \<Rightarrow> bytes" where
  "vote_req n mySeq = EncU64 mySeq (EncStr (cID (cfg n)) (NewEnc OpVote))"

definition requestVote :: "network \<Rightarrow> bytes \<Rightarrow> u64 \<Rightarrow> node \<Rightarrow> error + voteReply" where
  "requestVote net addr mySeq n =
     (case roundTrip net addr (vote_req n mySeq) of
        Inl er \<Rightarrow> Inl er
      | Inr fr \<Rightarrow>
          let d = NewDec (tl fr);
              (i, d) = DecStr d;
              (rl, d) = DecU8 d;
              (ep, d) = DecU64 d;
              (sq, d) = DecU64 d;
              (la, d) = DecStr d;
              (al, d) = DecU8 d
          in case DecDone d of
               Some er \<Rightarrow> Inl er
             | None \<Rightarrow> Inr \<lparr> vid = i, vrole = rl, vepoch = ep, vseq = sq, vleaderAddr = la,
                             vleaderAlive = (al = 1), responseFrom = addr \<rparr>)"

text \<open>
  The loop of \<open>startElection\<close> over the peers: either it finds a leader to follow, or it ends with the
  number of answers, whether this node is the best candidate, and the highest epoch seen.
\<close>

datatype verdict = Stand_down bytes u64 | Counted nat bool u64

fun vote_loop :: "(bytes \<Rightarrow> error + voteReply) \<Rightarrow> bytes \<Rightarrow> u64 \<Rightarrow> bytes list \<Rightarrow> nat \<Rightarrow> bool \<Rightarrow> u64 \<Rightarrow> verdict" where
  "vote_loop ask myID mySeq [] responses best myEpoch = Counted responses best myEpoch"
| "vote_loop ask myID mySeq (p # peers) responses best myEpoch =
     (case ask p of
        Inl _ \<Rightarrow> vote_loop ask myID mySeq peers responses best myEpoch
      | Inr reply \<Rightarrow>
          if vrole reply = role_byte Leader \<and> vepoch reply \<ge> myEpoch then Stand_down p (vepoch reply)
          else if vleaderAlive reply \<and> vleaderAddr reply \<noteq> []
          then Stand_down (vleaderAddr reply) (max (vepoch reply) myEpoch)
          else vote_loop ask myID mySeq peers (responses + 1)
                 (best \<and> \<not> (vseq reply > mySeq \<or> vseq reply = mySeq \<and> vid reply < myID))
                 (if vepoch reply > myEpoch then vepoch reply else myEpoch))"

definition startElection :: "network \<Rightarrow> int \<Rightarrow> node \<Rightarrow> node" where
  "startElection net now n =
     (if electing n then n
      else if role n = Leader \<or> closing n then n
      else
        let mySeq = seq (kv n) in
        case vote_loop (\<lambda>p. requestVote net p mySeq n) (cID (cfg n)) mySeq (peersExceptSelf n) 1 True (epoch n) of
          Stand_down a ep \<Rightarrow> adoptLeader a ep now n
        | Counted responses best ep \<Rightarrow>
            if responses * 2 \<le> clusterSize n then n
            else if \<not> best then n
            else promoteTo (ep + 1) now n)"

end
