(* ===== verification/Server.thy ===== *)
theory Server
  imports Cluster_Node
begin

text \<open>
  The request handlers of a node, \<open>handle\<close>, \<open>serveRange\<close> and \<open>serveConn\<close> of
  \<open>internal/node/node.go\<close>.

  What the handlers take from the runtime is a record of parameters: error texts, the formats of
  floating-point numbers and durations, the address of the listener, the number of connections, and
  the gauges of the Go runtime. A requested compaction runs on another goroutine.
\<close>

section \<open>Handlers\<close>

record runtime =
  errText :: "error \<Rightarrow> bytes"
  fmtFloat3 :: "int \<times> int \<Rightarrow> bytes"
  fmtSeconds :: "int \<Rightarrow> bytes"
  fmtMillis :: "int \<Rightarrow> bytes"
  lnAddr :: "bytes option"
  nConns :: int
  goroutines :: nat
  heapBytes :: u64
  startedAt :: int

type_synonym served = "(node \<times> writer, unit) res option"

text \<open>A reply that leaves the node as it is. \<open>None\<close> stands for a handler that never returns.\<close>

definition reply :: "node \<Rightarrow> (writer, unit) res \<Rightarrow> served" where
  "reply n r = (case r of (x, w) \<Rightarrow> Some (x, (n, w)))"

definition redirectIfNotLeader :: "node \<Rightarrow> writer \<Rightarrow> (writer, bool) res" where
  "redirectIfNotLeader n w =
     (if role n = Leader then (Inr False, w)
      else andThen (WriteFrame (EncStr (leaderAddr n) (NewEnc StatusRedirect)) w) (\<lambda>_ w. (Inr True, w)))"

text \<open>The part of a write handler behind the decoding: redirect, or run the write and answer.\<close>

definition leader_only :: "(node \<times> writer \<Rightarrow> served) \<Rightarrow> node \<times> writer \<Rightarrow> served" where
  "leader_only act nw = (case nw of (n, w) \<Rightarrow>
     (case redirectIfNotLeader n w of
        (Inl er, w) \<Rightarrow> Some (Inl er, (n, w))
      | (Inr redirected, w) \<Rightarrow> if redirected then Some (Inr (), (n, w)) else act (n, w)))"

definition handleGet :: "runtime \<Rightarrow> Dec \<Rightarrow> node \<times> writer \<Rightarrow> served" where
  "handleGet rt d nw = (case nw of (n, w) \<Rightarrow>
     let (k, d) = DecBytes d in
     case DecDone d of
       Some er \<Rightarrow> reply n (writeError (errText rt) er w)
     | None \<Rightarrow>
         (case on_store (Get k) n of
            (Inl er, n) \<Rightarrow>
              if er = ErrKeyNotFound then reply n (writeStatus StatusNotFound w)
              else reply n (writeError (errText rt) er w)
          | (Inr v, n) \<Rightarrow> reply n (WriteFrame (EncBytes v (NewEnc StatusOK)) w)))"

definition handlePut :: "runtime \<Rightarrow> int \<Rightarrow> Dec \<Rightarrow> node \<times> writer \<Rightarrow> served" where
  "handlePut rt now d nw = (case nw of (n, w) \<Rightarrow>
     let (k, d) = DecBytes d; (v, d) = DecBytes d in
     case DecDone d of
       Some er \<Rightarrow> reply n (writeError (errText rt) er w)
     | None \<Rightarrow> leader_only (\<lambda>(n, w).
         (case on_store (Put (of_int now) k v) n of
            (Inl er, n) \<Rightarrow> reply n (writeError (errText rt) er w)
          | (Inr _, n) \<Rightarrow> reply n (writeStatus StatusOK w))) (n, w))"

definition handleDelete :: "runtime \<Rightarrow> int \<Rightarrow> Dec \<Rightarrow> node \<times> writer \<Rightarrow> served" where
  "handleDelete rt now d nw = (case nw of (n, w) \<Rightarrow>
     let (k, d) = DecBytes d in
     case DecDone d of
       Some er \<Rightarrow> reply n (writeError (errText rt) er w)
     | None \<Rightarrow> leader_only (\<lambda>(n, w).
         (case on_store (Delete (of_int now) k) n of
            (Inl er, n) \<Rightarrow>
              if er = ErrKeyNotFound then reply n (writeStatus StatusNotFound w)
              else reply n (writeError (errText rt) er w)
          | (Inr _, n) \<Rightarrow> reply n (writeStatus StatusOK w))) (n, w))"

fun batch_loop :: "nat \<Rightarrow> Dec \<Rightarrow> bytes list \<Rightarrow> bytes list \<Rightarrow> (error + bytes list \<times> bytes list) \<times> Dec" where
  "batch_loop 0 d ks vs = (Inr (ks, vs), d)"
| "batch_loop (Suc i) d ks vs =
     (let (k, d) = DecBytes d; (v, d) = DecBytes d in
      case DecErr d of
        Some er \<Rightarrow> (Inl er, d)
      | None \<Rightarrow> batch_loop i d (ks @ [k]) (vs @ [v]))"

definition handleBatchPut :: "runtime \<Rightarrow> int \<Rightarrow> Dec \<Rightarrow> node \<times> writer \<Rightarrow> served" where
  "handleBatchPut rt now d nw = (case nw of (n, w) \<Rightarrow>
     let (c, d) = DecU32 d; count = unat c in
     case DecErr d of
       Some er \<Rightarrow> reply n (writeError (errText rt) er w)
     | None \<Rightarrow>
         if count > DecRemaining d div 8
         then reply n (writeError (errText rt) (ErrOther ''batch count does not fit'') w)
         else (case batch_loop count d [] [] of
             (Inl er, d) \<Rightarrow> reply n (writeError (errText rt) er w)
           | (Inr (ks, vs), d) \<Rightarrow>
               (case DecDone d of
                  Some er \<Rightarrow> reply n (writeError (errText rt) er w)
                | None \<Rightarrow> leader_only (\<lambda>(n, w).
                    (case on_store (BatchPut (of_int now) ks vs) n of
                       (Inl er, n) \<Rightarrow> reply n (writeError (errText rt) er w)
                     | (Inr _, n) \<Rightarrow> reply n (writeStatus StatusOK w))) (n, w))))"

section \<open>Range queries\<close>

definition rangeChunkBytes :: nat where "rangeChunkBytes = 262144"

text \<open>The visitor of \<open>serveRange\<close>: the chunk being built, the number of pairs, \<open>sendErr\<close> and the writer.\<close>

definition range_visitor :: "(bytes \<times> u64 \<times> error option \<times> writer) scan_fn" where
  "range_visitor k v st = (case st of (chunk, npairs, sendErr, w) \<Rightarrow>
     let chunk = EncBytes v (EncBytes k chunk); npairs = npairs + 1 in
     if length chunk \<ge> rangeChunkBytes
     then (case andThen (WriteFrame chunk w) (\<lambda>_ w. Flush w) of
         (Inl er, w) \<Rightarrow> (Some er, (chunk, npairs, Some er, w))
       | (Inr _, w) \<Rightarrow> (None, (NewEnc StatusRangeChunk, npairs, None, w)))
     else (None, (chunk, npairs, sendErr, w)))"

definition serveRange :: "runtime \<Rightarrow> bytes \<Rightarrow> bytes \<Rightarrow> int \<Rightarrow> node \<times> writer \<Rightarrow> served" where
  "serveRange rt start endk limit nw = (case nw of (n, w) \<Rightarrow>
     let limit = (if limit \<le> 0 \<or> limit > cMaxRange (cfg n) then cMaxRange (cfg n) else limit) in
     case Scan start endk limit range_visitor (kv n, (NewEnc StatusRangeChunk, 0, None, w)) of
       None \<Rightarrow> None
     | Some (r, (s, (chunk, npairs, sendErr, w))) \<Rightarrow>
         let n = n\<lparr>kv := s\<rparr> in
         (case sendErr of
            Some er \<Rightarrow> Some (Inl er, (n, w))
          | None \<Rightarrow>
              (case r of
                 Inl er \<Rightarrow> reply n (writeError (errText rt) er w)
               | Inr _ \<Rightarrow>
                   reply n (andThen (if length chunk > 1 then WriteFrame chunk w else (Inr (), w)) (\<lambda>_ w.
                     WriteFrame (EncU64 npairs (NewEnc StatusRangeEnd)) w)))))"

definition handleRange :: "runtime \<Rightarrow> Dec \<Rightarrow> node \<times> writer \<Rightarrow> served" where
  "handleRange rt d nw = (case nw of (n, w) \<Rightarrow>
     let (start, d) = DecBytes d; (endk, d) = DecBytes d; (limit, d) = DecU32 d in
     case DecDone d of
       Some er \<Rightarrow> reply n (writeError (errText rt) er w)
     | None \<Rightarrow> serveRange rt start endk (int (unat limit)) (n, w))"

section \<open>Dispatch\<close>

definition encodePairs :: "(bytes \<times> bytes) list \<Rightarrow> bytes" where
  "encodePairs ps =
     foldl (\<lambda>e (k, v). EncStr v (EncStr k e)) (EncU32 (of_nat (length ps)) (NewEnc StatusOK)) ps"

text \<open>\<open>strconv.Itoa\<close> and \<open>FormatInt\<close>, and \<open>FormatBool\<close>.\<close>

definition fmt_int :: "int \<Rightarrow> bytes" where
  "fmt_int i = (if i < 0 then 45 # digits (nat (- i)) else digits (nat i))"

definition fmt_bool :: "bool \<Rightarrow> bytes" where
  "fmt_bool b = (if b then lit ''true'' else lit ''false'')"

definition statPairs :: "runtime \<Rightarrow> int \<Rightarrow> node \<Rightarrow> (bytes \<times> bytes) list" where
  "statPairs rt now n =
     (let s = Stats (kv n) in
      [(lit ''keys'', fmt_int (stKeys s)),
       (lit ''tombstones'', fmt_int (stTombstones s)),
       (lit ''files'', digits (stFiles s)),
       (lit ''live_bytes'', fmt_int (stLive s)),
       (lit ''dead_bytes'', fmt_int (stDead s)),
       (lit ''reclaimable'', fmtFloat3 rt (stReclaimable s)),
       (lit ''compacting'', fmt_bool (stCompacting s)),
       (lit ''seq'', digits (unat (stSeq s))),
       (lit ''puts'', digits (unat (stPuts s))),
       (lit ''gets'', digits (unat (stGets s))),
       (lit ''deletes'', digits (unat (stDeletes s))),
       (lit ''scans'', digits (unat (stScans s))),
       (lit ''misses'', digits (unat (stMisses s))),
       (lit ''connections'', fmt_int (nConns rt)),
       (lit ''goroutines'', digits (goroutines rt)),
       (lit ''heap_bytes'', digits (unat (heapBytes rt))),
       (lit ''uptime'', fmtSeconds rt (now - startedAt rt))])"

definition RoleString :: "Role \<Rightarrow> bytes" where
  "RoleString r = (if r = Leader then lit ''leader'' else lit ''follower'')"

definition NodeAddr :: "runtime \<Rightarrow> node \<Rightarrow> bytes" where
  "NodeAddr rt n = (case lnAddr rt of Some a \<Rightarrow> a | None \<Rightarrow> cAddr (cfg n))"

definition contactAge :: "runtime \<Rightarrow> int \<Rightarrow> Role \<Rightarrow> int \<Rightarrow> bytes" where
  "contactAge rt now r t = (if r = Leader then lit ''-'' else fmtMillis rt (now - t))"

text \<open>\<open>fmt.Sprint\<close> of a list of strings: between brackets, separated by spaces.\<close>

fun sprint_words :: "bytes list \<Rightarrow> bytes" where
  "sprint_words [] = []"
| "sprint_words [a] = a"
| "sprint_words (a # b # as) = a @ 32 # sprint_words (b # as)"

definition infoPairs :: "runtime \<Rightarrow> int \<Rightarrow> node \<Rightarrow> (bytes \<times> bytes) list" where
  "infoPairs rt now n =
     [(lit ''id'', cID (cfg n)),
      (lit ''addr'', NodeAddr rt n),
      (lit ''role'', RoleString (role n)),
      (lit ''leader'', leaderAddr n),
      (lit ''epoch'', digits (unat (epoch n))),
      (lit ''seq'', digits (unat (Seq (kv n)))),
      (lit ''keys'', fmt_int (StoreLen (kv n))),
      (lit ''followers'', digits (length (streams n))),
      (lit ''last_leader_contact'', contactAge rt now (role n) (lastContact n)),
      (lit ''peers'', 91 # sprint_words (cPeers (cfg n)) @ [93])]"

definition compaction_pair :: "bool \<Rightarrow> bytes \<times> bytes" where
  "compaction_pair started = (lit ''compaction'', if started then lit ''started'' else lit ''already running'')"

definition handle :: "runtime \<Rightarrow> int \<Rightarrow> byte \<Rightarrow> Dec \<Rightarrow> node \<times> writer \<Rightarrow> served" where
  "handle rt now op d nw = (case nw of (n, w) \<Rightarrow>
     if op = OpPing then reply n (writeStatus StatusOK w)
     else if op = OpGet then handleGet rt d (n, w)
     else if op = OpPut then handlePut rt now d (n, w)
     else if op = OpDelete then handleDelete rt now d (n, w)
     else if op = OpBatchPut then handleBatchPut rt now d (n, w)
     else if op = OpRange then handleRange rt d (n, w)
     else if op = OpStats then reply n (WriteFrame (encodePairs (statPairs rt now n)) w)
     else if op = OpInfo then reply n (WriteFrame (encodePairs (infoPairs rt now n)) w)
     else if op = OpCompact then
       (case DecDone d of
          Some er \<Rightarrow> reply n (writeError (errText rt) er w)
        | None \<Rightarrow>
            let (started, s) = StartCompaction (kv n); n = n\<lparr>kv := s\<rparr> in
            reply n (WriteFrame (encodePairs (compaction_pair started # statPairs rt now n)) w))
     else if op = OpVote then reply n (handleVote (errText rt) now d n w)
     else if op = OpAnnounce then Some (handleAnnounce (errText rt) now d (n, w))
     else if op = OpPromote then
       (case DecDone d of
          Some er \<Rightarrow> reply n (writeError (errText rt) er w)
        | None \<Rightarrow> reply (Promote now n) (writeStatus StatusOK w))
     else reply n (writeError (errText rt) (ErrOther (''unknown opcode '' @ OpString op)) w))"

text \<open>
  \<open>serveConn\<close> on the bytes that arrive on a connection: requests are answered one by one until the
  connection ends, a request cannot be answered, or a REPLICATE request takes it over (its sequence
  number is part of the result). \<open>None\<close> is a handler that never returns.
\<close>

datatype conn_end = Closed | Replicate u64

function serveConn :: "runtime \<Rightarrow> int \<Rightarrow> error \<Rightarrow> bytes \<Rightarrow> node \<times> writer \<Rightarrow> (conn_end \<times> node \<times> writer) option" where
  "serveConn rt now er inp nw =
     (if closing (fst nw) then Some (Closed, nw)
      else (case ReadFrame er inp of
          (Inl _, _) \<Rightarrow> Some (Closed, nw)
        | (Inr [], _) \<Rightarrow> Some (Closed, nw)
        | (Inr (op # args), inp') \<Rightarrow>
            if op = OpReplicate
            then (let (fromSeq, d) = DecU64 (NewDec args) in
                  case DecDone d of
                    Some e \<Rightarrow> (case nw of (n, w) \<Rightarrow> Some (Closed, (n, ignore (writeError (errText rt) e w))))
                  | None \<Rightarrow> Some (Replicate fromSeq, nw))
            else (case handle rt now op (NewDec args) nw of
                None \<Rightarrow> None
              | Some (Inl _, nw) \<Rightarrow> Some (Closed, nw)
              | Some (Inr _, (n, w)) \<Rightarrow>
                  (case Flush w of
                     (Inl _, w) \<Rightarrow> Some (Closed, (n, w))
                   | (Inr _, w) \<Rightarrow> serveConn rt now er inp' (n, w)))))"
  by pat_completeness auto
termination
  by (relation "measure (\<lambda>(_, _, _, inp, _). length inp)")
     (auto simp: ReadFrame_def ReadFull_def Let_def split: if_splits)

declare serveConn.simps [simp del]

end
