(* ===== verification/Replication.thy ===== *)
theory Replication
  imports Server
begin

text \<open>
  Replication between nodes, \<open>internal/node/replication.go\<close>: the leader's side of a stream
  (\<open>serveReplication\<close>, \<open>catchUp\<close>) and the follower's (\<open>replicateFrom\<close>, \<open>followLoop\<close>).

  The lemmas compose them over a connection: a follower that asks for everything, as a deposed
  leader does, ends with the leader's map; and a live stream carries every write. Three
  observations at the end record where the code and its comments part.
\<close>

section \<open>The leader\<close>

definition writeHeartbeat :: "node \<Rightarrow> writer \<Rightarrow> (writer, unit) res" where
  "writeHeartbeat n w =
     andThen (WriteFrame (EncStr (leaderAddr n) (EncU64 (epoch n) (NewEnc StatusHeartbeat))) w) (\<lambda>_ w. Flush w)"

definition writeReplData :: "bytes \<Rightarrow> writer \<Rightarrow> (writer, unit) res" where
  "writeReplData raw w = WriteFrame (EncRaw raw (NewEnc StatusReplData)) w"

text \<open>The callback \<open>catchUp\<close> hands to the store.\<close>

definition send_raw :: "writer raw_fn" where
  "send_raw raw w = (case writeReplData raw w of (Inl er, w) \<Rightarrow> (Some er, w) | (Inr _, w) \<Rightarrow> (None, w))"

definition send_snapshot :: "node \<times> writer \<Rightarrow> served" where
  "send_snapshot nw = (case nw of (n, w) \<Rightarrow>
     (case writeStatus StatusFullSync w of
        (Inl er, w) \<Rightarrow> Some (Inl er, (n, w))
      | (Inr _, w) \<Rightarrow>
          (case SnapshotRecords send_raw (kv n, w) of
             None \<Rightarrow> None
           | Some (Inl er, (s, w)) \<Rightarrow> Some (Inl er, (n\<lparr>kv := s\<rparr>, w))
           | Some (Inr _, (s, w)) \<Rightarrow> reply (n\<lparr>kv := s\<rparr>) (Flush w))))"

definition catchUp :: "u64 \<Rightarrow> node \<times> writer \<Rightarrow> served" where
  "catchUp fromSeq nw = (case nw of (n, w) \<Rightarrow>
     if fromSeq = 0 then send_snapshot (n, w)
     else (case RecordsSince fromSeq send_raw (kv n, w) of
         (Inr _, (s, w)) \<Rightarrow> reply (n\<lparr>kv := s\<rparr>) (Flush w)
       | (Inl er, (s, w)) \<Rightarrow>
           if er \<noteq> ErrNeedFullSync then Some (Inl er, (n\<lparr>kv := s\<rparr>, w))
           else send_snapshot (n\<lparr>kv := s\<rparr>, w)))"

text \<open>
  \<open>serveReplication\<close> up to its loop: either the connection is finished (\<open>None\<close>), or the follower is
  attached under a stream number. The outer option is a \<open>catchUp\<close> that never returns.
\<close>

definition attach :: "u64 \<Rightarrow> bytes \<Rightarrow> node \<times> writer \<Rightarrow> (nat option \<times> node \<times> writer) option" where
  "attach fromSeq peer nw = (case nw of (n, w) \<Rightarrow>
     if role n \<noteq> Leader
     then Some (None, (n, ignore (Flush (ignore (WriteFrame (EncStr (leaderAddr n) (NewEnc StatusRedirect)) w)))))
     else
       let (i, n) = addStream (newReplStream peer) n in
       case writeHeartbeat n w of
         (Inl _, w) \<Rightarrow> Some (None, (removeStream i n, w))
       | (Inr _, w) \<Rightarrow>
           (case catchUp fromSeq (n, w) of
              None \<Rightarrow> None
            | Some (Inl _, (n, w)) \<Rightarrow> Some (None, (removeStream i n, w))
            | Some (Inr _, (n, w)) \<Rightarrow>
                (case andThen (writeStatus StatusLive w) (\<lambda>_ w. Flush w) of
                   (Inl _, w) \<Rightarrow> Some (None, (removeStream i n, w))
                 | (Inr _, w) \<Rightarrow> Some (Some i, (n, w)))))"

text \<open>
  Its loop. \<open>take_ch\<close> receives from the channel of stream \<open>i\<close>; a round sends one message and up to
  256 more that are queued. The result says whether the loop goes on.
\<close>

definition take_ch :: "nat \<Rightarrow> node \<Rightarrow> (bytes \<times> node) option" where
  "take_ch i n = (case map_of (streams n) i of
       Some s \<Rightarrow> (case sch s of
           [] \<Rightarrow> None
         | raw # q \<Rightarrow> Some (raw, n\<lparr>streams := map (\<lambda>(j, t). (j, if j = i then t\<lparr>sch := q\<rparr> else t)) (streams n)\<rparr>))
     | None \<Rightarrow> None)"

fun drain :: "nat \<Rightarrow> nat \<Rightarrow> node \<times> writer \<Rightarrow> (node \<times> writer, unit) res" where
  "drain 0 i nw = (Inr (), nw)"
| "drain (Suc k) i (n, w) =
     (case take_ch i n of
        None \<Rightarrow> (Inr (), (n, w))
      | Some (raw, n) \<Rightarrow>
          (case writeReplData raw w of
             (Inl er, w) \<Rightarrow> (Inl er, (n, w))
           | (Inr _, w) \<Rightarrow> drain k i (n, w)))"

definition send_queued :: "nat \<Rightarrow> bytes \<Rightarrow> node \<times> writer \<Rightarrow> (node \<times> writer, unit) res" where
  "send_queued i raw nw = (case nw of (n, w) \<Rightarrow>
     (case writeReplData raw w of
        (Inl er, w) \<Rightarrow> (Inl er, (n, w))
      | (Inr _, w) \<Rightarrow>
          andThen (drain 256 i (n, w)) (\<lambda>_ (n, w). case Flush w of (r, w) \<Rightarrow> (r, (n, w)))))"

text \<open>One round of the loop's \<open>select\<close>: any case that is ready may be taken.\<close>

inductive serve_step :: "nat \<Rightarrow> node \<times> writer \<Rightarrow> bool \<times> node \<times> writer \<Rightarrow> bool" where
  serve_stop: "closing n \<Longrightarrow> serve_step i (n, w) (False, (removeStream i n, w))"
| serve_done: "map_of (streams n) i = Some s \<Longrightarrow> sdone s \<Longrightarrow> serve_step i (n, w) (False, (removeStream i n, w))"
| serve_data: "take_ch i n = Some (raw, n') \<Longrightarrow> send_queued i raw (n', w) = (Inr (), nw) \<Longrightarrow>
    serve_step i (n, w) (True, nw)"
| serve_data_error: "take_ch i n = Some (raw, n') \<Longrightarrow> send_queued i raw (n', w) = (Inl er, (n'', w')) \<Longrightarrow>
    serve_step i (n, w) (False, (removeStream i n'', w'))"
| serve_heartbeat: "writeHeartbeat n w = (Inr (), w') \<Longrightarrow> serve_step i (n, w) (True, (n, w'))"
| serve_heartbeat_error: "writeHeartbeat n w = (Inl er, w') \<Longrightarrow> serve_step i (n, w) (False, (removeStream i n, w'))"

section \<open>The follower\<close>

definition adoptEpoch :: "bytes \<Rightarrow> u64 \<Rightarrow> node \<Rightarrow> node" where
  "adoptEpoch addr ep n =
     (if ep \<ge> epoch n \<and> role n = Follower
      then (let n = n\<lparr>epoch := ep\<rparr> in if addr \<noteq> [] then n\<lparr>leaderAddr := addr\<rparr> else n)
      else n)"

definition setLastContact :: "int \<Rightarrow> node \<Rightarrow> node" where
  "setLastContact now n = n\<lparr>lastContact := now\<rparr>"

definition sinceLastContact :: "int \<Rightarrow> node \<Rightarrow> int" where
  "sinceLastContact now n = now - lastContact n"

text \<open>The start of \<open>replicateFrom\<close>: the request sent, and the node with \<open>wasLeader\<close> cleared.\<close>

definition replicate_req :: "node \<Rightarrow> bytes \<times> node" where
  "replicate_req n =
     (let full = wasLeader n;
          n = n\<lparr>wasLeader := False\<rparr>;
          from = (if full then 0 else seq (kv n))
      in (EncU64 from (NewEnc OpReplicate), n))"

definition idle :: "Config \<Rightarrow> int" where
  "idle c = max (3 * cHeartbeat c) 1000000000"

definition catchUpIdle :: int where "catchUpIdle = 60 * 1000000000"

definition read_deadline :: "Config \<Rightarrow> bool \<Rightarrow> bool \<Rightarrow> int" where
  "read_deadline c greeted caughtUp = (if greeted \<and> \<not> caughtUp then catchUpIdle else idle c)"

text \<open>One frame of the stream: the new \<open>caughtUp\<close> flag and node, or the error \<open>replicateFrom\<close> returns.\<close>

definition follow_frame :: "int \<Rightarrow> bytes \<Rightarrow> bytes \<Rightarrow> bool \<Rightarrow> node \<Rightarrow> (node, bool) res" where
  "follow_frame now addr fr caughtUp n =
     (if fr = [] then (Inl (ErrOther ''empty frame from leader''), n)
      else
        let n = setLastContact now n; st = hd fr; args = tl fr in
        if st = StatusLive then (Inr True, n)
        else if st = StatusHeartbeat then
          (let (ep, d) = DecU64 (NewDec args); (a, d) = DecStr d in
           (Inr True, if DecErr d = None then adoptEpoch a ep n else n))
        else if st = StatusFullSync then andThen (on_store Reset n) (\<lambda>_ n. (Inr caughtUp, n))
        else if st = StatusReplData then andThen (on_store (ApplyRaw args) n) (\<lambda>_ n. (Inr caughtUp, n))
        else if st = StatusRedirect then
          (let a = fst (DecStr (NewDec args)) in
           (Inl (ErrOther ''peer is not the leader''), if a \<noteq> [] \<and> a \<noteq> addr then n\<lparr>leaderAddr := a\<rparr> else n))
        else if st = StatusError then (Inl (RemoteError (fst (DecStr (NewDec args)))), n)
        else (Inl (ErrOther ''unexpected frame on the replication stream''), n))"

text \<open>
  The receiving loop on the bytes that arrive before the stream ends with \<open>er\<close> (a read deadline
  that expires is such an end). \<open>Inr\<close> is the return on shutdown.
\<close>

function follow_loop :: "int \<Rightarrow> bytes \<Rightarrow> error \<Rightarrow> bytes \<Rightarrow> bool \<Rightarrow> node \<Rightarrow> (node, unit) res" where
  "follow_loop now addr er inp caughtUp n =
     (if closing n then (Inr (), n)
      else (case ReadFrame er inp of
          (Inl e, _) \<Rightarrow> (Inl (if e = EOF then ErrOther ''leader closed the stream'' else e), n)
        | (Inr fr, inp') \<Rightarrow>
            (case follow_frame now addr fr caughtUp n of
               (Inl e, n) \<Rightarrow> (Inl e, n)
             | (Inr caughtUp, n) \<Rightarrow> follow_loop now addr er inp' caughtUp n)))"
  by pat_completeness auto
termination
  by (relation "measure (\<lambda>(_, _, _, inp, _). length inp)")
     (auto simp: ReadFrame_def ReadFull_def Let_def split: if_splits)

declare follow_loop.simps [simp del]

definition replicateFrom :: "network \<Rightarrow> int \<Rightarrow> bytes \<Rightarrow> node \<Rightarrow> (node, unit) res" where
  "replicateFrom net now addr n =
     (case net addr of
        Inl er \<Rightarrow> (Inl er, n)
      | Inr c \<Rightarrow>
          let (req, n) = replicate_req n in
          (case andThen (WriteFrame req (NewWriter (cfaults c))) (\<lambda>_ w. Flush w) of
             (Inl er, _) \<Rightarrow> (Inl er, n)
           | (Inr _, w) \<Rightarrow> follow_loop now addr (cend c) (cin c (wout w)) False n))"

text \<open>
  One round of \<open>followLoop\<close>, with the time at which its replication attempt ends; the waiting times
  between rounds do not appear.
\<close>

definition follow_round :: "network \<Rightarrow> int \<Rightarrow> int \<Rightarrow> node \<Rightarrow> node" where
  "follow_round net now now' n =
     (if closing n then n
      else if role n = Leader then n
      else if leaderAddr n = [] \<or> leaderAddr n = cAddr (cfg n)
      then (if sinceLastContact now n > cElection (cfg n) then startElection net now n else n)
      else
        let n = ignore (replicateFrom net now (leaderAddr n) n) in
        if role n = Follower \<and> sinceLastContact now' n > cElection (cfg n) then startElection net now' n else n)"


section \<open>Frames without transport errors\<close>

text \<open>A writer that has been handed frames on top of what it held.\<close>

definition sent :: "writer \<Rightarrow> bytes list \<Rightarrow> writer" where
  "sent w ps = w\<lparr>wout := wout w @ concat (map frame ps)\<rparr>"

lemma sent_Nil [simp]: "sent w [] = w"
  by (simp add: sent_def)

lemma sent_sent [simp]: "sent (sent w ps) qs = sent w (ps @ qs)"
  by (simp add: sent_def)

lemma sent_faults [simp]: "wfaults (sent w ps) = wfaults w"
  by (simp add: sent_def)

lemma WriteFrame_sent [simp]: "wfaults w = [] \<Longrightarrow> frame_ok p \<Longrightarrow> WriteFrame p w = (Inr (), sent w [p])"
  by (simp add: WriteFrame_ok sent_def)

lemma Flush_sent [simp]: "wfaults w = [] \<Longrightarrow> Flush w = (Inr (), w)"
  by (simp add: Flush_def bwWrite_def)

lemma record_frame_ok: "wf_rec r \<Longrightarrow> frame_ok (StatusReplData # encode r)"
  by (simp add: wf_rec_def rec_size_def MaxFrameSize_def record_consts)

section \<open>What a leader sends\<close>

definition heartbeat :: "node \<Rightarrow> bytes" where
  "heartbeat n = EncStr (leaderAddr n) (EncU64 (epoch n) (NewEnc StatusHeartbeat))"

abbreviation data_frames :: "krecord list \<Rightarrow> bytes list" where
  "data_frames rs \<equiv> map (\<lambda>r. StatusReplData # encode r) rs"

lemma WriteFrame_status [simp]: "wfaults w = [] \<Longrightarrow> WriteFrame [st] w = (Inr (), sent w [[st]])"
  by (rule WriteFrame_sent) (simp_all add: MaxFrameSize_def)

lemma feed_send_raw:
  assumes "wfaults w = []" and "list_all wf_rec rs" and "map snd xs = map encode rs"
  shows "feed (\<lambda>_. send_raw) xs w = (None, sent w (data_frames rs))"
  using assms
proof (induction rs arbitrary: xs w)
  case (Cons r rs)
  then obtain k ys where xs: "xs = (k, encode r) # ys" "map snd ys = map encode rs" by (cases xs) auto
  have "send_raw (encode r) w = (None, sent w [StatusReplData # encode r])"
    using Cons.prems record_frame_ok [of r] by (simp add: send_raw_def writeReplData_def EncRaw_def NewEnc_def)
  then show ?case using Cons.IH [of "sent w [StatusReplData # encode r]" ys] Cons.prems xs by simp
qed simp

lemma snapshot_recs_wf: "index_ok (ix s) (logs s) \<Longrightarrow> list_all wf_rec (snapshot_recs s)"
  using snapshot_carries [of s] by (simp add: carries_def list_all_iff)

definition node_reads :: "node \<Rightarrow> node \<Rightarrow> bool" where
  "node_reads n n' \<longleftrightarrow> (\<exists>t. n' = n\<lparr>kv := t\<rparr> \<and> after_read (kv n) t)"

lemma send_snapshot_ok:
  assumes "store_ok (kv n)" and "faults (disk (kv n)) = []" and "wfaults w = []"
  obtains n' where "send_snapshot (n, w) = Some (Inr (), (n', sent w ([StatusFullSync] # data_frames (snapshot_recs (kv n)))))"
    and "node_reads n n'"
proof -
  have "index_ok (ix (kv n)) (logs (kv n))" using assms(1) by (simp add: store_ok_def store_inv_def)
  note wf = snapshot_recs_wf [OF this]
  let ?w = "sent w [[StatusFullSync]]"
  obtain t xs where t: "after_read (kv n) t" "map snd xs = map encode (snapshot_recs (kv n))"
    "SnapshotRecords send_raw (kv n, ?w) = Some (case feed (\<lambda>_. send_raw) xs ?w of
      (Some er, f') \<Rightarrow> (Inl er, (t, f')) | (None, f') \<Rightarrow> (Inr (), (t, f')))"
    by (rule SnapshotRecords_feeds [OF assms(1,2)])
  have "feed (\<lambda>_. send_raw) xs ?w = (None, sent ?w (data_frames (snapshot_recs (kv n))))"
    using assms(3) by (intro feed_send_raw wf t(2)) simp
  then have "send_snapshot (n, w) = Some (Inr (), (n\<lparr>kv := t\<rparr>, sent w ([StatusFullSync] # data_frames (snapshot_recs (kv n)))))"
    using t(3) assms(3) by (simp add: send_snapshot_def writeStatus_def reply_def)
  then show ?thesis using that t(1) by (auto simp: node_reads_def)
qed

lemma attach_full:
  assumes "role n = Leader" and "store_ok (kv n)" and "faults (disk (kv n)) = []" and "frame_ok (heartbeat n)"
  obtains i n' where "attach 0 peer (n, NewWriter []) = Some (Some i, (n', sent (NewWriter [])
      ([heartbeat n, [StatusFullSync]] @ data_frames (snapshot_recs (kv n)) @ [[StatusLive]])))"
    and "kv n' = kv n \<or> after_read (kv n) (kv n')" and "role n' = Leader"
proof -
  define w where "w = NewWriter []"
  have w: "wfaults w = []" by (simp add: w_def NewWriter_def)
  obtain i n1 where add: "addStream (newReplStream peer) n = (i, n1)" by fastforce
  then have n1: "kv n1 = kv n" "heartbeat n1 = heartbeat n" "role n1 = Leader"
    using assms(1) by (auto simp: addStream_def heartbeat_def)
  let ?w = "sent w [heartbeat n]"
  have hb: "writeHeartbeat n1 w = (Inr (), ?w)"
    using assms(4) w by (simp add: writeHeartbeat_def heartbeat_def [symmetric] n1(2))
  obtain n' where n': "send_snapshot (n1, ?w) = Some (Inr (), (n', sent ?w ([StatusFullSync] # data_frames (snapshot_recs (kv n)))))"
    "node_reads n1 n'"
    using send_snapshot_ok [of n1 ?w] assms(2,3) n1(1) w by auto
  have "attach 0 peer (n, w) = Some (Some i, (n', sent w
      ([heartbeat n, [StatusFullSync]] @ data_frames (snapshot_recs (kv n)) @ [[StatusLive]])))"
    using assms(1) add hb n'(1) w by (simp add: attach_def catchUp_def writeStatus_def)
  then show ?thesis using that n'(2) n1(1,3) unfolding w_def by (auto simp: node_reads_def)
qed

section \<open>What a follower does with it\<close>

fun follow_all :: "int \<Rightarrow> bytes \<Rightarrow> bytes list \<Rightarrow> bool \<Rightarrow> node \<Rightarrow> (node, bool) res" where
  "follow_all now addr [] c n = (Inr c, n)"
| "follow_all now addr (p # ps) c n = andThen (follow_frame now addr p c n) (\<lambda>c n. follow_all now addr ps c n)"

lemma notified_keeps:
  "closing (notified n) = closing n" "role (notified n) = role n" "epoch (notified n) = epoch n"
  "kv (notified n) = (kv n)\<lparr>outbox := []\<rparr>" "leaderAddr (notified n) = leaderAddr n" "cfg (notified n) = cfg n"
  "wasLeader (notified n) = wasLeader n" "electing (notified n) = electing n"
proof -
  let ?f = "\<lambda>n (i, maxSeq, raw). if i = observer n then fanout maxSeq raw n else n"
  have "closing (foldl ?f n xs) = closing n \<and> role (foldl ?f n xs) = role n \<and> epoch (foldl ?f n xs) = epoch n \<and>
    kv (foldl ?f n xs) = kv n \<and> leaderAddr (foldl ?f n xs) = leaderAddr n \<and> cfg (foldl ?f n xs) = cfg n \<and>
    wasLeader (foldl ?f n xs) = wasLeader n \<and> electing (foldl ?f n xs) = electing n" for xs n
    by (induction xs arbitrary: n) (auto simp: fanout_def split: prod.splits)
  then show "closing (notified n) = closing n" "role (notified n) = role n" "epoch (notified n) = epoch n"
    "kv (notified n) = (kv n)\<lparr>outbox := []\<rparr>" "leaderAddr (notified n) = leaderAddr n" "cfg (notified n) = cfg n"
    "wasLeader (notified n) = wasLeader n" "electing (notified n) = electing n"
    by (simp_all add: notified_def)
qed

lemma snd_andThen [simp]: "snd (andThen r (\<lambda>_ s. (Inr c, s))) = snd r"
  by (cases r; cases "fst r") auto

lemma follow_frame_closing: "closing (snd (follow_frame now addr p c n)) = closing n"
  by (auto simp: follow_frame_def setLastContact_def adoptEpoch_def on_store_def notified_keeps Let_def split: prod.splits)

lemma follow_loop_frames:
  "list_all frame_ok ps \<Longrightarrow> \<not> closing n \<Longrightarrow>
   follow_loop now addr EOF (concat (map frame ps)) c n =
     (case follow_all now addr ps c n of
        (Inl e, n) \<Rightarrow> (Inl e, n)
      | (Inr _, n) \<Rightarrow> (Inl (ErrOther ''leader closed the stream''), n))"
proof (induction ps arbitrary: c n)
  case Nil
  then show ?case by (simp add: follow_loop.simps ReadFrame_def ReadFull_def)
next
  case (Cons p ps)
  obtain r n1 where r: "follow_frame now addr p c n = (r, n1)" by fastforce
  then have "\<not> closing n1" using follow_frame_closing [of now addr p c n] Cons.prems(2) by simp
  then show ?case
    using Cons r ReadFrame_frame [of p EOF] by (subst follow_loop.simps) (cases r; simp)
qed

lemma store_outbox [simp]: "store_ok (s\<lparr>outbox := xs\<rparr>) = store_ok s"
  by (simp add: store_ok_def store_inv_def seq_ok_def)

lemma follow_data:
  assumes "list_all wf_rec rs" and "store_ok (kv n)" and "\<not> closed (kv n)"
    and "follow_all now addr (data_frames rs) c n = (Inr c', n')"
  shows "store_ok (kv n') \<and> \<not> closed (kv n') \<and> c' = c \<and>
    view (kv n') = foldl (newest fst) (view (kv n)) (map rec_view rs)"
  using assms
proof (induction rs arbitrary: n)
  case (Cons r rs)
  let ?n = "setLastContact now n"
  obtain m s1 where s1: "ApplyRaw (encode r) (kv n) = (Inr m, s1)"
      "follow_all now addr (data_frames rs) c (notified (?n\<lparr>kv := s1\<rparr>)) = (Inr c', n')"
    using Cons.prems(4)
    by (auto simp: follow_frame_def statuses on_store_def andThen_Inr setLastContact_def Let_def split: prod.splits)
  have wf: "wf_rec r" using Cons.prems(1) by simp
  have "applied [r] (kv n) (Inr m, s1)"
    unfolding s1(1) [symmetric]
    using ApplyRaw_records [OF Cons.prems(2,3), of "[r]"] wf wf_rec_single [OF wf] by simp
  then have "store_ok s1" "\<not> closed s1" "view s1 = newest fst (view (kv n)) (rec_view r)"
    using Cons.prems(3) by (simp_all add: applied_def)
  then show ?case
    using Cons.IH [OF _ _ _ s1(2)] Cons.prems(1) by (simp add: notified_keeps)
qed simp


lemma follow_data_error:
  assumes "list_all wf_rec rs" and "store_ok (kv n)" and "\<not> closed (kv n)"
    and "follow_all now addr (data_frames rs) c n = (Inl e, n')"
  shows "e = ErrIO"
  using assms
proof (induction rs arbitrary: n)
  case (Cons r rs)
  let ?n = "setLastContact now n"
  have wf: "wf_rec r" using Cons.prems(1) by simp
  obtain x s1 where s1: "ApplyRaw (encode r) (kv n) = (x, s1)" by fastforce
  have a: "applied [r] (kv n) (x, s1)"
    unfolding s1 [symmetric] using ApplyRaw_records [OF Cons.prems(2,3), of "[r]"] wf wf_rec_single [OF wf] by simp
  show ?case
  proof (cases x)
    case (Inl er)
    then show ?thesis using a Cons.prems(4) s1
      by (auto simp: applied_def follow_frame_def statuses on_store_def setLastContact_def Let_def)
  next
    case (Inr m)
    then have "follow_all now addr (data_frames rs) c (notified (?n\<lparr>kv := s1\<rparr>)) = (Inl e, n')"
      using Cons.prems(4) s1 by (auto simp: follow_frame_def statuses on_store_def setLastContact_def Let_def)
    then show ?thesis
      using Cons.IH [of "notified (?n\<lparr>kv := s1\<rparr>)"] Cons.prems a Inr by (simp add: applied_def notified_keeps)
  qed
qed simp

lemma follow_all_append:
  "follow_all now addr (ps @ qs) c n = andThen (follow_all now addr ps c n) (\<lambda>c n. follow_all now addr qs c n)"
proof (induction ps arbitrary: c n)
  case (Cons p ps)
  then show ?case by (cases "follow_frame now addr p c n"; cases "fst (follow_frame now addr p c n)") auto
qed simp

text \<open>The follower's side of a full resync.\<close>

lemma follow_heartbeat:
  "hd hb = StatusHeartbeat \<Longrightarrow> hb \<noteq> [] \<Longrightarrow>
   \<exists>n1. follow_frame now addr hb c n = (Inr True, n1) \<and> kv n1 = kv n \<and> closing n1 = closing n"
  by (auto simp: follow_frame_def statuses setLastContact_def adoptEpoch_def Let_def split: prod.splits)

lemma follow_full_sync:
  assumes "list_all wf_rec rs" and "hd hb = StatusHeartbeat" "hb \<noteq> []" and "store_ok (kv n)" and "\<not> closed (kv n)"
    and "follow_all now addr ([hb, [StatusFullSync]] @ data_frames rs @ [[StatusLive]]) c n = (r, n')"
  shows "r = Inl ErrIO \<or> r = Inr True \<and> store_ok (kv n') \<and> \<not> closed (kv n') \<and>
    view (kv n') = foldl (newest fst) Map.empty (map rec_view rs)"
proof -
  obtain n1 where n1: "follow_frame now addr hb c n = (Inr True, n1)" "kv n1 = kv n"
    using follow_heartbeat [OF assms(2,3)] by blast
  obtain x s2 where s2: "Reset (kv n) = (x, s2)" by fastforce
  note ok = Reset_empties [OF assms(4) s2 assms(5)]
  let ?n2 = "notified ((setLastContact now n1)\<lparr>kv := s2\<rparr>)"
  have step2: "follow_frame now addr [StatusFullSync] True n1 = andThen (x, ?n2) (\<lambda>_ n. (Inr True, n))"
    using s2 n1(2) by (simp add: follow_frame_def statuses on_store_def setLastContact_def Let_def)
  from ok(4) show ?thesis
  proof
    assume "x = Inl ErrIO"
    then show ?thesis using assms(6) n1(1) step2 by simp
  next
    assume x: "x = Inr ()"
    obtain y n3 where y: "follow_all now addr (data_frames rs) True ?n2 = (y, n3)" by fastforce
    have n2: "store_ok (kv ?n2)" "\<not> closed (kv ?n2)" "view (kv ?n2) = Map.empty"
      using ok(1-3) by (simp_all add: notified_keeps)
    have all: "(r, n') = andThen (y, n3) (\<lambda>c n. follow_all now addr [[StatusLive]] c n)"
      using assms(6) n1(1) step2 x y by (simp add: follow_all_append)
    show ?thesis
    proof (cases y)
      case (Inl e)
      then show ?thesis using follow_data_error [OF assms(1) n2(1,2)] y all by simp
    next
      case (Inr b)
      then have "store_ok (kv n3) \<and> \<not> closed (kv n3) \<and> view (kv n3) = foldl (newest fst) Map.empty (map rec_view rs)"
        using follow_data [OF assms(1) n2(1,2)] y n2(3) by simp
      moreover have "r = Inr True" "kv n' = kv n3"
        using all Inr by (simp_all add: follow_frame_def statuses setLastContact_def Let_def)
      ultimately show ?thesis by simp
    qed
  qed
qed

section \<open>A connection to a node\<close>

text \<open>
  What comes back from a node over a connection without transport errors: the answers of
  \<open>serveConn\<close>, or, once a REPLICATE request has taken the connection over, everything up to the
  point where the backlog is drained.
\<close>

definition answers :: "runtime \<Rightarrow> int \<Rightarrow> bytes \<Rightarrow> node \<Rightarrow> bytes \<Rightarrow> bytes" where
  "answers rt now peer n req =
     (case serveConn rt now EOF req (n, NewWriter []) of
        None \<Rightarrow> []
      | Some (Closed, (_, w)) \<Rightarrow> wout w
      | Some (Replicate fromSeq, nw) \<Rightarrow>
          (case attach fromSeq peer nw of None \<Rightarrow> [] | Some (_, (_, w)) \<Rightarrow> wout w))"

definition connection :: "runtime \<Rightarrow> int \<Rightarrow> bytes \<Rightarrow> node \<Rightarrow> conn" where
  "connection rt now peer n = \<lparr> cfaults = [], cin = answers rt now peer n, cend = EOF \<rparr>"

lemma serveConn_replicate:
  assumes "\<not> closing n"
  shows "serveConn rt now EOF (frame (EncU64 fseq (NewEnc OpReplicate))) (n, w) = Some (Replicate fseq, (n, w))"
proof -
  let ?p = "EncU64 fseq (NewEnc OpReplicate)"
  have p: "?p = OpReplicate # be_bytes 8 fseq" by (simp add: EncU64_def NewEnc_def)
  have "ReadFrame EOF (frame ?p) = (Inr ?p, [])"
    using ReadFrame_frame [of ?p EOF "[]"] by (simp add: p MaxFrameSize_def)
  moreover have "DecU64 (NewDec (be_bytes 8 fseq)) = (fseq, dec_at (be_bytes 8 fseq) [])"
    using Dec_at(3) [of "[]" fseq "[]"] by (simp add: NewDec_at)
  ultimately show ?thesis using assms by (subst serveConn.simps) (simp add: p DecDone_at)
qed


lemma announce_req_body:
  "tl (announce_req n ep) = EncU64 ep (EncStr (cID (cfg n)) (EncStr (cAddr (cfg n)) []))"
  by (simp add: announce_req_def NewEnc_def EncU64_def EncStr_def EncU32_def)

lemma handleAnnounce_newer:
  assumes "length (cAddr (cfg l)) < 2 ^ 32" and "length (cID (cfg l)) < 2 ^ 32" and "epoch n < ep"
    and "handleAnnounce msg now (NewDec (tl (announce_req l ep))) (n, w) = (r, (n', w'))"
  shows "n' = (let n1 = n\<lparr>role := Follower, leaderAddr := cAddr (cfg l), epoch := ep, lastContact := now\<rparr> in
    if role n = Leader then closeAllStreams (n1\<lparr>wasLeader := True\<rparr>) else n1)"
proof -
  define a where "a = cAddr (cfg l)"
  define i where "i = cID (cfg l)"
  let ?la = "be_bytes 4 (of_nat (length a) :: u32)" and ?li = "be_bytes 4 (of_nat (length i) :: u32)"
  have body: "NewDec (tl (announce_req l ep)) = dec_at [] (?la @ a @ ?li @ i @ be_bytes 8 ep @ [])"
    by (simp add: announce_req_body NewDec_at EncU64_def EncStr_def EncU32_def a_def i_def)
  have 1: "DecStr (dec_at [] (?la @ a @ ?li @ i @ be_bytes 8 ep @ [])) = (a, dec_at (?la @ a) (?li @ i @ be_bytes 8 ep @ []))"
    using DecBytes_at [of a "[]"] assms(1) unfolding DecStr_def a_def by simp
  have 2: "DecStr (dec_at (?la @ a) (?li @ i @ be_bytes 8 ep @ [])) = (i, dec_at ((?la @ a) @ ?li @ i) (be_bytes 8 ep @ []))"
    using DecBytes_at [of i] assms(2) unfolding DecStr_def i_def by blast
  show ?thesis
    using assms(3,4) unfolding handleAnnounce_def body prod.case Let_def 1 2 Dec_at DecDone_at
    by (auto simp: a_def split: prod.splits if_splits)
qed

text \<open>The frames a leader answers a request for everything with, and a follower that gets them.\<close>

definition full_sync_frames :: "node \<Rightarrow> bytes list" where
  "full_sync_frames l = [heartbeat l, [StatusFullSync]] @ data_frames (snapshot_recs (kv l)) @ [[StatusLive]]"

lemma heartbeat_ok:
  assumes "length (leaderAddr l) < 2 ^ 20"
  shows "hd (heartbeat l) = StatusHeartbeat" "heartbeat l \<noteq> []" "frame_ok (heartbeat l)"
  using assms by (simp_all add: heartbeat_def NewEnc_def EncStr_def EncU32_def EncU64_def MaxFrameSize_def)

lemma replicate_full:
  assumes "role l = Leader" and "\<not> closing l" and "store_ok (kv l)" and "faults (disk (kv l)) = []"
    and "length (leaderAddr l) < 2 ^ 20" and "net addr = Inr (connection rt now peer l)"
    and "wasLeader n \<or> seq (kv n) = 0" and "\<not> closing n"
  shows "replicateFrom net now addr n =
    (case follow_all now addr (full_sync_frames l) False (n\<lparr>wasLeader := False\<rparr>) of
       (Inl e, n) \<Rightarrow> (Inl e, n)
     | (Inr _, n) \<Rightarrow> (Inl (ErrOther ''leader closed the stream''), n))"
proof -
  let ?req = "EncU64 0 (NewEnc OpReplicate)" and ?n = "n\<lparr>wasLeader := False\<rparr>" and ?ps = "full_sync_frames l"
  have "index_ok (ix (kv l)) (logs (kv l))" using assms(3) by (simp add: store_ok_def store_inv_def)
  then have ok: "list_all frame_ok ?ps"
    using snapshot_recs_wf record_frame_ok heartbeat_ok(3) [OF assms(5)]
    by (auto simp: list_all_iff MaxFrameSize_def full_sync_frames_def)
  have "answers rt now peer l (frame ?req) = concat (map frame ?ps)"
  proof -
    obtain i l' where "attach 0 peer (l, NewWriter []) = Some (Some i, (l', sent (NewWriter []) ?ps))"
      using attach_full [OF assms(1,3,4) heartbeat_ok(3) [OF assms(5)]] unfolding full_sync_frames_def by blast
    then show ?thesis
      using serveConn_replicate [OF assms(2), of rt now 0 "NewWriter []"]
      by (simp add: answers_def) (simp add: sent_def NewWriter_def)
  qed
  moreover have "WriteFrame ?req (NewWriter []) = (Inr (), sent (NewWriter []) [?req])"
    by (rule WriteFrame_sent) (simp_all add: NewWriter_def EncU64_def NewEnc_def MaxFrameSize_def)
  moreover have "replicate_req n = (?req, ?n)" using assms(7) by (auto simp: replicate_req_def Let_def)
  ultimately have "replicateFrom net now addr n = follow_loop now addr EOF (concat (map frame ?ps)) False ?n"
    using assms(6) by (simp add: replicateFrom_def connection_def) (simp add: sent_def NewWriter_def)
  then show ?thesis using follow_loop_frames [OF ok, of ?n] assms(8) by simp
qed

lemma full_sync_wire:
  assumes "role l = Leader" and "\<not> closing l" and "store_ok (kv l)" and "faults (disk (kv l)) = []"
    and "length (leaderAddr l) < 2 ^ 20" and "net addr = Inr (connection rt now peer l)"
    and "wasLeader n \<or> seq (kv n) = 0" and "\<not> closing n" and "store_ok (kv n)" and "\<not> closed (kv n)"
    and "replicateFrom net now addr n = (r, n')"
  shows "r = Inl ErrIO \<or>
    r = Inl (ErrOther ''leader closed the stream'') \<and> store_ok (kv n') \<and> contents (kv n') = contents (kv l)"
proof -
  have io: "index_ok (ix (kv l)) (logs (kv l))" using assms(3) by (simp add: store_ok_def store_inv_def)
  obtain x n3 where all: "follow_all now addr (full_sync_frames l) False (n\<lparr>wasLeader := False\<rparr>) = (x, n3)" by fastforce
  have "x = Inl ErrIO \<or> x = Inr True \<and> store_ok (kv n3) \<and> \<not> closed (kv n3) \<and>
      view (kv n3) = foldl (newest fst) Map.empty (map rec_view (snapshot_recs (kv l)))"
    using follow_full_sync [OF snapshot_recs_wf [OF io] heartbeat_ok(1,2) [OF assms(5)] _ _ all [unfolded full_sync_frames_def]]
      assms(9,10) by simp
  then show ?thesis
    using replicate_full [of l net addr rt now peer n, OF assms(1-8)] assms(11) all snapshot_recs_contents [OF io] by auto
qed


section \<open>Streams have no gaps\<close>

text \<open>What happens to an attached stream: the node fans a message out, or the loop takes one.\<close>

datatype stream_event = Fan bytes | Take

fun stream_run :: "nat \<Rightarrow> stream_event list \<Rightarrow> node \<times> bytes list \<Rightarrow> node \<times> bytes list" where
  "stream_run i [] st = st"
| "stream_run i (Fan raw # evs) (n, out) = stream_run i evs (fanout 0 raw n, out)"
| "stream_run i (Take # evs) (n, out) = (case take_ch i n of
     None \<Rightarrow> stream_run i evs (n, out) | Some (raw, n) \<Rightarrow> stream_run i evs (n, out @ [raw]))"

fun fanned :: "stream_event list \<Rightarrow> bytes list" where
  "fanned [] = []" | "fanned (Fan raw # evs) = raw # fanned evs" | "fanned (Take # evs) = fanned evs"

lemma map_of_apsnd: "map_of (map (apsnd f) xs) i = map_option f (map_of xs i)"
  by (induction xs) auto

lemma map_of_upd_one: "map_of (map (\<lambda>(j, t). (j, if j = i then f t else t)) xs) i = map_option f (map_of xs i)"
  by (induction xs) auto

lemma fanout_stream: "map_of (streams n) i = Some s \<Longrightarrow> map_of (streams (fanout m raw n)) i = Some (offer raw s)"
  by (auto simp: fanout_def map_of_apsnd)

lemma take_ch_stream:
  assumes "map_of (streams n) i = Some s" and "take_ch i n = Some (raw, n')"
  shows "sch s = raw # tl (sch s) \<and> map_of (streams n') i = Some (s\<lparr>sch := tl (sch s)\<rparr>)"
  using assms by (auto simp: take_ch_def map_of_upd_one split: list.splits)

lemma stream_run_live:
  assumes "map_of (streams n) i = Some s" and "stream_run i evs (n, out) = (n', out')"
  shows "\<exists>s'. map_of (streams n') i = Some s' \<and>
    (\<not> sdone s' \<longrightarrow> \<not> sdone s \<and> out' @ sch s' = out @ sch s @ fanned evs)"
  using assms
proof (induction i evs "(n, out)" arbitrary: n out s rule: stream_run.induct)
  case (2 i raw evs n out)
  have "sdone (offer raw s) \<or> \<not> sdone s \<and> sch (offer raw s) = sch s @ [raw]"
    by (auto simp: offer_def closeStream_def)
  then show ?case using 2(1) [OF fanout_stream [OF 2(2)]] 2(3) by fastforce
next
  case (3 i evs n out)
  show ?case
  proof (cases "take_ch i n")
    case None
    then show ?thesis using 3 by simp
  next
    case (Some x)
    obtain raw n1 where x: "x = (raw, n1)" by fastforce
    note t = take_ch_stream [OF 3(3) Some [unfolded x]]
    have run: "stream_run i evs (n1, out @ [raw]) = (n', out')" using 3(4) Some x by simp
    from 3(2) [OF Some x [symmetric] conjunct2 [OF t] run] t show ?thesis
      by (metis append.assoc append_Cons append_Nil fanned.simps(3) replStream.select_convs(1,2)
          replStream.surjective replStream.update_convs(1))
  qed
qed simp

text \<open>
  C13. A live stream carries every write: from the moment a follower is attached, as long as its
  stream has not been closed, the messages sent on it followed by those still queued are exactly
  the messages fanned out since, in order.
\<close>

theorem live_stream_no_gap:
  assumes "addStream (newReplStream peer) n = (i, n0)" and "map_of (streams n) i = None"
    and "stream_run i evs (n0, []) = (n', out)"
  shows "\<exists>s. map_of (streams n') i = Some s \<and> (\<not> sdone s \<longrightarrow> out @ sch s = fanned evs)"
proof -
  have "map_of (streams n0) i = Some (newReplStream peer)"
    using assms(1,2) by (auto simp: addStream_def map_add_def)
  from stream_run_live [OF this assms(3)] show ?thesis by (auto simp: newReplStream_def)
qed

section \<open>Two concrete nodes\<close>

definition config_ex :: "bytes \<Rightarrow> Config" where
  "config_ex a = \<lparr> cID = a, cAddr = a, cPeers = [[0x31], [0x32], [0x33]], cBootstrap = True, cLeader = [],
     cHeartbeat = 1000000000, cElection = 5000000000, cMaxRange = 100000 \<rparr>"

definition node_ex :: "bytes \<Rightarrow> u64 \<Rightarrow> store \<Rightarrow> node" where
  "node_ex a ep s = \<lparr> cfg = config_ex a, kv = s, role = Leader, leaderAddr = a, epoch = ep, lastContact = 0,
     wasLeader = False, streams = [], nextStream = 0, electing = False, closing = False, observer = 1, calls = [] \<rparr>"

definition runtime_ex :: runtime where
  "runtime_ex = \<lparr> errText = (\<lambda>_. []), fmtFloat3 = (\<lambda>_. []), fmtSeconds = (\<lambda>_. []), fmtMillis = (\<lambda>_. []),
     lnAddr = None, nConns = 0, goroutines = 1, heapBytes = 0, startedAt = 0 \<rparr>"

lemma calm_outbox [simp]: "calm (s\<lparr>outbox := xs\<rparr>) = calm s"
  by (simp add: calm_def)

lemma follow_full_sync_calm:
  assumes "hd hb = StatusHeartbeat" "hb \<noteq> []" and "store_ok (kv n)" and "\<not> closed (kv n)"
    and "Reset (kv n) = (Inr (), t)" "calm t" and "wf_rec q"
  shows "\<exists>n'. follow_all now addr ([hb, [StatusFullSync]] @ data_frames [q] @ [[StatusLive]]) c n = (Inr True, n')"
proof -
  obtain n1 where n1: "follow_frame now addr hb c n = (Inr True, n1)" "kv n1 = kv n"
    using follow_heartbeat [OF assms(1,2)] by blast
  note ok = Reset_empties [OF assms(3,5,4)]
  let ?t = "t\<lparr>outbox := []\<rparr>"
  obtain m u where u: "ApplyRaw (encode q) ?t = (Inr m, u)"
    using ApplyRaw_calm [of ?t "[q]"] ok(1,3) assms(6,7) wf_rec_single [OF assms(7)] by auto
  show ?thesis
    using n1 assms(5) u
    by (simp add: follow_frame_def statuses on_store_def setLastContact_def Let_def notified_keeps)
qed



theorem live_stream_no_gap_witness:
  "\<exists>s. map_of (streams (fst (stream_run 0 [Fan [1], Take, Fan [2]] (snd (addStream (newReplStream []) (node_ex [0x31] 1 store_ex)), [])))) 0 = Some s \<and>
    (\<not> sdone s \<longrightarrow> [[1]] @ sch s = [[1], [2]])"
proof -
  have a: "addStream (newReplStream []) (node_ex [0x31] 1 store_ex) = (0, snd (addStream (newReplStream []) (node_ex [0x31] 1 store_ex)))"
    by (simp add: addStream_def node_ex_def)
  have e: "stream_run 0 [Fan [1], Take, Fan [2]] (snd (addStream (newReplStream []) (node_ex [0x31] 1 store_ex)), []) =
      (fst (stream_run 0 [Fan [1], Take, Fan [2]] (snd (addStream (newReplStream []) (node_ex [0x31] 1 store_ex)), [])), [[1]])"
    by (simp add: addStream_def node_ex_def fanout_def offer_def take_ch_def newReplStream_def streamBuffer_def)
  show ?thesis using live_stream_no_gap [OF a _ e] by (simp add: node_ex_def)
qed

section \<open>Observations\<close>

text \<open>
  A stream that was dropped stays in the node's table until its loop notices; if the loop takes a
  message first, the next write is queued behind the gap.
\<close>

lemma dropped_stream_gap:
  assumes "length (sch s) = streamBuffer" and "sch s = raw # q"
  shows "sdone (offer r1 s) \<and> sch (offer r2 ((offer r1 s)\<lparr>sch := q\<rparr>)) = q @ [r2]"
  using assms by (simp add: offer_def closeStream_def)

text \<open>The greeting of the leader already ends the generous read deadline meant for the backlog.\<close>

lemma greeting_ends_catch_up:
  assumes "fr \<noteq> []" and "hd fr = StatusHeartbeat" and "follow_frame now addr fr c n = (Inr c', n')"
  shows "read_deadline cf True c' = idle cf"
  using assms by (auto simp: follow_frame_def statuses Let_def read_deadline_def split: prod.splits)

text \<open>A deposed leader whose first connection breaks forgets that it needs a snapshot.\<close>

lemma demotion_forgotten:
  assumes "\<not> closing n" and "net addr = Inr \<lparr> cfaults = [], cin = (\<lambda>_. []), cend = EOF \<rparr>"
  shows "\<exists>n'. replicateFrom net now addr n = (Inl (ErrOther ''leader closed the stream''), n') \<and>
    fst (replicate_req n') = EncU64 (seq (kv n)) (NewEnc OpReplicate)"
proof -
  have "WriteFrame p (NewWriter []) = (Inr (), sent (NewWriter []) [p])" if "frame_ok p" for p
    using that by (simp add: NewWriter_def)
  then have "replicateFrom net now addr n = (Inl (ErrOther ''leader closed the stream''), n\<lparr>wasLeader := False\<rparr>)"
    using assms by (simp add: replicateFrom_def replicate_req_def Let_def NewEnc_def EncU64_def MaxFrameSize_def NewWriter_def
        follow_loop.simps [of now addr EOF "[]"] ReadFrame_def ReadFull_def)
  then show ?thesis by (simp add: replicate_req_def Let_def)
qed

end
