(* ===== verification/Requests.thy ===== *)
theory Requests
  imports Replication
begin

text \<open>
  Requests to a node over a connection: what \<open>serveConn\<close> and \<open>handle\<close> (\<open>internal/node/node.go\<close>) make
  of them, and what the caller reads back.
\<close>

section \<open>One request over a connection\<close>

definition str_enc :: "bytes \<Rightarrow> bytes" where
  "str_enc a = be_bytes 4 (of_nat (length a) :: u32) @ a"

lemma Enc_append [codec]:
  "EncStr a e = e @ str_enc a" "EncBytes a e = e @ str_enc a" "EncU8 b e = e @ [b]"
  "EncU32 c e = e @ be_bytes 4 c" "EncU64 q e = e @ be_bytes 8 q"
  by (simp_all add: EncStr_def EncBytes_def EncU8_def EncU32_def EncU64_def str_enc_def)

lemma length_str_enc [simp]: "length (str_enc a) = 4 + length a"
  by (simp add: str_enc_def)

lemma Dec_str_at [codec]:
  assumes "length a < 2 ^ 32"
  shows "DecBytes (dec_at pre (str_enc a @ r)) = (a, dec_at (pre @ str_enc a) r)"
    "DecStr (dec_at pre (str_enc a @ r)) = (a, dec_at (pre @ str_enc a) r)"
    "DecBytes (dec_at pre (str_enc a)) = (a, dec_at (pre @ str_enc a) [])"
    "DecStr (dec_at pre (str_enc a)) = (a, dec_at (pre @ str_enc a) [])"
  using DecBytes_at [OF assms, of pre r] DecBytes_at [OF assms, of pre "[]"]
  by (simp_all add: str_enc_def DecStr_def)

lemma Dec_last_at [codec]:
  "DecU8 (dec_at pre [b]) = (b, dec_at (pre @ [b]) [])"
  "DecU32 (dec_at pre (be_bytes 4 c)) = (c, dec_at (pre @ be_bytes 4 c) [])"
  "DecU64 (dec_at pre (be_bytes 8 q)) = (q, dec_at (pre @ be_bytes 8 q) [])"
  using Dec_at [of pre _ "[]"] by simp_all

lemma serveConn_one:
  assumes "\<not> closing m" and "frame_ok (op # args)" and "op \<noteq> OpReplicate"
    and "handle rt now op (NewDec args) (m, NewWriter []) = Some (Inr (), (m', sent (NewWriter []) ps))"
  shows "serveConn rt now EOF (frame (op # args)) (m, NewWriter []) = Some (Closed, (m', sent (NewWriter []) ps))"
proof -
  have "ReadFrame EOF (frame (op # args)) = (Inr (op # args), [])"
    using ReadFrame_frame [OF assms(2), of EOF "[]"] by simp
  moreover have "serveConn rt now EOF [] (m', w) = Some (Closed, (m', w))" for w
    by (subst serveConn.simps) (simp add: ReadFrame_def ReadFull_def)
  ultimately show ?thesis
    using assms by (subst serveConn.simps) (simp add: NewWriter_def)
qed

lemma roundTrip_connection:
  assumes "net addr = Inr (connection rt now peer m)" and "\<not> closing m" and "frame_ok (op # args)"
    and "op \<noteq> OpReplicate" and "frame_ok p" and "p \<noteq> []" and "hd p \<noteq> StatusError"
    and "handle rt now op (NewDec args) (m, NewWriter []) = Some (Inr (), (m', sent (NewWriter []) [p]))"
  shows "roundTrip net addr (op # args) = Inr p"
proof -
  have "answers rt now peer m (frame (op # args)) = frame p"
    using serveConn_one [OF assms(2-4,8)] by (simp add: answers_def sent_def NewWriter_def)
  moreover have "ReadFrame EOF (frame p) = (Inr p, [])"
    using ReadFrame_frame [OF assms(5), of EOF "[]"] by simp
  moreover have "andThen (WriteFrame (op # args) (NewWriter [])) (\<lambda>_ w. Flush w) = (Inr (), sent (NewWriter []) [op # args])"
    using assms(3) by (simp add: NewWriter_def)
  ultimately show ?thesis
    using assms(1,6,7) by (simp add: roundTrip_def connection_def sent_def NewWriter_def)
qed

section \<open>Writes and the live streams\<close>

text \<open>The three ways a client can write.\<close>

datatype mutation = WPut bytes bytes | WDelete bytes | WBatch "(bytes \<times> bytes) list"

fun perform :: "u64 \<Rightarrow> mutation \<Rightarrow> store \<Rightarrow> (store, unit) res" where
  "perform now (WPut k v) = Put now k v"
| "perform now (WDelete k) = Delete now k"
| "perform now (WBatch prs) = BatchPut now (map fst prs) (map snd prs)"

fun write_ok :: "mutation \<Rightarrow> bool" where
  "write_ok (WPut k v) \<longleftrightarrow> valid_kv k v"
| "write_ok (WDelete k) \<longleftrightarrow> validateKey k = None"
| "write_ok (WBatch prs) \<longleftrightarrow> prs \<noteq> [] \<and> list_all (\<lambda>(k, v). valid_kv k v) prs \<and> sum_list (map kv_size prs) < 2 ^ 32"

definition ships :: "krecord list \<Rightarrow> store \<Rightarrow> store \<Rightarrow> bool" where
  "ships rs s s' \<longleftrightarrow> list_all wf_rec rs \<and> length (encode_all rs) < 2 ^ 32 \<and>
     view s' = foldl (newest fst) (view s) (map rec_view rs) \<and>
     outbox s' = outbox s @ map (\<lambda>i. (i, rseq (last rs), encode_all rs)) (obs s)"

lemma appendLocked_ships:
  assumes "store_ok s" and "recs \<noteq> []" "list_all wf_rec recs" "length (encode_all recs) < 2 ^ 32"
    and "appendLocked recs s = (Inr (), s')"
  shows "\<exists>rs. ships rs s s'"
proof -
  obtain rs n where a: "assign_seqs (seq s) recs = (rs, n)" by fastforce
  have inv: "store_inv (s\<lparr>seq := n\<rparr>)" using assms(1) by (simp add: store_ok_def store_inv_def)
  have "wrote rs (Inr (), s') (s\<lparr>seq := n\<rparr>)"
    using writeLocked_ok [OF inv, of rs] assign_seqs_wf [OF a] assms(2-5) a by (simp add: appendLocked_def)
  then have "ships rs s s'"
    using assign_seqs_wf [OF a] assms(2-4) by (simp add: wrote_def ships_def)
  then show ?thesis ..
qed

lemma ships_counters [simp]:
  "ships rs s (t\<lparr>nPut := a\<rparr>) = ships rs s t" "ships rs s (t\<lparr>nDel := b\<rparr>) = ships rs s t"
  by (simp_all add: ships_def)

lemma perform_ships:
  assumes "store_ok s" and "write_ok a" and "perform now a s = (Inr (), s')"
  shows "\<exists>rs. ships rs s s'"
proof (cases a)
  case (WPut k v)
  let ?r = "\<lparr> ts = now, rseq = 0, flags = 0, key = k, val = v \<rparr>"
  have wf: "wf_rec ?r" using assms(2) WPut valid_kv_wf [of ?r] by simp
  obtain r t where t: "appendLocked [?r] s = (r, t)" by fastforce
  with assms WPut have "r = Inr ()" "s' = t\<lparr>nPut := nPut t + 1\<rparr>"
    by (cases r; auto simp: Put_def split: option.splits if_splits)+
  then show ?thesis
    using appendLocked_ships [OF assms(1), of "[?r]" t] wf wf_rec_single [OF wf] t by simp
next
  case (WDelete k)
  let ?r = "\<lparr> ts = now, rseq = 0, flags = flagTombstone, key = k, val = [] \<rparr>"
  have wf: "wf_rec ?r" using assms(2) WDelete valid_kv_wf [of ?r] by (simp add: valid_kv_def)
  obtain r t where t: "appendLocked [?r] s = (r, t)" by fastforce
  with assms WDelete have "r = Inr ()" "s' = t\<lparr>nDel := nDel t + 1\<rparr>"
    by (cases r; auto simp: Delete_def split: option.splits if_splits)+
  then show ?thesis
    using appendLocked_ships [OF assms(1), of "[?r]" t] wf wf_rec_single [OF wf] t by simp
next
  case (WBatch prs)
  let ?rs = "batch_recs now prs"
  have z: "zip (map fst prs) (map snd prs) = prs" by (rule zip_map_fst_snd)
  have wf: "list_all wf_rec ?rs" "?rs \<noteq> []" "length (encode_all ?rs) < 2 ^ 32"
    using assms(2) WBatch batch_recs_facts(1) [of now prs] by (auto simp: batch_recs_facts(2,3))
  obtain r t where t: "appendLocked ?rs s = (r, t)" by fastforce
  with assms WBatch have "r = Inr ()" "s' = t\<lparr>nPut := nPut t + of_nat (length prs)\<rparr>"
    by (cases r; auto simp: BatchPut_def z split: option.splits if_splits)+
  then show ?thesis using appendLocked_ships [OF assms(1) wf(2,1,3), of t] t by simp
qed

text \<open>
  C8. Every accepted write reaches the live followers: when a leader's store has accepted a put, a
  delete or a batch, one message has been offered to every attached stream, and a follower that
  holds what the leader held before has, once it has applied that message, exactly what the leader
  holds now, deletions and sequence numbers included; the only other outcome is an I/O error on the
  follower, which leaves it unchanged.
\<close>

theorem write_reaches_followers:
  assumes "store_ok (kv n)" and "write_ok a" and "obs (kv n) = [observer n]" and "outbox (kv n) = []"
    and "on_store (perform now a) n = (Inr (), n')"
  shows "\<exists>raw. streams n' = map (apsnd (offer raw)) (streams n) \<and>
    (\<forall>t r t'. store_ok t \<longrightarrow> \<not> closed t \<longrightarrow> view t = view (kv n) \<longrightarrow> ApplyRaw raw t = (r, t') \<longrightarrow>
      store_ok t' \<and> (case r of Inr _ \<Rightarrow> view t' = view (kv n') | Inl er \<Rightarrow> er = ErrIO \<and> view t' = view t))"
proof -
  obtain s' where s': "perform now a (kv n) = (Inr (), s')" "n' = notified (n\<lparr>kv := s'\<rparr>)"
    using assms(5) by (auto simp: on_store_def split: prod.splits)
  obtain rs where rs: "ships rs (kv n) s'" using perform_ships [OF assms(1,2) s'(1)] by blast
  then have "streams n' = map (apsnd (offer (encode_all rs))) (streams n)"
    using s'(2) assms(3,4) by (simp add: ships_def notified_def fanout_def)
  moreover have "view (kv n') = view s'" using s'(2) by (simp add: notified_keeps)
  moreover have "applied rs t (ApplyRaw (encode_all rs) t)" if "store_ok t" "\<not> closed t" for t
    using ApplyRaw_records [OF that] rs by (simp add: ships_def)
  ultimately show ?thesis
    using rs by (intro exI [of _ "encode_all rs"]) (fastforce simp: applied_def ships_def split: sum.splits)
qed

section \<open>Requests of clients\<close>

text \<open>The texts the runtime gives for errors fit into a frame.\<close>

definition short_texts :: "runtime \<Rightarrow> bool" where
  "short_texts rt \<longleftrightarrow> (\<forall>er. length (errText rt er) < 2 ^ 20)"

lemma writeError_ok:
  "short_texts rt \<Longrightarrow> wfaults w = [] \<Longrightarrow>
    writeError (errText rt) er w = (Inr (), sent w [StatusError # str_enc (errText rt er)])"
  by (auto simp: writeError_def codec NewEnc_def short_texts_def MaxFrameSize_def intro: less_imp_le
      dest: spec [of _ er])

definition keeps_map :: "node \<Rightarrow> node \<Rightarrow> bool" where
  "keeps_map n n' \<longleftrightarrow> store_ok (kv n') \<and> contents (kv n') = contents (kv n)"

lemma keeps_refl: "store_ok (kv n) \<Longrightarrow> keeps_map n n"
  by (simp add: keeps_map_def)

lemma reply_same: "reply n r = Some (x, (n', w')) \<Longrightarrow> n' = n"
  by (auto simp: reply_def split: prod.splits)

lemma Get_keeps:
  assumes "store_ok s"
  shows "store_ok (snd (Get k s)) \<and> contents (snd (Get k s)) = contents s"
proof (cases "validateKey k")
  case None
  then show ?thesis using Get_value [OF assms] by blast
next
  case (Some er)
  then have "Get k s = (Inl er, s) \<or> Get k s = (Inl er, s\<lparr>nGet := nGet s + 1\<rparr>)" by (simp add: Get_with_def)
  then show ?thesis using assms by auto
qed

lemma handleGet_keeps:
  assumes "store_ok (kv n)" and "handleGet rt d (n, w) = Some (r, (n', w'))"
  shows "keeps_map n n'"
proof -
  obtain k d1 where d1: "DecBytes d = (k, d1)" by fastforce
  obtain x s' where g: "Get k (kv n) = (x, s')" by fastforce
  have "n' = n \<or> n' = notified (n\<lparr>kv := s'\<rparr>)"
    using assms(2) d1 g reply_same
    by (auto simp: handleGet_def on_store_def split: option.splits sum.splits if_splits dest!: reply_same)
  then show ?thesis
    using Get_keeps [OF assms(1), of k] assms(1) g by (auto simp: keeps_map_def notified_keeps)
qed

lemma served_after:
  assumes "served fn xs a (s, f) res"
  obtains x t f' where "res = (x, (t, f'))" and "after_read s t"
proof -
  obtain ws t where t: "after_read s t" "res = (case feed fn ws f of
      (Some er, f') \<Rightarrow> (Inl er, (t, f')) | (None, f') \<Rightarrow> (if ws = xs then Inr a else Inl ErrIO, (t, f')))"
    using assms by (auto simp: served_def)
  obtain y f' where "feed fn ws f = (y, f')" by fastforce
  then show ?thesis using that t by (cases y) auto
qed

lemma serveRange_keeps:
  assumes "store_ok (kv n)" and "serveRange rt start endk limit (n, w) = Some (r, (n', w'))"
  shows "keeps_map n n'"
proof -
  let ?l = "if limit \<le> 0 \<or> limit > cMaxRange (cfg n) then cMaxRange (cfg n) else limit"
  let ?f = "(NewEnc StatusRangeChunk, 0, None, w)"
  obtain xs res where res: "Scan start endk ?l range_visitor (kv n, ?f) = Some res"
    "served range_visitor (lim ?l 0 xs) () ((kv n)\<lparr>nScan := nScan (kv n) + 1\<rparr>, ?f) res"
    by (rule Scan_serves [OF assms(1)])
  obtain x t f' where t: "res = (x, (t, f'))" "after_read ((kv n)\<lparr>nScan := nScan (kv n) + 1\<rparr>) t"
    by (rule served_after [OF res(2)])
  obtain chunk np se w1 where f': "f' = (chunk, np, se, w1)" by (metis prod.exhaust)
  have "n' = n\<lparr>kv := t\<rparr>"
    using assms(2) res(1) unfolding t(1) f'
    by (cases se; cases x) (auto simp: serveRange_def Let_def dest!: reply_same)
  then show ?thesis using after_read_ok [OF t(2)] assms(1) by (simp add: keeps_map_def)
qed

lemma leader_only_follower:
  assumes "role n = Follower" and "leader_only act (n, w) = Some (r, (n', w'))"
  shows "n' = n"
proof -
  obtain x w1 where "redirectIfNotLeader n w = (x, w1)" by fastforce
  moreover have "x = Inr False \<Longrightarrow> False"
    using calculation assms(1) by (auto simp: redirectIfNotLeader_def elim!: andThen.elims)
  ultimately show ?thesis using assms(2) by (cases x) (auto simp: leader_only_def split: if_splits)
qed

lemma follower_write_same:
  assumes "role n = Follower"
    and "handlePut rt now d (n, w) = Some (r, (n', w')) \<or> handleDelete rt now d (n, w) = Some (r, (n', w')) \<or>
      handleBatchPut rt now d (n, w) = Some (r, (n', w'))"
  shows "n' = n"
  using assms(2)
  by (auto simp: handlePut_def handleDelete_def handleBatchPut_def Let_def
      split: if_splits prod.splits option.splits sum.splits dest!: reply_same leader_only_follower [OF assms(1)])

lemma store_parts:
  "kv (closeAllStreams n) = kv n" "kv (Promote now n) = kv n"
  by (simp_all add: closeAllStreams_def Promote_def promoteTo_def Let_def)

lemma handleAnnounce_kv: "handleAnnounce msg now d (n, w) = (r, (n', w')) \<Longrightarrow> kv n' = kv n"
  by (auto simp: handleAnnounce_def Let_def store_parts split: prod.splits option.splits if_splits)

text \<open>The requests that neither read nor write the map: at most the compaction flag changes.\<close>

lemma handle_other:
  assumes "handle rt now op d (n, w) = Some (r, (n', w'))"
    and "op \<notin> {OpGet, OpRange, OpAnnounce, OpPromote, OpPut, OpDelete, OpBatchPut}"
  shows "n' = n \<or> n' = n\<lparr>kv := (kv n)\<lparr>compacting := True\<rparr>\<rparr>"
proof (cases "op = OpCompact")
  case True
  then show ?thesis
    using assms(1) by (auto simp: handle_def ops StartCompaction_def Let_def split: if_splits option.splits dest!: reply_same)
next
  case False
  then have "n' = n" using assms by (auto simp: handle_def split: if_splits option.splits dest!: reply_same)
  then show ?thesis ..
qed

lemma compacting_flag [simp]: "store_ok (s\<lparr>compacting := b\<rparr>) = store_ok s"
  by (simp add: store_ok_def store_inv_def seq_ok_def)

text \<open>
  C21. A follower's map changes through replication only: whatever request reaches a follower, with
  whatever body, its map and the store invariant are the same after it.
\<close>

theorem follower_keeps_map:
  assumes "role n = Follower" and "store_ok (kv n)" and "handle rt now op d (n, w) = Some (r, (n', w'))"
  shows "store_ok (kv n') \<and> contents (kv n') = contents (kv n)"
proof -
  note h = assms(3) [unfolded handle_def prod.case]
  consider "op = OpGet" | "op = OpRange" | "op = OpAnnounce" | "op = OpPromote" | "op = OpPut" | "op = OpDelete"
    | "op = OpBatchPut" | "op \<notin> {OpGet, OpRange, OpAnnounce, OpPromote, OpPut, OpDelete, OpBatchPut}" by blast
  then have "keeps_map n n'"
  proof cases
    case 1
    then show ?thesis using h handleGet_keeps [OF assms(2)] by (simp add: ops)
  next
    case 2
    then have "handleRange rt d (n, w) = Some (r, (n', w'))" using h by (simp add: ops)
    then show ?thesis using serveRange_keeps [OF assms(2)] keeps_refl [OF assms(2)]
      by (auto simp: handleRange_def Let_def split: prod.splits option.splits dest!: reply_same)
  next
    case 3
    then have "handleAnnounce (errText rt) now d (n, w) = (r, (n', w'))" using h by (simp add: ops)
    then show ?thesis using handleAnnounce_kv assms(2) by (fastforce simp: keeps_map_def)
  next
    case 4
    then show ?thesis using h assms(2)
      by (auto simp: ops keeps_map_def store_parts split: option.splits dest!: reply_same)
  next
    case 5
    then have "handlePut rt now d (n, w) = Some (r, (n', w'))" using h by (simp add: ops)
    then have "n' = n" using follower_write_same [OF assms(1)] by blast
    then show ?thesis using keeps_refl [OF assms(2)] by simp
  next
    case 6
    then have "handleDelete rt now d (n, w) = Some (r, (n', w'))" using h by (simp add: ops)
    then have "n' = n" using follower_write_same [OF assms(1)] by blast
    then show ?thesis using keeps_refl [OF assms(2)] by simp
  next
    case 7
    then have "handleBatchPut rt now d (n, w) = Some (r, (n', w'))" using h by (simp add: ops)
    then have "n' = n" using follower_write_same [OF assms(1)] by blast
    then show ?thesis using keeps_refl [OF assms(2)] by simp
  next
    case 8
    from handle_other [OF assms(3) this] show ?thesis using assms(2) by (auto simp: keeps_map_def)
  qed
  then show ?thesis by (simp add: keeps_map_def)
qed

section \<open>Write requests\<close>

definition pairs_enc :: "(bytes \<times> bytes) list \<Rightarrow> bytes" where
  "pairs_enc prs = concat (map (\<lambda>(k, v). str_enc k @ str_enc v) prs)"

lemma pairs_enc_simps [simp]:
  "pairs_enc [] = []" "pairs_enc ((k, v) # prs) = str_enc k @ str_enc v @ pairs_enc prs"
  "pairs_enc (xs @ ys) = pairs_enc xs @ pairs_enc ys"
  by (simp_all add: pairs_enc_def)

text \<open>The request a client sends for a write, and its effect on a map.\<close>

fun mutation_op :: "mutation \<Rightarrow> byte" where
  "mutation_op (WPut k v) = OpPut"
| "mutation_op (WDelete k) = OpDelete"
| "mutation_op (WBatch prs) = OpBatchPut"

fun mutation_body :: "mutation \<Rightarrow> bytes" where
  "mutation_body (WPut k v) = str_enc k @ str_enc v"
| "mutation_body (WDelete k) = str_enc k"
| "mutation_body (WBatch prs) = be_bytes 4 (of_nat (length prs) :: u32) @ pairs_enc prs"

fun mutated :: "mutation \<Rightarrow> (bytes \<Rightarrow> bytes option) \<Rightarrow> (bytes \<Rightarrow> bytes option)" where
  "mutated (WPut k v) c = c(k \<mapsto> v)"
| "mutated (WDelete k) c = c(k := None)"
| "mutated (WBatch prs) c = foldl (\<lambda>c (k, v). c(k \<mapsto> v)) c prs"

lemma valid_kv_lengths: "valid_kv k v \<Longrightarrow> length k < 2 ^ 32 \<and> length v < 2 ^ 32"
  by (auto simp: valid_kv_def validateKey_def record_consts split: if_splits)

lemma DecErr_at [codec]: "DecErr (dec_at pre r) = None"
  by (simp add: DecErr_def dec_at_def)

lemma DecRemaining_at [codec]: "DecRemaining (dec_at pre r) = length r"
  by (simp add: DecRemaining_def dec_at_def)

lemma batch_loop_pairs:
  assumes "list_all (\<lambda>(k, v). valid_kv k v) prs"
  shows "batch_loop (length prs) (dec_at pre (pairs_enc prs)) ks vs =
    (Inr (ks @ map fst prs, vs @ map snd prs), dec_at (pre @ pairs_enc prs) [])"
  using assms
proof (induction prs arbitrary: pre ks vs)
  case (Cons kv prs)
  obtain k v where kv: "kv = (k, v)" by fastforce
  then have "length k < 2 ^ 32" "length v < 2 ^ 32" using Cons.prems valid_kv_lengths by auto
  then show ?case using Cons kv by (simp add: codec)
qed simp

lemma pairs_enc_length: "8 * length prs \<le> length (pairs_enc prs)"
  by (induction prs) auto

lemma kv_size_length: "length prs \<le> sum_list (map kv_size prs)"
  by (induction prs) (auto simp: kv_size_def recordHeaderSize_def)

text \<open>What the handler of a write does once the body is decoded.\<close>

definition write_reply :: "runtime \<Rightarrow> int \<Rightarrow> mutation \<Rightarrow> node \<times> writer \<Rightarrow> served" where
  "write_reply rt now a = (\<lambda>(n, w).
     (case on_store (perform (of_int now) a) n of
        (Inl er, n) \<Rightarrow>
          if er = ErrKeyNotFound \<and> mutation_op a = OpDelete then reply n (writeStatus StatusNotFound w)
          else reply n (writeError (errText rt) er w)
      | (Inr _, n) \<Rightarrow> reply n (writeStatus StatusOK w)))"

lemma handle_write:
  assumes "write_ok a"
  shows "handle rt now (mutation_op a) (NewDec (mutation_body a)) (n, w) = leader_only (write_reply rt now a) (n, w)"
proof (cases a)
  case (WPut k v)
  then have "length k < 2 ^ 32" "length v < 2 ^ 32" using assms valid_kv_lengths by auto
  then show ?thesis
    using WPut by (simp add: handle_def ops handlePut_def NewDec_at codec write_reply_def split_def cong: sum.case_cong)
next
  case (WDelete k)
  then have "length k < 2 ^ 32" using assms valid_kv_lengths [of k "[]"] by (auto simp: valid_kv_def)
  then show ?thesis
    using WDelete by (simp add: handle_def ops handleDelete_def NewDec_at codec write_reply_def split_def cong: sum.case_cong)
next
  case (WBatch prs)
  have len: "unat (of_nat (length prs) :: u32) = length prs"
    using assms WBatch kv_size_length [of prs] by (simp add: unat_of_nat)
  have le: "\<not> length (pairs_enc prs) div 8 < length prs" using pairs_enc_length [of prs] by linarith
  have "batch_loop (length prs) (dec_at (be_bytes 4 (of_nat (length prs) :: u32)) (pairs_enc prs)) [] [] =
      (Inr (map fst prs, map snd prs), dec_at (be_bytes 4 (of_nat (length prs) :: u32) @ pairs_enc prs) [])"
    using batch_loop_pairs [of prs "be_bytes 4 (of_nat (length prs) :: u32)" "[]" "[]"] assms WBatch by simp
  then show ?thesis
    using WBatch len le
    by (simp add: handle_def ops handleBatchPut_def NewDec_at codec write_reply_def split_def Let_def cong: sum.case_cong)
qed

lemma appendLocked_error: "appendLocked recs s = (Inl er, s') \<Longrightarrow> er = ErrIO \<or> er = Panic"
  by (auto simp: appendLocked_def split: prod.splits dest: writeLocked_error)

lemma Delete_present:
  assumes "store_ok s" and "\<not> closed s" and "validateKey k = None" and "contents s k \<noteq> None"
  shows "Delete now k s = andThen (appendLocked [\<lparr> ts = now, rseq = 0, flags = flagTombstone, key = k, val = [] \<rparr>] s)
    (\<lambda>_ s. (Inr (), s\<lparr>nDel := nDel s + 1\<rparr>))"
proof -
  have "index_ok (ix s) (logs s)" using assms(1) by (simp add: store_ok_def store_inv_def)
  then have "\<not> (case idx_lookup (ix s) k of None \<Rightarrow> True | Some e \<Rightarrow> tomb e)"
    using assms(4) contents_lookup [of s k] by (auto split: option.splits)
  then show ?thesis using assms(2,3) by (simp add: Delete_def)
qed

lemma perform_refines:
  assumes "store_ok s" and "\<not> closed s" and "write_ok a" and "unat (seq s) + 2 ^ 32 < 2 ^ 64"
  shows "outcome (mutated a (contents s)) s (perform now a s) \<and>
    (fst (perform now a s) = Inl ErrKeyNotFound \<longrightarrow> mutation_op a = OpDelete \<longrightarrow> mutated a (contents s) = contents s)"
proof (cases a)
  case (WPut k v)
  then show ?thesis using Put_outcome [OF assms(1,2)] assms(3,4) by (simp add: ops)
next
  case (WDelete k)
  then have k: "validateKey k = None" "unat (seq s) + 1 < 2 ^ 64" using assms(3,4) by simp_all
  note d = Delete_outcome [OF assms(1,2) k, of now]
  show ?thesis
  proof (cases "contents s k = None")
    case True
    then have "Delete now k s = (Inl ErrKeyNotFound, s)" "(contents s)(k := None) = contents s" using d by auto
    then show ?thesis using WDelete assms(1) by (simp add: outcome_def)
  next
    case False
    have "Delete now k s \<noteq> (Inl ErrKeyNotFound, t)" for t
      using Delete_present [OF assms(1,2) k(1) False] appendLocked_error by (fastforce elim!: andThen.elims)
    then show ?thesis using WDelete d False by (cases "Delete now k s") auto
  qed
next
  case (WBatch prs)
  have "length prs < 2 ^ 32" using assms(3) WBatch kv_size_length [of prs] by simp
  then show ?thesis
    using BatchPut_outcome [OF assms(1,2), of "map fst prs" "map snd prs" now] assms(3,4) WBatch
    by (simp add: zip_map_fst_snd ops)
qed

lemma mutated_idem [simp]: "mutated a (mutated a c) = mutated a c"
proof (cases a)
  case (WBatch prs)
  have last: "foldl (\<lambda>c (k, v). c(k \<mapsto> v)) c xs j = (case map_of (rev xs) j of Some v \<Rightarrow> Some v | None \<Rightarrow> c j)" for c j
    and xs :: "(bytes \<times> bytes) list"
    by (induction xs arbitrary: c) (auto simp: map_add_def split: option.splits)
  show ?thesis using WBatch by (auto simp: last fun_eq_iff split: option.splits)
qed simp_all

text \<open>
  What the server and, through it, the client rely on: a write that succeeds is a map update, one
  that fails changes nothing, and a deletion fails with \<open>ErrKeyNotFound\<close> only if there is nothing to
  delete. \<open>room\<close> are the requests the store can take in a state.
\<close>

locale kv_store =
  fixes inv :: "'s \<Rightarrow> bool"
    and holds :: "'s \<Rightarrow> bytes \<Rightarrow> bytes option"
    and commit_write :: "mutation \<Rightarrow> 's \<Rightarrow> ('s, unit) res"
    and room :: "mutation \<Rightarrow> 's \<Rightarrow> bool"
  assumes written: "inv s \<Longrightarrow> room a s \<Longrightarrow> commit_write a s = (Inr u, t) \<Longrightarrow> inv t \<and> holds t = mutated a (holds s)"
    and failed: "inv s \<Longrightarrow> room a s \<Longrightarrow> commit_write a s = (Inl er, t) \<Longrightarrow> inv t \<and> holds t = holds s \<and> er \<noteq> Panic"
    and absent: "inv s \<Longrightarrow> room a s \<Longrightarrow> mutation_op a = OpDelete \<Longrightarrow> commit_write a s = (Inl ErrKeyNotFound, t) \<Longrightarrow>
      mutated a (holds s) = holds s"
begin

lemma effect:
  assumes "inv s" and "room a s" and "commit_write a s = (r, t)"
  shows "inv t \<and> (holds t = holds s \<or> holds t = mutated a (holds s))"
  using written [OF assms(1,2)] failed [OF assms(1,2)] assms(3) by (cases r) auto

lemma retried:
  assumes "inv s" and "room a s" and "commit_write a s = (Inr (), t)" and "room a t" and "commit_write a t = (r, u)"
  shows "inv u \<and> holds u = mutated a (holds s)"
  using written [OF assms(1-3)] effect [of t a r u] assms(4,5) by auto

end

interpretation kvs: kv_store store_ok contents "perform now" "\<lambda>a s. \<not> closed s \<and> write_ok a \<and> unat (seq s) + 2 ^ 32 < 2 ^ 64" for now
proof unfold_locales
  fix s :: store and a :: mutation and u :: unit and er :: error and t :: store
  assume s: "store_ok s" "\<not> closed s \<and> write_ok a \<and> unat (seq s) + 2 ^ 32 < 2 ^ 64"
  have ok: "outcome (mutated a (contents s)) s (perform now a s) \<and>
      (fst (perform now a s) = Inl ErrKeyNotFound \<longrightarrow> mutation_op a = OpDelete \<longrightarrow> mutated a (contents s) = contents s)"
    by (rule perform_refines) (use s in simp_all)
  show "store_ok t \<and> contents t = mutated a (contents s)" if "perform now a s = (Inr u, t)"
    using ok that by (simp add: outcome_def)
  show "store_ok t \<and> contents t = contents s \<and> er \<noteq> Panic" if "perform now a s = (Inl er, t)"
    using ok that by (simp add: outcome_def)
  show "mutated a (contents s) = contents s" if "mutation_op a = OpDelete" "perform now a s = (Inl ErrKeyNotFound, t)"
    using ok that by simp
qed

lemma write_answered:
  assumes "store_ok (kv n)" and "\<not> closed (kv n)" and "write_ok a" and "unat (seq (kv n)) + 2 ^ 32 < 2 ^ 64"
    and "wfaults w = []" and "short_texts rt" and "length (leaderAddr n) < 2 ^ 20"
  shows "\<exists>p n'. handle rt now (mutation_op a) (NewDec (mutation_body a)) (n, w) = Some (Inr (), (n', sent w [p])) \<and> p \<noteq> [] \<and> frame_ok p \<and>
    (case role n of
       Follower \<Rightarrow> p = StatusRedirect # str_enc (leaderAddr n) \<and> n' = n
     | Leader \<Rightarrow> n' = notified (n\<lparr>kv := snd (perform (of_int now) a (kv n))\<rparr>) \<and> store_ok (kv n') \<and>
         (p = [StatusOK] \<and> contents (kv n') = mutated a (contents (kv n)) \<or>
          p = [StatusNotFound] \<and> contents (kv n') = contents (kv n) \<and> mutated a (contents (kv n)) = contents (kv n) \<or>
          hd p = StatusError \<and> contents (kv n') = contents (kv n)))"
proof (cases "role n")
  case Follower
  let ?p = "StatusRedirect # str_enc (leaderAddr n)"
  have "frame_ok ?p" using assms(7) by (simp add: MaxFrameSize_def)
  then have "redirectIfNotLeader n w = (Inr True, sent w [?p])"
    using Follower assms(5) by (simp add: redirectIfNotLeader_def codec NewEnc_def)
  then show ?thesis using Follower \<open>frame_ok ?p\<close> by (simp add: handle_write [OF assms(3)] leader_only_def)
next
  case Leader
  obtain r s' where r: "perform (of_int now) a (kv n) = (r, s')" by fastforce
  let ?n = "notified (n\<lparr>kv := s'\<rparr>)"
  have room: "\<not> closed (kv n) \<and> write_ok a \<and> unat (seq (kv n)) + 2 ^ 32 < 2 ^ 64" using assms(2-4) by simp
  have h: "handle rt now (mutation_op a) (NewDec (mutation_body a)) (n, w) = write_reply rt now a (n, w)"
    using Leader by (simp add: handle_write [OF assms(3)] leader_only_def redirectIfNotLeader_def)
  show ?thesis
  proof (cases r)
    case (Inr u)
    note ok = kvs.written [OF assms(1) room r [unfolded Inr]]
    show ?thesis
      using Leader Inr r ok assms(5) by (intro exI [of _ "[StatusOK]"] exI [of _ ?n])
        (simp add: h write_reply_def on_store_def reply_def writeStatus_def notified_keeps MaxFrameSize_def)
  next
    case (Inl er)
    let ?p = "if er = ErrKeyNotFound \<and> mutation_op a = OpDelete then [StatusNotFound]
      else StatusError # str_enc (errText rt er)"
    note ok = kvs.failed [OF assms(1) room r [unfolded Inl]] kvs.absent [OF assms(1) room, of "of_int now" s']
    have "frame_ok ?p" using assms(6) by (auto simp: short_texts_def MaxFrameSize_def intro: less_imp_le dest: spec [of _ er])
    then show ?thesis
      using Leader Inl r ok assms(5) writeError_ok [OF assms(6,5)] by (intro exI [of _ ?p] exI [of _ ?n])
        (simp add: h write_reply_def on_store_def reply_def writeStatus_def notified_keeps)
  qed
qed

text \<open>
  C20. A write request is answered truthfully: for every well-formed PUT, DELETE or BATCHPUT, a
  follower answers with the address of the leader it knows and does nothing else; a leader answers
  OK exactly when its map has become the updated one, NOT FOUND when the key to delete is not there,
  and an error when its map is unchanged.
\<close>

theorem write_request_answered:
  assumes "store_ok (kv n)" and "\<not> closed (kv n)" and "write_ok a" and "unat (seq (kv n)) + 2 ^ 32 < 2 ^ 64"
    and "wfaults w = []" and "short_texts rt" and "length (leaderAddr n) < 2 ^ 20"
  shows "\<exists>p n'. handle rt now (mutation_op a) (NewDec (mutation_body a)) (n, w) = Some (Inr (), (n', sent w [p])) \<and>
    (case role n of
       Follower \<Rightarrow> p = StatusRedirect # str_enc (leaderAddr n) \<and> n' = n
     | Leader \<Rightarrow> store_ok (kv n') \<and>
         (p = [StatusOK] \<and> contents (kv n') = mutated a (contents (kv n)) \<or>
          p = [StatusNotFound] \<and> contents (kv n') = contents (kv n) \<and> mutated a (contents (kv n)) = contents (kv n) \<or>
          hd p = StatusError \<and> contents (kv n') = contents (kv n)))"
proof -
  obtain p n' where "handle rt now (mutation_op a) (NewDec (mutation_body a)) (n, w) = Some (Inr (), (n', sent w [p]))"
    "case role n of
       Follower \<Rightarrow> p = StatusRedirect # str_enc (leaderAddr n) \<and> n' = n
     | Leader \<Rightarrow> n' = notified (n\<lparr>kv := snd (perform (of_int now) a (kv n))\<rparr>) \<and> store_ok (kv n') \<and>
         (p = [StatusOK] \<and> contents (kv n') = mutated a (contents (kv n)) \<or>
          p = [StatusNotFound] \<and> contents (kv n') = contents (kv n) \<and> mutated a (contents (kv n)) = contents (kv n) \<or>
          hd p = StatusError \<and> contents (kv n') = contents (kv n))"
    using write_answered [OF assms] by blast
  then show ?thesis by (intro exI [of _ p] exI [of _ n'] conjI) (auto split: Role.splits)
qed

section \<open>Range requests\<close>

text \<open>
  The reply to a range request: the pairs in groups, one chunk frame per group, and a final frame
  with their number.
\<close>

definition range_frames :: "(bytes \<times> bytes) list list \<Rightarrow> bytes list" where
  "range_frames gs = map (\<lambda>g. StatusRangeChunk # pairs_enc g) gs @
     [StatusRangeEnd # be_bytes 8 (of_nat (length (concat gs)) :: u64)]"

lemma feed_range:
  assumes "wfaults w = []" and "list_all (\<lambda>(k, v). valid_kv k v) xs" and "length (pairs_enc g) + 1 < rangeChunkBytes"
  shows "\<exists>gs g'. feed range_visitor xs (StatusRangeChunk # pairs_enc g, c, None, w) =
      (None, (StatusRangeChunk # pairs_enc g', c + of_nat (length xs), None,
        sent w (map (\<lambda>g. StatusRangeChunk # pairs_enc g) gs))) \<and>
    concat gs @ g' = g @ xs \<and> length (pairs_enc g') + 1 < rangeChunkBytes \<and>
    list_all (\<lambda>g. frame_ok (StatusRangeChunk # pairs_enc g)) gs"
  using assms
proof (induction xs arbitrary: g c w)
  case Nil
  then show ?case by (intro exI [of _ "[]"] exI [of _ g]) simp
next
  case (Cons kv xs)
  obtain k v where kv: "kv = (k, v)" by fastforce
  let ?g = "g @ [kv]" and ?chunk = "StatusRangeChunk # pairs_enc (g @ [kv])"
  have v: "length k \<le> MaxKeySize" "length v \<le> MaxValueSize" "list_all (\<lambda>(k, v). valid_kv k v) xs"
    using Cons.prems(2) kv by (auto simp: valid_kv_def validateKey_None)
  have enc: "EncBytes v (EncBytes k (StatusRangeChunk # pairs_enc g)) = ?chunk" by (simp add: codec kv)
  have fr: "frame_ok ?chunk"
    using v Cons.prems(3) kv by (simp add: rangeChunkBytes_def record_consts MaxFrameSize_def)
  show ?case
  proof (cases "length ?chunk \<ge> rangeChunkBytes")
    case False
    then have "range_visitor k v (StatusRangeChunk # pairs_enc g, c, None, w) = (None, (?chunk, c + 1, None, w))"
      by (simp add: range_visitor_def enc)
    then show ?thesis
      using Cons.IH [OF Cons.prems(1) v(3), of ?g "c + 1"] False kv by (simp add: ac_simps)
  next
    case True
    let ?w = "sent w [?chunk]"
    have "range_visitor k v (StatusRangeChunk # pairs_enc g, c, None, w) =
        (None, ([StatusRangeChunk], c + 1, None, ?w))"
      using True fr Cons.prems(1) by (simp add: range_visitor_def enc NewEnc_def)
    moreover obtain gs g' where "feed range_visitor xs ([StatusRangeChunk], c + 1, None, ?w) =
        (None, (StatusRangeChunk # pairs_enc g', c + 1 + of_nat (length xs), None,
          sent ?w (map (\<lambda>g. StatusRangeChunk # pairs_enc g) gs)))"
      "concat gs @ g' = xs" "length (pairs_enc g') + 1 < rangeChunkBytes" "list_all (\<lambda>g. frame_ok (StatusRangeChunk # pairs_enc g)) gs"
      using Cons.IH [of ?w "[]" "c + 1"] Cons.prems(1) v(3) by (auto simp: rangeChunkBytes_def)
    ultimately show ?thesis
      using kv fr by (intro exI [of _ "?g # gs"] exI [of _ g']) (simp add: ac_simps)
  qed
qed

lemma contents_valid:
  assumes "store_ok s" and "contents s k = Some v"
  shows "valid_kv k v"
proof -
  have ixo: "index_ok (ix s) (logs s)" using assms(1) by (simp add: store_ok_def store_inv_def)
  then obtain e where e: "idx_lookup (ix s) k = Some e" "v = val (rec_of (logs s) e)"
    using assms(2) by (auto simp: contents_lookup split: option.splits if_splits)
  obtain r where "stored (logs s) e r" "rec_of (logs s) e = r" "key r = k" by (rule index_ok_lookup [OF ixo e(1)])
  then show ?thesis using e(2) valid_kv_wf [of r] by (simp add: stored_def)
qed

lemma pairs_enc_empty [simp]: "pairs_enc g = [] \<longleftrightarrow> g = []"
  using pairs_enc_length [of g] by auto

lemma range_reply_end:
  assumes "wfaults w = []" and "length (pairs_enc g) + 1 < rangeChunkBytes"
  shows "andThen (if length (StatusRangeChunk # pairs_enc g) > 1 then WriteFrame (StatusRangeChunk # pairs_enc g) w
      else (Inr (), w)) (\<lambda>_ w. WriteFrame (EncU64 (of_nat (length (concat gs @ g))) (NewEnc StatusRangeEnd)) w) =
    (Inr (), sent w (map (\<lambda>g. StatusRangeChunk # pairs_enc g) (filter (\<lambda>g. g \<noteq> []) [g]) @
      [StatusRangeEnd # be_bytes 8 (of_nat (length (concat gs @ g)) :: u64)]))"
  using assms by (auto simp: codec NewEnc_def MaxFrameSize_def rangeChunkBytes_def)

lemma serveRange_frames:
  fixes limit :: int
  assumes "store_ok (kv n)" and "faults (disk (kv n)) = []" and "wfaults w = []" and "0 < cMaxRange (cfg n)"
  defines "l \<equiv> if limit \<le> 0 \<or> limit > cMaxRange (cfg n) then cMaxRange (cfg n) else limit"
  obtains xs gs n' where "in_range start endk (contents (kv n)) xs" and "concat gs = take (nat l) xs"
    and "serveRange rt start endk limit (n, w) = Some (Inr (), (n', sent w (range_frames gs)))"
    and "list_all frame_ok (range_frames gs)"
proof -
  let ?f = "([StatusRangeChunk], 0, None, w)"
  obtain xs res where xs: "in_range start endk (contents (kv n)) xs"
    "Scan start endk l range_visitor (kv n, ?f) = Some res"
    "served range_visitor (lim l 0 xs) () ((kv n)\<lparr>nScan := nScan (kv n) + 1\<rparr>, ?f) res"
    by (rule Scan_serves [OF assms(1)])
  have lim: "lim l 0 xs = take (nat l) xs" using assms(4) by (auto simp: lim_def l_def)
  have "list_all (\<lambda>(k, v). valid_kv k v) xs"
    using xs(1) contents_valid [OF assms(1)] by (auto simp: in_range_def list_all_iff)
  then have "list_all (\<lambda>(k, v). valid_kv k v) (take (nat l) xs)" by (auto simp: list_all_iff dest: in_set_takeD)
  from feed_range [OF assms(3) this, of "[]" 0] obtain gs g where
    g: "feed range_visitor (take (nat l) xs) ?f = (None, (StatusRangeChunk # pairs_enc g,
        of_nat (length (take (nat l) xs)), None, sent w (map (\<lambda>g. StatusRangeChunk # pairs_enc g) gs)))"
      "concat gs @ g = take (nat l) xs" "length (pairs_enc g) + 1 < rangeChunkBytes"
      "list_all (\<lambda>g. frame_ok (StatusRangeChunk # pairs_enc g)) gs"
    by (auto simp: rangeChunkBytes_def)
  obtain t where res: "res = (Inr (), (t, (StatusRangeChunk # pairs_enc g, of_nat (length (concat gs @ g)), None,
      sent w (map (\<lambda>g. StatusRangeChunk # pairs_enc g) gs))))"
    using xs(3) g(1) assms(2) unfolding lim g(2) by (auto simp: served_def)
  let ?gs = "gs @ filter (\<lambda>g. g \<noteq> []) [g]"
  have cc: "concat (filter (\<lambda>g. g \<noteq> []) [g]) = g" by simp
  have w': "wfaults (sent w (map (\<lambda>g. StatusRangeChunk # pairs_enc g) gs)) = []" using assms(3) by simp
  have "serveRange rt start endk limit (n, w) = Some (Inr (), (n\<lparr>kv := t\<rparr>, sent w (range_frames ?gs)))"
    using xs(2) range_reply_end [OF w' g(3), of gs] unfolding res serveRange_def l_def [symmetric] Let_def prod.case
    by (simp add: NewEnc_def reply_def range_frames_def cc del: filter.simps)
  moreover have "concat ?gs = take (nat l) xs" unfolding concat_append cc g(2) ..
  moreover have "list_all frame_ok (range_frames ?gs)"
    using g(3,4) by (auto simp: range_frames_def list_all_iff MaxFrameSize_def rangeChunkBytes_def)
  ultimately show ?thesis using that [OF xs(1)] by blast
qed

lemma range_answered:
  fixes limit :: u32
  assumes "store_ok (kv n)" and "faults (disk (kv n)) = []" and "wfaults w = []" and "0 < cMaxRange (cfg n)"
    and "length start < 2 ^ 32" and "length endk < 2 ^ 32"
  shows "\<exists>xs gs n'. in_range start endk (contents (kv n)) xs \<and>
    concat gs = take (nat (if limit = 0 \<or> uint limit > cMaxRange (cfg n) then cMaxRange (cfg n) else uint limit)) xs \<and>
    handle rt now OpRange (NewDec (str_enc start @ str_enc endk @ be_bytes 4 limit)) (n, w) =
      Some (Inr (), (n', sent w (range_frames gs))) \<and> list_all frame_ok (range_frames gs) \<and>
    store_ok (kv n') \<and> contents (kv n') = contents (kv n)"
proof -
  let ?l = "int (unat limit)"
  have l: "?l = uint limit" "(uint limit \<le> 0) = (limit = 0)" by (simp_all add: uint_0_iff)
  obtain xs gs n' where x: "in_range start endk (contents (kv n)) xs"
    "concat gs = take (nat (if ?l \<le> 0 \<or> ?l > cMaxRange (cfg n) then cMaxRange (cfg n) else ?l)) xs"
    "serveRange rt start endk ?l (n, w) = Some (Inr (), (n', sent w (range_frames gs)))" "list_all frame_ok (range_frames gs)"
    by (rule serveRange_frames [OF assms(1-4)])
  have "handle rt now OpRange (NewDec (str_enc start @ str_enc endk @ be_bytes 4 limit)) (n, w) =
      Some (Inr (), (n', sent w (range_frames gs)))"
    using x(3) assms(5,6) by (simp add: handle_def ops handleRange_def NewDec_at codec)
  with x serveRange_keeps [OF assms(1) x(3)] show ?thesis unfolding l keeps_map_def by blast
qed

text \<open>
  C22. A range request is answered with the range: on a disk without errors the reply is a sequence
  of chunks and a final frame; the chunks together hold the pairs of the map in the range, each
  once, in key order, cut at the limit (the request's, or the server's cap when the request asks for
  none or for more), and the final frame counts them. No frame is larger than the protocol allows,
  and the map does not change.
\<close>

theorem range_request_answered:
  fixes limit :: u32
  assumes "store_ok (kv n)" and "faults (disk (kv n)) = []" and "wfaults w = []" and "0 < cMaxRange (cfg n)"
    and "length start < 2 ^ 32" and "length endk < 2 ^ 32"
  shows "\<exists>xs gs n'. in_range start endk (contents (kv n)) xs \<and>
    concat gs = take (nat (if limit = 0 \<or> uint limit > cMaxRange (cfg n) then cMaxRange (cfg n) else uint limit)) xs \<and>
    handle rt now OpRange (NewDec (str_enc start @ str_enc endk @ be_bytes 4 limit)) (n, w) =
      Some (Inr (), (n', sent w (range_frames gs))) \<and> list_all frame_ok (range_frames gs) \<and>
    store_ok (kv n') \<and> contents (kv n') = contents (kv n)"
  using assms by (rule range_answered)

section \<open>Concrete requests\<close>

lemma obs_fields [simp]:
  "store_ok (s\<lparr>obs := os\<rparr>) = store_ok s" "calm (s\<lparr>obs := os\<rparr>) = calm s"
  by (simp_all add: store_ok_def store_inv_def seq_ok_def calm_def)

theorem write_reaches_followers_witness:
  "\<exists>n' raw r t'. on_store (perform 5 (WPut [0x61] [0x62])) (node_ex [0x31] 1 (store_ex\<lparr>obs := [1]\<rparr>)) = (Inr (), n') \<and>
    ApplyRaw raw store_ex = (r, t') \<and> store_ok t' \<and>
    (case r of Inr _ \<Rightarrow> view t' = view (kv n') | Inl er \<Rightarrow> er = ErrIO \<and> view t' = view store_ex)"
proof -
  let ?s = "store_ex\<lparr>obs := [1]\<rparr>"
  let ?n = "node_ex [0x31] 1 ?s"
  have ok: "store_ok ?s" "calm ?s" "\<not> closed ?s" "unat (seq ?s) + 1 < 2 ^ 64"
    using store_ex_ok store_ex_calm by simp_all
  obtain s' where s': "Put 5 [0x61] [0x62] ?s = (Inr (), s')"
    using Put_calm [OF ok(1-3) valid_kv_ex(1) ok(4), of 5] by auto
  let ?n' = "notified (?n\<lparr>kv := s'\<rparr>)"
  have on: "on_store (perform 5 (WPut [0x61] [0x62])) ?n = (Inr (), ?n')"
    using s' by (simp add: on_store_def node_ex_def)
  have n: "store_ok (kv ?n)" "write_ok (WPut [0x61] [0x62])" "obs (kv ?n) = [observer ?n]" "outbox (kv ?n) = []"
    "view store_ex = view (kv ?n)"
    using ok(1) valid_kv_ex(1) by (simp_all add: node_ex_def store_ex_def)
  obtain raw where raw: "\<forall>t r t'. store_ok t \<longrightarrow> \<not> closed t \<longrightarrow> view t = view (kv ?n) \<longrightarrow> ApplyRaw raw t = (r, t') \<longrightarrow>
      store_ok t' \<and> (case r of Inr _ \<Rightarrow> view t' = view (kv ?n') | Inl er \<Rightarrow> er = ErrIO \<and> view t' = view t)"
    using write_reaches_followers [OF n(1-4) on] by blast
  obtain r t' where "ApplyRaw raw store_ex = (r, t')" by fastforce
  with raw on store_ex_ok store_ex_calm(2) n(5) show ?thesis by blast
qed

theorem follower_keeps_map_witness:
  "\<exists>r n' w'. handle runtime_ex 5 OpPut (NewDec []) ((node_ex [0x31] 1 store_ex1)\<lparr>role := Follower\<rparr>, NewWriter []) = Some (r, (n', w')) \<and>
    contents (kv n') = [[0x61] \<mapsto> [0x62]]"
proof -
  let ?n = "(node_ex [0x31] 1 store_ex1)\<lparr>role := Follower\<rparr>"
  have n: "role ?n = Follower" "store_ok (kv ?n)" "contents (kv ?n) = [[0x61] \<mapsto> [0x62]]"
    using store_ex1_ok by (simp_all add: node_ex_def)
  obtain r n' w' where h: "handle runtime_ex 5 OpPut (NewDec []) (?n, NewWriter []) = Some (r, (n', w'))"
    by (simp add: handle_def ops handlePut_def reply_def Let_def split_def leader_only_def redirectIfNotLeader_def
        node_ex_def NewDec_def DecBytes_def DecU32_def fail_def DecDone_def)
  with follower_keeps_map [OF n(1,2) h] n(3) show ?thesis by auto
qed

theorem write_request_answered_witness:
  "\<exists>p n'. handle runtime_ex 5 OpDelete (NewDec (str_enc [0x61])) (node_ex [0x31] 1 store_ex1, NewWriter []) =
      Some (Inr (), (n', sent (NewWriter []) [p])) \<and> store_ok (kv n')"
proof -
  let ?n = "node_ex [0x31] 1 store_ex1"
  have n: "store_ok (kv ?n)" "\<not> closed (kv ?n)" "unat (seq (kv ?n)) + 2 ^ 32 < 2 ^ 64" "length (leaderAddr ?n) < 2 ^ 20"
    "role ?n = Leader"
    using store_ex1_ok by (simp_all add: node_ex_def)
  have "write_ok (WDelete [0x61])" "wfaults (NewWriter []) = []" "short_texts runtime_ex"
    using valid_kv_ex(2) by (simp_all add: NewWriter_def short_texts_def runtime_ex_def)
  from write_request_answered [OF n(1,2) this(1) n(3) this(2,3) n(4), of 5] n(5) show ?thesis by auto
qed

theorem range_request_answered_witness:
  "\<exists>gs n'. concat gs = [([0x61], [0x62])] \<and>
    handle runtime_ex 5 OpRange (NewDec (str_enc [] @ str_enc [] @ be_bytes 4 (0 :: u32))) (node_ex [0x31] 1 store_ex1, NewWriter []) =
      Some (Inr (), (n', sent (NewWriter []) (range_frames gs)))"
proof -
  let ?n = "node_ex [0x31] 1 store_ex1"
  have n: "store_ok (kv ?n)" "faults (disk (kv ?n)) = []" "0 < cMaxRange (cfg ?n)" "wfaults (NewWriter []) = []"
    "length ([] :: bytes) < 2 ^ 32"
    using store_ex1_ok by (simp_all add: node_ex_def config_ex_def NewWriter_def)
  obtain xs gs n' where x: "in_range [] [] (contents (kv ?n)) xs" "concat gs = take 100000 xs"
    "handle runtime_ex 5 OpRange (NewDec (str_enc [] @ str_enc [] @ be_bytes 4 (0 :: u32))) (?n, NewWriter []) =
      Some (Inr (), (n', sent (NewWriter []) (range_frames gs)))"
    using range_request_answered [OF n(1,2,4,3,5,5), where limit = 0 and rt = runtime_ex and now = 5]
    by (auto simp: node_ex_def config_ex_def)
  have set: "set xs = {([0x61], [0x62])}"
    using x(1) by (auto simp: in_range_def store_ex1_ok(2) node_ex_def split: if_splits)
  have "distinct (map fst xs)" using x(1) strict_sorted_iff by (auto simp: in_range_def)
  then have "length xs = 1" using set distinct_card [of xs] by (simp add: distinct_map)
  then have "xs = [([0x61], [0x62])]" using set by (cases xs) auto
  then show ?thesis using x(2,3) by auto
qed

end
