(* ===== verification/Crash.thy ===== *)
theory Crash
  imports Recovery Requests
begin

text \<open>
  What a crash leaves of a store and what opening it again makes of that: the contents after some
  prefix of the writes, which includes every write that was synced.
\<close>

section \<open>Crashes\<close>

text \<open>
  A crash keeps the directory as it was last synced and of every file a prefix that includes what
  has been synced. I/O errors are left out.
\<close>

definition crash :: "fs \<Rightarrow> fs \<Rightarrow> bool" where
  "crash d d' \<longleftrightarrow> dir d' = ddir d \<and> ddir d' = ddir d \<and> faults d' = [] \<and> length (inodes d') = length (inodes d) \<and>
     (\<forall>j < length (inodes d). \<exists>n \<ge> durable (inodes d ! j).
        inodes d' ! j = (inodes d ! j)\<lparr>content := take n (content (inodes d ! j)), durable := length (take n (content (inodes d ! j)))\<rparr>)"

section \<open>Groups\<close>

lemma list_all_take: "list_all P xs \<Longrightarrow> list_all P (take n xs)"
  by (auto simp: list_all_iff dest: in_set_takeD)

lemma map_snd_placed [simp]: "map snd (placed p rs) = rs"
  by (induction rs arbitrary: p) simp_all

lemma encode_all_append: "encode_all (xs @ ys) = encode_all xs @ encode_all ys"
  by (induction xs) simp_all

text \<open>The records of one write: a record outside batches, or a complete batch.\<close>

definition inner :: "krecord \<Rightarrow> bool" where
  "inner r \<longleftrightarrow> flags r AND flagBatch \<noteq> 0 \<and> flags r AND flagBatchEnd = 0"

definition closing :: "krecord \<Rightarrow> bool" where
  "closing r \<longleftrightarrow> flags r AND flagBatch \<noteq> 0 \<and> flags r AND flagBatchEnd \<noteq> 0"

definition one_write :: "krecord list \<Rightarrow> bool" where
  "one_write rs \<longleftrightarrow> list_all wf_rec rs \<and>
     ((\<exists>r. rs = [r] \<and> flags r AND flagBatch = 0) \<or> (\<exists>xs r. rs = xs @ [r] \<and> list_all inner xs \<and> closing r))"

lemma placed_append: "placed p (xs @ ys) = placed p xs @ placed (p + length (encode_all xs)) ys"
  by (induction xs arbitrary: p) (simp_all add: add.assoc)

lemma stage_inner:
  "list_all inner xs \<Longrightarrow> stage pl c (placed p xs @ ys) = stage (pl @ placed p xs) c ys"
  by (induction xs arbitrary: pl p) (simp_all add: inner_def)

lemma stage_group:
  assumes "one_write rs"
  shows "stage [] c (placed p rs @ ys) =
    (case stage [] (p + length (encode_all rs)) ys of (c', zs) \<Rightarrow> (c', placed p rs @ zs))"
proof -
  consider r where "rs = [r]" "flags r AND flagBatch = 0" | xs r where "rs = xs @ [r]" "list_all inner xs" "closing r"
    using assms by (auto simp: one_write_def)
  then show ?thesis
  proof cases
    case (2 xs r)
    then show ?thesis by (simp add: placed_append stage_inner closing_def add.assoc)
  qed simp
qed

lemma stage_groups:
  assumes "list_all one_write gs" and "list_all inner part" and "gs = [] \<Longrightarrow> c = p"
  shows "stage [] c (placed p (concat gs @ part)) = (p + length (encode_all (concat gs)), placed p (concat gs))"
  using assms
proof (induction gs arbitrary: c p)
  case Nil
  then show ?case using stage_inner [of part "[]" c p "[]"] by simp
next
  case (Cons g gs)
  then show ?case
    using Cons.IH [of "p + length (encode_all g)" "p + length (encode_all g)"]
    by (simp add: placed_append stage_group add.assoc)
qed

text \<open>A prefix of the bytes of some groups.\<close>

lemma encode_all_cut:
  assumes "list_all wf_rec rs" and "n \<le> length (encode_all rs)"
  shows "\<exists>k tail. k \<le> length rs \<and> take n (encode_all rs) = encode_all (take k rs) @ tail \<and> no_record tail \<and>
    (\<forall>m \<le> length rs. length (encode_all (take m rs)) \<le> n \<longrightarrow> m \<le> k)"
  using assms
proof (induction rs arbitrary: n)
  case (Cons r rs)
  show ?case
  proof (cases "rec_size r \<le> n")
    case True
    obtain k tail where k: "k \<le> length rs" "take (n - rec_size r) (encode_all rs) = encode_all (take k rs) @ tail" "no_record tail"
        "\<forall>m \<le> length rs. length (encode_all (take m rs)) \<le> n - rec_size r \<longrightarrow> m \<le> k"
    proof -
      have "list_all wf_rec rs" "n - rec_size r \<le> length (encode_all rs)" using Cons.prems by simp_all
      from Cons.IH [OF this] show ?thesis using that by blast
    qed
    have "\<forall>m \<le> length (r # rs). length (encode_all (take m (r # rs))) \<le> n \<longrightarrow> m \<le> Suc k"
    proof (intro allI impI)
      fix m assume "m \<le> length (r # rs)" "length (encode_all (take m (r # rs))) \<le> n"
      then show "m \<le> Suc k" using k(4) by (cases m) auto
    qed
    moreover have "take n (encode_all (r # rs)) = encode_all (take (Suc k) (r # rs)) @ tail" using True k(2) by simp
    ultimately show ?thesis using k(1,3) by (metis Suc_le_mono length_Cons)
  next
    case False
    have "encode r = take n (encode r) @ drop n (encode r)" "drop n (encode r) \<noteq> []" using False by simp_all
    then have "no_record (take n (encode r))" using no_record_torn [of r] Cons.prems(1) unfolding list_all_iff by (metis list.set_intros(1))
    moreover have "\<forall>m \<le> length (r # rs). length (encode_all (take m (r # rs))) \<le> n \<longrightarrow> m \<le> 0"
    proof (intro allI impI)
      fix m assume "length (encode_all (take m (r # rs))) \<le> n"
      then show "m \<le> 0" using False by (cases m) auto
    qed
    ultimately show ?thesis using False by (intro exI [of _ 0] exI [of _ "take n (encode r)"]) simp
  qed
qed simp

lemma take_groups:
  assumes "list_all one_write gs" and "k \<le> length (concat gs)"
  shows "\<exists>j part. j \<le> length gs \<and> take k (concat gs) = concat (take j gs) @ part \<and> list_all inner part \<and>
    (\<forall>m \<le> length gs. length (concat (take m gs)) \<le> k \<longrightarrow> m \<le> j)"
  using assms
proof (induction gs arbitrary: k)
  case (Cons g gs)
  show ?case
  proof (cases "length g \<le> k")
    case True
    obtain j part where j: "j \<le> length gs" "take (k - length g) (concat gs) = concat (take j gs) @ part" "list_all inner part"
        "\<forall>m \<le> length gs. length (concat (take m gs)) \<le> k - length g \<longrightarrow> m \<le> j"
    proof -
      have "list_all one_write gs" "k - length g \<le> length (concat gs)" using Cons.prems by simp_all
      from Cons.IH [OF this] show ?thesis using that by blast
    qed
    have "\<forall>m \<le> length (g # gs). length (concat (take m (g # gs))) \<le> k \<longrightarrow> m \<le> Suc j"
    proof (intro allI impI)
      fix m assume "m \<le> length (g # gs)" "length (concat (take m (g # gs))) \<le> k"
      then show "m \<le> Suc j" using j(4) by (cases m) auto
    qed
    moreover have "take k (concat (g # gs)) = concat (take (Suc j) (g # gs)) @ part" using True j(2) by simp
    ultimately show ?thesis using j(1,3) by (metis Suc_le_mono length_Cons)
  next
    case False
    have "list_all inner (take k g)"
    proof -
      consider r where "g = [r]" | xs r where "g = xs @ [r]" "list_all inner xs"
        using Cons.prems(1) by (auto simp: one_write_def)
      then show ?thesis
      proof cases
        case (2 xs r)
        then show ?thesis using False by (auto simp: list_all_iff dest: in_set_takeD)
      qed (use False in \<open>cases k; simp\<close>)
    qed
    moreover have "\<forall>m \<le> length (g # gs). length (concat (take m (g # gs))) \<le> k \<longrightarrow> m \<le> 0"
    proof (intro allI impI)
      fix m assume "length (concat (take m (g # gs))) \<le> k"
      then show "m \<le> 0" using False by (cases m) auto
    qed
    ultimately show ?thesis using False by (intro exI [of _ 0] exI [of _ "take k g"]) simp
  qed
qed simp

section \<open>The journal\<close>

text \<open>The file under a name is on stable storage as it is.\<close>

definition settled :: "fs \<Rightarrow> bytes \<Rightarrow> bool" where
  "settled d n \<longleftrightarrow> (\<forall>j. map_of (dir d) n = Some j \<longrightarrow> length (content (inodes d ! j)) \<le> durable (inodes d ! j))"

definition saved :: "fs \<Rightarrow> u32 \<Rightarrow> nat" where
  "saved d i = durable (inodes d ! the (map_of (dir d) (dataPath i)))"

text \<open>
  The disk of a running store: the data files \<open>ids\<close> in the order they were started, of which the
  last is the active one and holds the writes \<open>gs\<close>; the others end with a complete write and are
  settled, as are their hints, and the directory is synced. The view of the store is what a replay
  would give, and the hints still to be built are those of complete files.
\<close>

definition journal :: "store \<Rightarrow> u32 list \<Rightarrow> krecord list list \<Rightarrow> bool" where
  "journal s ids gs \<longleftrightarrow> ids \<noteq> [] \<and> good_dir (disk s) ids \<and> good_hints (disk s) ids \<and> ddir (disk s) = dir (disk s) \<and>
     (\<forall>i. hinted (disk s) i \<longrightarrow> i \<in> set (butlast ids)) \<and>
     (\<forall>i \<in> set (butlast ids). settled (disk s) (dataPath i) \<and> settled (disk s) (hintPath i)) \<and>
     (\<forall>i \<in> set ids. i < nextID s) \<and>
     (\<exists>p. active s = Some p \<and> p < length (dfs s) \<and> dfs s ! p =
        \<lparr> did = last ids, dpath = dataPath (last ids),
          dfile = \<lparr> ino = the (map_of (dir (disk s)) (dataPath (last ids))), fopen = True, fwr = True \<rparr>,
          dsize = length (encode_all (concat gs)) \<rparr>) \<and>
     list_all one_write gs \<and> file_at (disk s) (last ids) = encode_all (concat gs) \<and>
     (\<forall>i \<in> set (butlast ids). replay_recs (disk s) i = log_recs (file_at (disk s) i)) \<and>
     (\<forall>i \<in> set ids. length (file_at (disk s) i) < 2 ^ 63) \<and> maxFileSize s < 2 ^ 63 \<and> set (hintJobs s) \<subseteq> set (butlast ids) \<and>
     view s = foldl (newest fst) Map.empty (map rec_view (recovered (disk s) (butlast ids) @ concat gs))"

lemma recovered_snoc: "recovered d (ids @ [i]) = recovered d ids @ replay_recs d i"
  by (simp add: recovered_def)

lemma recovered_cong: "(\<And>i. i \<in> set ids \<Longrightarrow> replay_recs d' i = replay_recs d i) \<Longrightarrow> recovered d' ids = recovered d ids"
  by (induction ids) (simp_all add: recovered_def)

lemma last_not_butlast: "distinct xs \<Longrightarrow> xs \<noteq> [] \<Longrightarrow> last xs \<notin> set (butlast xs)"
  by (cases xs rule: rev_cases) simp_all

lemma one_writes_wf: "list_all one_write gs \<Longrightarrow> list_all wf_rec (concat gs)"
  by (induction gs) (auto simp: one_write_def)

lemma crash_inode:
  assumes "crash d d'" and "j < length (inodes d)"
  obtains m where "m \<ge> durable (inodes d ! j)" "content (inodes d' ! j) = take m (content (inodes d ! j))"
    "durable (inodes d' ! j) = length (content (inodes d' ! j))" "isdir (inodes d' ! j) = isdir (inodes d ! j)"
proof -
  obtain m where m: "m \<ge> durable (inodes d ! j)" "inodes d' ! j = (inodes d ! j)\<lparr>content := take m (content (inodes d ! j)),
      durable := length (take m (content (inodes d ! j)))\<rparr>"
    using assms unfolding crash_def by blast
  show ?thesis by (rule that [OF m(1)]) (simp_all add: m(2))
qed

lemma crash_settled:
  assumes "crash d d'" and "j < length (inodes d)" and "settled d n" and "map_of (dir d) n = Some j"
  shows "content (inodes d' ! j) = content (inodes d ! j)"
proof -
  obtain m where "m \<ge> durable (inodes d ! j)" "content (inodes d' ! j) = take m (content (inodes d ! j))"
    by (rule crash_inode [OF assms(1,2)])
  then show ?thesis using assms(3,4) by (simp add: settled_def)
qed

lemma crash_good_dir:
  assumes "crash d d'" and g: "good_dir d ids" and "ddir d = dir d"
  shows "good_dir d' ids"
proof -
  have eq: "dir d' = dir d" "faults d' = []" "length (inodes d') = length (inodes d)" using assms(1,3) by (simp_all add: crash_def)
  have "\<not> isdir (inodes d' ! j)" if "map_of (dir d) n = Some j" for n j
    using good_dirD(5) [OF g that] crash_inode [OF assms(1), of j] by metis
  then show ?thesis using g unfolding good_dir_def eq by blast
qed

lemma crash_replay_recs:
  assumes "crash d d'" and g: "good_dir d ids" and "ddir d = dir d" and "settled d (dataPath i)" and "i \<in> set ids"
  shows "file_at d' i = file_at d i" and "replay_recs d' i = replay_recs d i"
proof -
  have eq: "dir d' = dir d" using assms(1,3) by (simp add: crash_def)
  obtain j where j: "map_of (dir d) (dataPath i) = Some j" using good_dirD(4) [OF g, of i] assms(5) by auto
  have "j < length (inodes d)" using good_dirD(5) [OF g j] by simp
  from crash_settled [OF assms(1) this assms(4) j] show fa: "file_at d' i = file_at d i" using j by (simp add: file_at_def eq)
  then show "replay_recs d' i = replay_recs d i" by (simp add: replay_recs_def committed_def hinted_def eq)
qed

lemma journalD:
  assumes "journal s ids gs"
  shows "ids \<noteq> []" and "good_dir (disk s) ids" and "good_hints (disk s) ids" and "ddir (disk s) = dir (disk s)"
    and "hinted (disk s) i \<Longrightarrow> i \<in> set (butlast ids)" and "i \<in> set (butlast ids) \<Longrightarrow> settled (disk s) (dataPath i)"
    and "i \<in> set (butlast ids) \<Longrightarrow> settled (disk s) (hintPath i)" and "i \<in> set ids \<Longrightarrow> i < nextID s"
    and "list_all one_write gs" and "file_at (disk s) (last ids) = encode_all (concat gs)"
    and "view s = foldl (newest fst) Map.empty (map rec_view (recovered (disk s) (butlast ids) @ concat gs))"
    and "i \<in> set (butlast ids) \<Longrightarrow> replay_recs (disk s) i = log_recs (file_at (disk s) i)"
    and "i \<in> set ids \<Longrightarrow> length (file_at (disk s) i) < 2 ^ 63" and "maxFileSize s < 2 ^ 63" and "set (hintJobs s) \<subseteq> set (butlast ids)"
  using assms unfolding journal_def by blast+

lemma journal_size: "journal s ids gs \<Longrightarrow> length (encode_all (concat gs)) < 2 ^ 63"
  using journalD(1,10,13) [of s ids gs] last_in_set [of ids] by metis

lemma crash_good_hints:
  assumes "crash (disk s) d'" and J: "journal s ids gs"
  shows "good_hints d' ids"
  unfolding good_hints_def
proof (intro ballI allI impI)
  note j = journalD [OF J]
  fix i k assume i: "i \<in> set ids" "map_of (dir d') (hintPath i) = Some k"
  have eq: "dir d' = dir (disk s)" using assms(1) j(4) by (simp add: crash_def)
  have ib: "i \<in> set (butlast ids)" using i(2) j(5) by (simp add: eq hinted_def)
  have fa: "file_at d' i = file_at (disk s) i" by (rule crash_replay_recs(1) [OF assms(1) j(2,4) j(6) [OF ib] i(1)])
  have h: "map_of (dir (disk s)) (hintPath i) = Some k" using i(2) eq by simp
  have "k < length (inodes (disk s))" using good_dirD(5) [OF j(2) h] by simp
  from crash_settled [OF assms(1) this j(7) [OF ib] h] have "content (inodes d' ! k) = content (inodes (disk s) ! k)" .
  then show "length (file_at d' i) < 2 ^ 63 \<and>
      content (inodes d' ! k) = hintMagic @ concat (map hint_bytes (log_entries i 0 (log_recs (file_at d' i))))"
    using j(3) i(1) h unfolding good_hints_def fa by simp
qed

lemma crash_journal:
  assumes c: "crash (disk s) d'" and J: "journal s ids gs" and "j0 \<le> length gs"
    and "length (encode_all (concat (take j0 gs))) \<le> saved (disk s) (last ids)"
  shows "\<exists>j \<ge> j0. j \<le> length gs \<and> recovered d' ids = recovered (disk s) (butlast ids) @ concat (take j gs)"
proof -
  note jr = journalD [OF J]
  have wf: "list_all wf_rec (concat gs)" by (rule one_writes_wf [OF jr(9)])
  have eq: "dir d' = dir (disk s)" using c jr(4) by (simp add: crash_def)
  let ?i = "last ids"
  have li: "?i \<in> set ids" using jr(1) by simp
  obtain a where a: "map_of (dir (disk s)) (dataPath ?i) = Some a" "file_at (disk s) ?i = content (inodes (disk s) ! a)"
    by (rule good_file [OF jr(2) li])
  have al: "a < length (inodes (disk s))" using good_dirD(5) [OF jr(2) a(1)] by simp
  obtain m where m: "m \<ge> durable (inodes (disk s) ! a)" "content (inodes d' ! a) = take m (content (inodes (disk s) ! a))"
    by (rule crash_inode [OF c al])
  define n where "n = min m (length (encode_all (concat gs)))"
  have fa: "file_at d' ?i = take n (encode_all (concat gs))"
    using m(2) a jr(10) by (simp add: file_at_def eq n_def min_def)
  obtain k tail where k: "k \<le> length (concat gs)" "take n (encode_all (concat gs)) = encode_all (take k (concat gs)) @ tail"
      "no_record tail" "\<forall>m \<le> length (concat gs). length (encode_all (take m (concat gs))) \<le> n \<longrightarrow> m \<le> k"
    using encode_all_cut [OF wf, of n] by (auto simp: n_def)
  obtain j part where j: "j \<le> length gs" "take k (concat gs) = concat (take j gs) @ part" "list_all inner part"
      "\<forall>m \<le> length gs. length (concat (take m gs)) \<le> k \<longrightarrow> m \<le> j"
    using take_groups [OF jr(9) k(1)] by blast
  have "j0 \<le> j"
  proof -
    let ?q = "length (concat (take j0 gs))"
    have q: "concat (take j0 gs) = take ?q (concat gs)"
      by (metis append_eq_conv_conj append_take_drop_id concat_append)
    have "length (encode_all (concat (take j0 gs))) \<le> length (encode_all (concat gs))"
      by (metis append_take_drop_id concat_append encode_all_append le_add1 length_append)
    moreover have "length (encode_all (concat (take j0 gs))) \<le> m" using assms(4) a(1) m(1) by (simp add: saved_def)
    ultimately have "length (encode_all (take ?q (concat gs))) \<le> n" unfolding q [symmetric] n_def by simp
    moreover have "?q \<le> length (concat gs)" by (metis append_take_drop_id concat_append le_add1 length_append)
    ultimately have "?q \<le> k" using k(4) by blast
    then show ?thesis using j(4) assms(3) by blast
  qed
  moreover have "recovered d' ids = recovered (disk s) (butlast ids) @ concat (take j gs)"
  proof -
    have "recovered d' (butlast ids) = recovered (disk s) (butlast ids)"
    proof (rule recovered_cong)
      fix i assume i: "i \<in> set (butlast ids)"
      show "replay_recs d' i = replay_recs (disk s) i"
        by (rule crash_replay_recs(2) [OF c jr(2,4) jr(6) [OF i] in_set_butlastD [OF i]])
    qed
    moreover have "replay_recs d' ?i = concat (take j gs)"
    proof -
      have "\<not> hinted (disk s) ?i" using jr(5) [of ?i] last_not_butlast [OF good_dirD(3) [OF jr(2)] jr(1)] by blast
      moreover have "log_recs (file_at d' ?i) = take k (concat gs)"
        unfolding fa k(2) by (rule log_recs_eq [OF list_all_take [OF wf] k(3)])
      ultimately show ?thesis
        using stage_groups [OF list_all_take [OF jr(9)] j(3), of j 0 0] by (simp add: replay_recs_def committed_def hinted_def eq j(2))
    qed
    ultimately show ?thesis
      using recovered_snoc [of d' "butlast ids" ?i] append_butlast_last_id [OF jr(1)] by simp
  qed
  ultimately show ?thesis using j(1) by blast
qed

section \<open>Writes to the active file\<close>

lemma journal_active:
  assumes "journal s ids gs"
  obtains p a where "active s = Some p" "p < length (dfs s)" "map_of (dir (disk s)) (dataPath (last ids)) = Some a"
    "dfs s ! p = \<lparr> did = last ids, dpath = dataPath (last ids), dfile = \<lparr> ino = a, fopen = True, fwr = True \<rparr>,
       dsize = length (encode_all (concat gs)) \<rparr>"
    "content (inodes (disk s) ! a) = encode_all (concat gs)" "a < length (inodes (disk s))" "saved (disk s) (last ids) = durable (inodes (disk s) ! a)"
proof -
  note j = journalD [OF assms]
  have "last ids \<in> set ids" using j(1) by simp
  then obtain a where a: "map_of (dir (disk s)) (dataPath (last ids)) = Some a" "file_at (disk s) (last ids) = content (inodes (disk s) ! a)"
    by (rule good_file [OF j(2)])
  have al: "a < length (inodes (disk s))" using good_dirD(5) [OF j(2) a(1)] by simp
  obtain p where p: "active s = Some p" "p < length (dfs s)" "dfs s ! p =
      \<lparr> did = last ids, dpath = dataPath (last ids), dfile = \<lparr> ino = the (map_of (dir (disk s)) (dataPath (last ids))), fopen = True, fwr = True \<rparr>,
        dsize = length (encode_all (concat gs)) \<rparr>"
    using assms unfolding journal_def by blast
  show ?thesis by (rule that [OF p(1,2) a(1)]) (use p(3) a al j(10) in \<open>simp_all add: saved_def\<close>)
qed

lemma only_last:
  assumes J: "journal s ids gs" and a: "map_of (dir (disk s)) (dataPath (last ids)) = Some a"
    and o: "only_file a (disk s) d" and "faults d = []"
  shows "good_dir d ids" and "good_hints d ids" and "ddir d = dir d" and "dir d = dir (disk s)"
    and "i \<in> set (butlast ids) \<Longrightarrow> settled d (dataPath i)" and "i \<in> set (butlast ids) \<Longrightarrow> settled d (hintPath i)"
    and "recovered d (butlast ids) = recovered (disk s) (butlast ids)" and "hinted d i = hinted (disk s) i"
    and "i \<in> set (butlast ids) \<Longrightarrow> file_at d i = file_at (disk s) i"
    and "i \<in> set (butlast ids) \<Longrightarrow> replay_recs d i = replay_recs (disk s) i"
proof -
  note j = journalD [OF J]
  have lb: "last ids \<notin> set (butlast ids)" by (rule last_not_butlast [OF good_dirD(3) [OF j(2)] j(1)])
  have same: "inodes d ! b = inodes (disk s) ! b" if "map_of (dir (disk s)) n = Some b" "n \<noteq> dataPath (last ids)" for n b
  proof -
    have "b \<noteq> a" using good_dirD(6) [OF j(2) that(1), of "dataPath (last ids)"] a that(2) by blast
    then show ?thesis using o by (simp add: only_file_def)
  qed
  show dd: "dir d = dir (disk s)" and "ddir d = dir d" using o j(4) by (simp_all add: only_file_def)
  show h: "hinted d i = hinted (disk s) i" for i by (simp add: hinted_def dd)
  show fa: "file_at d i = file_at (disk s) i" if "i \<in> set (butlast ids)" for i
  proof -
    have "i \<in> set ids" "i \<noteq> last ids" using in_set_butlastD [OF that] that lb by blast+
    then show ?thesis using same [of "dataPath i"] good_dirD(4) [OF j(2), of i] by (auto simp: file_at_def dd)
  qed
  show "good_dir d ids"
  proof (rule good_dir_same_names [OF j(2) assms(4) dd])
    show "length (inodes d) = length (inodes (disk s))" "\<forall>b. isdir (inodes d ! b) = isdir (inodes (disk s) ! b)"
      using o unfolding only_file_def by metis+
  qed
  show "good_hints d ids"
    unfolding good_hints_def
  proof (intro ballI allI impI)
    fix i b assume i: "i \<in> set ids" "map_of (dir d) (hintPath i) = Some b"
    have "i \<in> set (butlast ids)" using i(2) j(5) by (simp add: hinted_def dd)
    from fa [OF this] same [of "hintPath i" b] i j(3)
    show "length (file_at d i) < 2 ^ 63 \<and>
        content (inodes d ! b) = hintMagic @ concat (map hint_bytes (log_entries i 0 (log_recs (file_at d i))))"
      by (simp add: good_hints_def dd)
  qed
  show "settled d (dataPath i)" if "i \<in> set (butlast ids)" for i
  proof -
    have "dataPath i \<noteq> dataPath (last ids)" using that lb by auto
    then show ?thesis using j(6) [OF that] same [of "dataPath i"] by (simp add: settled_def dd)
  qed
  show "settled d (hintPath i)" if "i \<in> set (butlast ids)" for i
    using j(7) [OF that] same [of "hintPath i"] by (simp add: settled_def dd)
  show rr: "replay_recs d i = replay_recs (disk s) i" if "i \<in> set (butlast ids)" for i
    using fa [OF that] by (simp add: replay_recs_def committed_def h)
  show "recovered d (butlast ids) = recovered (disk s) (butlast ids)"
    by (rule recovered_cong) (rule rr)
qed

lemma journal_write:
  assumes J: "journal s ids gs" and a: "map_of (dir (disk s)) (dataPath (last ids)) = Some a"
    and o: "only_file a (disk s) (disk t)" "faults (disk t) = []" and c: "content (inodes (disk t) ! a) = encode_all (concat gs')"
    and "list_all one_write gs'" and "nextID t = nextID s \<and> hintJobs t = hintJobs s \<and> maxFileSize t = maxFileSize s"
    and "active t = Some p" "p < length (dfs t)" "dfs t ! p =
      \<lparr> did = last ids, dpath = dataPath (last ids), dfile = \<lparr> ino = a, fopen = True, fwr = True \<rparr>, dsize = length (encode_all (concat gs')) \<rparr>"
    and "view t = foldl (newest fst) Map.empty (map rec_view (recovered (disk s) (butlast ids) @ concat gs'))"
    and "length (encode_all (concat gs')) < 2 ^ 63"
  shows "journal t ids gs'"
proof -
  note j = journalD [OF J] and l = only_last [OF J a o]
  have "file_at (disk t) (last ids) = encode_all (concat gs')" using a c by (simp add: file_at_def l(4))
  moreover have "\<forall>i. hinted (disk t) i \<longrightarrow> i \<in> set (butlast ids)" using j(5) l(8) by blast
  moreover have "length (file_at (disk t) i) < 2 ^ 63" if "i \<in> set ids" for i
  proof (cases "i = last ids")
    case True
    then show ?thesis using calculation(1) assms(12) by simp
  next
    case False
    then have "i \<in> set (butlast ids)" using that by (metis append_butlast_last_id empty_iff j(1) list.set(1) set_ConsD set_append UnE)
    then show ?thesis using l(9) j(13) that by simp
  qed
  ultimately show ?thesis
    unfolding journal_def using j(1,8,12,14,15) l(1-7,9,10) a assms(6-11) by simp
qed

lemma index_recs_fields:
  "index_recs base i xs s = Some t \<Longrightarrow> disk t = disk s \<and> dfs t = dfs s \<and> active t = active s \<and> nextID t = nextID s \<and> dirty t = dirty s \<and>
     hintJobs t = hintJobs s \<and> maxFileSize t = maxFileSize s"
proof (induction base i xs s rule: index_recs.induct)
  case (2 base i off r xs s)
  have ix: "disk t' = disk t \<and> dfs t' = dfs t \<and> active t' = active t \<and> nextID t' = nextID t \<and> dirty t' = dirty t \<and>
      hintJobs t' = hintJobs t \<and> maxFileSize t' = maxFileSize t"
    if "indexApplyLocked k e tmb t = Some t'" for k e tmb t t'
    using that by (auto simp: indexApplyLocked_def Let_def split: option.splits if_splits bind_splits)
  obtain s1 where s1: "indexApplyLocked (key r) \<lparr> pos = base + unat off, eseq = rseq r, fileID = i,
      esize = encodedSize (length (key r)) (length (val r)), tomb = False \<rparr> (tombstone r) s = Some s1" "index_recs base i xs s1 = Some t"
    using 2(2) by (auto simp: bind_eq_Some_conv)
  show ?case using ix [OF s1(1)] 2(1) [OF s1] by simp
qed simp

lemma write_active_fields:
  assumes "active s = Some p" and "write_active recs s = (Inr (), t)"
  shows "dfs t = (dfs s)[p := (dfs s ! p)\<lparr>dsize := dsize (dfs s ! p) + length (encode_all recs)\<rparr>]" "active t = active s"
    "nextID t = nextID s \<and> hintJobs t = hintJobs s \<and> maxFileSize t = maxFileSize s" "dirty t \<longleftrightarrow> syncMode s \<noteq> SyncAlways"
    "\<exists>d. WriteAt (dfile (dfs s ! p)) (encode_all recs) (dsize (dfs s ! p)) (disk s) = (Inr (), d) \<and>
       (if syncMode s = SyncAlways then SyncFile (dfile (dfs s ! p)) d = (Inr (), disk t) else disk t = d)"
proof -
  obtain d where d: "WriteAt (dfile (dfs s ! p)) (encode_all recs) (dsize (dfs s ! p)) (disk s) = (Inr (), d)"
    using assms by (auto simp: write_active_def Let_def split: prod.splits sum.splits)
  let ?s = "s\<lparr>disk := d, dfs := (dfs s)[p := (dfs s ! p)\<lparr>dsize := dsize (dfs s ! p) + length (encode_all recs)\<rparr>],
    total := total s + int (length (encode_all recs)), dirty := True\<rparr>"
  obtain s1 where s1: "(if syncMode s = SyncAlways
        then andThen (on_disk (SyncFile (dfile (dfs s ! p))) ?s) (\<lambda>_ s. (Inr (), s\<lparr>dirty := False\<rparr>)) else (Inr (), ?s)) = (Inr (), s1)"
      "\<exists>s2. index_recs (dsize (dfs s ! p)) (did (dfs s ! p)) (zip (offsets 0 recs) recs) s1 = Some s2 \<and> t = notify (rseq (last recs)) (encode_all recs) s2"
    using assms d by (auto simp: write_active_def Let_def andThen_Inr split: option.splits if_splits)
  have f1: "dfs s1 = dfs ?s" "active s1 = active s" "nextID s1 = nextID s \<and> hintJobs s1 = hintJobs s \<and> maxFileSize s1 = maxFileSize s" "dirty s1 \<longleftrightarrow> syncMode s \<noteq> SyncAlways"
      "if syncMode s = SyncAlways then SyncFile (dfile (dfs s ! p)) d = (Inr (), disk s1) else disk s1 = d"
    using s1(1) by (auto simp: on_disk_def andThen_Inr split: if_splits prod.splits)
  obtain s2 where s2: "index_recs (dsize (dfs s ! p)) (did (dfs s ! p)) (zip (offsets 0 recs) recs) s1 = Some s2"
      "t = notify (rseq (last recs)) (encode_all recs) s2" using s1(2) by blast
  note f2 = index_recs_fields [OF s2(1)]
  show "dfs t = (dfs s)[p := (dfs s ! p)\<lparr>dsize := dsize (dfs s ! p) + length (encode_all recs)\<rparr>]" "active t = active s"
    "nextID t = nextID s \<and> hintJobs t = hintJobs s \<and> maxFileSize t = maxFileSize s"
    "dirty t \<longleftrightarrow> syncMode s \<noteq> SyncAlways" "\<exists>d. WriteAt (dfile (dfs s ! p)) (encode_all recs) (dsize (dfs s ! p)) (disk s) = (Inr (), d) \<and>
       (if syncMode s = SyncAlways then SyncFile (dfile (dfs s ! p)) d = (Inr (), disk t) else disk t = d)"
    using f1 f2 d by (simp_all add: s2(2) notify_def)
qed

lemma append_inode:
  assumes "faults d = []" and "a < length (inodes d)" and "WriteAt \<lparr> ino = a, fopen = True, fwr = True \<rparr> bs (length (content (inodes d ! a))) d = (Inr (), d')"
  shows "only_file a d d'" "faults d' = []" "content (inodes d' ! a) = content (inodes d ! a) @ bs"
    "durable (inodes d' ! a) = min (durable (inodes d ! a)) (length (content (inodes d ! a)))"
  using WriteAt_only [OF assms(3)] assms by (auto simp: WriteAt_def set_file_def the_file_def splice_def)

lemma sync_inode:
  assumes "faults d = []" and "a < length (inodes d)"
  obtains d' where "SyncFile \<lparr> ino = a, fopen = True, fwr = True \<rparr> d = (Inr (), d')" "only_file a d d'" "faults d' = []"
    "content (inodes d' ! a) = content (inodes d ! a)" "durable (inodes d' ! a) = length (content (inodes d ! a))"
proof -
  obtain d' where d': "SyncFile \<lparr> ino = a, fopen = True, fwr = True \<rparr> d = (Inr (), d')"
    using assms(1) by (simp add: SyncFile_def Let_def)
  show ?thesis
    by (rule that [OF d' SyncFile_only [OF d', simplified]])
       (use d' assms in \<open>auto simp: SyncFile_def Let_def set_file_def the_file_def\<close>)
qed

definition written :: "krecord list list \<Rightarrow> nat" where
  "written gs = length (encode_all (concat gs))"

lemma write_active_journal:
  assumes inv: "store_inv s" and J: "journal s ids gs" and w: "one_write recs" "length (encode_all recs) < 2 ^ 32"
    and sz: "written gs + length (encode_all recs) < 2 ^ 63"
  shows "\<exists>t. write_active recs s = (Inr (), t) \<and> journal t ids (gs @ [recs]) \<and> nextID t = nextID s \<and>
    (dirty t \<longleftrightarrow> syncMode s \<noteq> SyncAlways) \<and> recovered (disk t) (butlast ids) = recovered (disk s) (butlast ids) \<and>
    min (saved (disk s) (last ids)) (written gs) \<le> saved (disk t) (last ids) \<and>
    (syncMode s = SyncAlways \<longrightarrow> written (gs @ [recs]) \<le> saved (disk t) (last ids))"
proof -
  note j = journalD [OF J]
  obtain p a where p: "active s = Some p" "p < length (dfs s)" "map_of (dir (disk s)) (dataPath (last ids)) = Some a"
    "dfs s ! p = \<lparr> did = last ids, dpath = dataPath (last ids), dfile = \<lparr> ino = a, fopen = True, fwr = True \<rparr>,
       dsize = length (encode_all (concat gs)) \<rparr>"
    "content (inodes (disk s) ! a) = encode_all (concat gs)" "a < length (inodes (disk s))" "saved (disk s) (last ids) = durable (inodes (disk s) ! a)"
    by (rule journal_active [OF J])
  have f: "faults (disk s) = []" by (rule good_dirD(1) [OF j(2)])
  have recs: "recs \<noteq> []" "list_all wf_rec recs" using w(1) by (auto simp: one_write_def)
  have wrote: "wrote recs (write_active recs s) s" by (rule write_active_ok [OF inv recs w(2)])
  then have "fst (write_active recs s) \<noteq> Inl Panic" by (auto simp: wrote_def split: sum.splits prod.splits)
  then obtain t where t: "write_active recs s = (Inr (), t)" using write_active_calm [OF f p(1)] p(4) by fastforce
  note wf = write_active_fields [OF p(1) t]
  obtain d where d: "WriteAt \<lparr> ino = a, fopen = True, fwr = True \<rparr> (encode_all recs) (length (content (inodes (disk s) ! a))) (disk s) = (Inr (), d)"
      "if syncMode s = SyncAlways then SyncFile \<lparr> ino = a, fopen = True, fwr = True \<rparr> d = (Inr (), disk t) else disk t = d"
    using wf(5) p(4,5) by (metis datafile.select_convs(3,4))
  note ai = append_inode [OF f p(6) d(1)]
  have disk: "only_file a (disk s) (disk t) \<and> faults (disk t) = [] \<and> content (inodes (disk t) ! a) = encode_all (concat (gs @ [recs])) \<and>
      durable (inodes (disk t) ! a) = (if syncMode s = SyncAlways then written (gs @ [recs]) else min (saved (disk s) (last ids)) (written gs))"
  proof (cases "syncMode s = SyncAlways")
    case True
    have "a < length (inodes d)" using ai(1) p(6) by (simp add: only_file_def)
    from sync_inode [OF ai(2) this] True d(2) have "only_file a d (disk t)" "faults (disk t) = []"
        "content (inodes (disk t) ! a) = content (inodes d ! a)" "durable (inodes (disk t) ! a) = length (content (inodes d ! a))"
      by (metis Pair_inject)+
    then show ?thesis using True ai(1,3) p(5) only_file_trans [OF ai(1)] by (simp add: written_def)
  next
    case False
    then show ?thesis using d(2) ai p(5,7) by (simp add: written_def)
  qed
  have "view t = foldl (newest fst) (view s) (map rec_view recs)" using wrote t by (simp add: wrote_def)
  then have v: "view t = foldl (newest fst) Map.empty (map rec_view (recovered (disk s) (butlast ids) @ concat (gs @ [recs])))"
    by (simp add: j(11))
  have J': "journal t ids (gs @ [recs])"
    by (rule journal_write [OF J p(3) _ _ _ _ wf(3) _ _ _ v, of p])
       (use disk j(9) w(1) wf(1,2) p(1,2,4) sz in \<open>simp_all add: written_def encode_all_append\<close>)
  have "saved (disk t) (last ids) = durable (inodes (disk t) ! a)"
    using disk p(3) by (simp add: saved_def only_file_def)
  moreover have "min (saved (disk s) (last ids)) (written gs) \<le> written (gs @ [recs])"
    by (rule min.coboundedI2) (simp add: written_def)
  ultimately show ?thesis
    using t J' wf(3,4) disk only_last(7) [OF J p(3)] by auto
qed

section \<open>Rotation\<close>

lemma replay_last:
  assumes "file_at d i = encode_all (concat gs)" and "list_all one_write gs" and "\<not> hinted d i"
  shows "replay_recs d i = concat gs"
proof -
  have "log_recs (file_at d i) = concat gs"
    using log_recs_eq [OF one_writes_wf [OF assms(2)], of "[]"] assms(1) by simp
  then show ?thesis
    using stage_groups [OF assms(2), of "[]" 0 0] assms(3) by (simp add: replay_recs_def committed_def)
qed

text \<open>A disk with one more, empty, data file.\<close>

definition with_file :: "u32 \<Rightarrow> fs \<Rightarrow> fs" where
  "with_file i d = (let dr = AList.update (dataPath i) (length (inodes d)) (dir d) in
     d\<lparr>inodes := inodes d @ [new_inode], dir := dr, ddir := dr\<rparr>)"

lemma with_file_simps [simp]:
  "faults (with_file i d) = faults d" "inodes (with_file i d) = inodes d @ [new_inode]" "ddir (with_file i d) = dir (with_file i d)"
  "map_of (dir (with_file i d)) n = (if n = dataPath i then Some (length (inodes d)) else map_of (dir d) n)"
  by (auto simp: with_file_def Let_def update_conv')

lemma with_file_good:
  assumes g: "good_dir d ids" and "\<forall>k \<in> set ids. k < i"
  shows "good_dir (with_file i d) (ids @ [i])"
    and "k \<in> set ids \<Longrightarrow> file_at (with_file i d) k = file_at d k" and "file_at (with_file i d) i = []"
    and "hinted (with_file i d) k = hinted d k"
    and "settled d n \<Longrightarrow> n \<noteq> dataPath i \<Longrightarrow> settled (with_file i d) n"
    and "good_hints d ids \<Longrightarrow> \<not> hinted d i \<Longrightarrow> good_hints (with_file i d) (ids @ [i])"
proof -
  note gd = good_dirD [OF g]
  have fresh: "i \<notin> set ids" using assms(2) by auto
  have lt: "j < length (inodes d)" if "map_of (dir d) n = Some j" for n j using gd(5) [OF that] by simp
  show "good_dir (with_file i d) (ids @ [i])"
    unfolding good_dir_def
  proof (intro conjI allI impI)
    show "faults (with_file i d) = []" using gd(1) by simp
    show "distinct (map fst (dir (with_file i d)))"
      using g by (simp add: good_dir_def with_file_def Let_def distinct_update)
    show "sorted (ids @ [i])" "distinct (ids @ [i])"
      using gd(2,3) assms(2) fresh by (auto simp: sorted_append less_imp_le)
    show "map_of (dir (with_file i d)) (dataPath k) \<noteq> None \<longleftrightarrow> k \<in> set (ids @ [i])" for k using gd(4) [of k] by auto
  next
    fix n j assume "map_of (dir (with_file i d)) n = Some j"
    then show "j < length (inodes (with_file i d))" "\<not> isdir (inodes (with_file i d) ! j)"
      using gd(5) [of n j] by (auto simp: nth_append new_inode_def split: if_splits)
  next
    fix n n' j assume "map_of (dir (with_file i d)) n = Some j" "map_of (dir (with_file i d)) n' = Some j"
    then show "n = n'" using gd(6) [of n j n'] lt [of n j] lt [of n' j] by (auto split: if_splits)
  next
    fix n m assume n: "map_of (dir (with_file i d)) n \<noteq> None" "HasSuffix n dataSuffix" "ParseUint (TrimSuffix n dataSuffix) 32 = Some m"
    show "n = dataPath (of_nat m)"
    proof (cases "n = dataPath i")
      case True
      then show ?thesis using n(3) parse_dataPath [of i] by auto
    next
      case False
      then show ?thesis using n g unfolding good_dir_def by simp
    qed
  qed
  show fa: "file_at (with_file i d) k = file_at d k" if "k \<in> set ids" for k
    using gd(4) [of k] lt [of "dataPath k"] that fresh by (auto simp: file_at_def nth_append)
  show "file_at (with_file i d) i = []" by (simp add: file_at_def new_inode_def)
  show h: "hinted (with_file i d) k = hinted d k" for k by (simp add: hinted_def)
  show "settled (with_file i d) n" if "settled d n" "n \<noteq> dataPath i" for n
    using that lt [of n] by (simp add: settled_def nth_append)
  show "good_hints (with_file i d) (ids @ [i])" if "good_hints d ids" "\<not> hinted d i"
    unfolding good_hints_def
  proof (intro ballI allI impI)
    fix k j assume k: "k \<in> set (ids @ [i])" "map_of (dir (with_file i d)) (hintPath k) = Some j"
    then have "k \<in> set ids" "map_of (dir d) (hintPath k) = Some j" using that(2) by (auto simp: hinted_def)
    then show "length (file_at (with_file i d) k) < 2 ^ 63 \<and> content (inodes (with_file i d) ! j) =
        hintMagic @ concat (map hint_bytes (log_entries k 0 (log_recs (file_at (with_file i d) k))))"
      using that(1) fa lt [of "hintPath k" j] by (simp add: good_hints_def nth_append)
  qed
qed

lemma openNewActive_with_file:
  assumes "faults (disk s) = []" and "map_of (dir (disk s)) (dataPath (nextID s)) = None"
  shows "openNewActive s = (Inr (), s\<lparr>disk := with_file (nextID s) (disk s), nextID := nextID s + 1,
    dfs := dfs s @ [\<lparr> did = nextID s, dpath = dataPath (nextID s),
      dfile = \<lparr> ino = length (inodes (disk s)), fopen = True, fwr = True \<rparr>, dsize = 0 \<rparr>],
    files := AList.update (nextID s) (length (dfs s)) (files s), active := Some (length (dfs s))\<rparr>)"
  using assms
  by (simp add: openNewActive_def createDataFile_def openExcl_def on_disk_def Let_def syncDir_def with_file_def)

lemma journal_sync:
  assumes inv: "store_inv s" and J: "journal s ids gs" and a: "active s = Some p"
  obtains d where "SyncFile (dfile (dfs s ! p)) (disk s) = (Inr (), d)" "journal (s\<lparr>disk := d\<rparr>) ids gs"
    "recovered d (butlast ids) = recovered (disk s) (butlast ids)" "settled d (dataPath (last ids))" "saved d (last ids) = written gs"
proof -
  obtain p' a' where p: "active s = Some p'" "p' < length (dfs s)" "map_of (dir (disk s)) (dataPath (last ids)) = Some a'"
    "dfs s ! p' = \<lparr> did = last ids, dpath = dataPath (last ids), dfile = \<lparr> ino = a', fopen = True, fwr = True \<rparr>,
       dsize = length (encode_all (concat gs)) \<rparr>"
    "content (inodes (disk s) ! a') = encode_all (concat gs)" "a' < length (inodes (disk s))"
    by (rule journal_active [OF J])
  note j = journalD [OF J]
  obtain d where d: "SyncFile \<lparr> ino = a', fopen = True, fwr = True \<rparr> (disk s) = (Inr (), d)" "only_file a' (disk s) d" "faults d = []"
    "content (inodes d ! a') = content (inodes (disk s) ! a')" "durable (inodes d ! a') = length (content (inodes (disk s) ! a'))"
    by (rule sync_inode [OF good_dirD(1) [OF j(2)] p(6)])
  have sy: "SyncFile (dfile (dfs s ! p)) (disk s) = (Inr (), d)" using d(1) p(1,4) a by simp
  have "view (s\<lparr>disk := d\<rparr>) = view s" using store_inv_sync(2) [OF inv sy] by (simp add: quiet_def)
  then have v: "view (s\<lparr>disk := d\<rparr>) = foldl (newest fst) Map.empty (map rec_view (recovered (disk s) (butlast ids) @ concat gs))"
    by (simp only: j(11))
  have J': "journal (s\<lparr>disk := d\<rparr>) ids gs"
    by (rule journal_write [OF J p(3) _ _ _ _ _ _ _ _ v, of p']) (use d(2-4) p j(9) journal_size [OF J] in simp_all)
  have "map_of (dir d) (dataPath (last ids)) = Some a'" using d(2) p(3) by (simp add: only_file_def)
  then show ?thesis
    using that [OF sy J' only_last(7) [OF J p(3) d(2,3)]] d(4,5) p(5) by (simp add: settled_def saved_def written_def)
qed

lemma journal_new_file:
  assumes J: "journal s ids gs" and st: "settled (disk s) (dataPath (last ids))" and "unat (nextID s) + 1 < 2 ^ 32"
    and t: "disk t = with_file (nextID s) (disk s)" "nextID t = nextID s + 1" "active t = Some p" "p < length (dfs t)"
      "dfs t ! p = \<lparr> did = nextID s, dpath = dataPath (nextID s),
        dfile = \<lparr> ino = length (inodes (disk s)), fopen = True, fwr = True \<rparr>, dsize = 0 \<rparr>" "view t = view s"
      "hintJobs t = hintJobs s @ [last ids]" "maxFileSize t = maxFileSize s"
  shows "journal t (ids @ [nextID s]) []" and "recovered (disk t) ids = recovered (disk s) (butlast ids) @ concat gs"
proof -
  note j = journalD [OF J]
  have lt: "\<forall>k \<in> set ids. k < nextID s" using j(8) by blast
  note w = with_file_good [OF j(2) lt]
  have nh: "\<not> hinted (disk s) (nextID s)" "\<not> hinted (disk s) (last ids)"
  proof -
    have "nextID s \<notin> set ids" using lt by auto
    then show "\<not> hinted (disk s) (nextID s)" using j(5) [of "nextID s"] in_set_butlastD [of "nextID s" ids] by blast
    show "\<not> hinted (disk s) (last ids)" using j(5) [of "last ids"] last_not_butlast [OF good_dirD(3) [OF j(2)] j(1)] by blast
  qed
  have set: "set ids = set (butlast ids) \<union> {last ids}"
    using j(1) by (cases ids rule: rev_cases) simp_all
  have settled: "settled (disk t) (dataPath i) \<and> settled (disk t) (hintPath i)" if i: "i \<in> set ids" for i
  proof -
    have "settled (disk s) (dataPath i)" using st j(6) i set by auto
    moreover have "settled (disk s) (hintPath i)"
      using j(7) [of i] i set nh(2) by (cases "i = last ids") (auto simp: settled_def hinted_def)
    moreover have "dataPath i \<noteq> dataPath (nextID s)" using lt i by auto
    ultimately show ?thesis using w(5) by (simp add: t(1))
  qed
  have "recovered (disk t) ids = recovered (disk s) ids"
    by (rule recovered_cong) (simp add: replay_recs_def committed_def t(1) w(2,4))
  also have "\<dots> = recovered (disk s) (butlast ids) @ concat gs"
    using recovered_snoc [of "disk s" "butlast ids" "last ids"] append_butlast_last_id [OF j(1)] replay_last [OF j(10,9) nh(2)] by simp
  finally show rec: "recovered (disk t) ids = recovered (disk s) (butlast ids) @ concat gs" .
  have lr: "log_recs (file_at (disk s) (last ids)) = concat gs"
    using log_recs_eq [OF one_writes_wf [OF j(9)], of "[]"] j(10) by simp
  have whole: "replay_recs (disk t) i = log_recs (file_at (disk t) i)" if "i \<in> set ids" for i
  proof -
    have "replay_recs (disk s) i = log_recs (file_at (disk s) i)"
      using j(12) [of i] that set replay_last [OF j(10,9) nh(2)] lr by (cases "i = last ids") auto
    then show ?thesis using that by (simp add: replay_recs_def committed_def t(1) w(2,4))
  qed
  have nxt: "k < nextID s + 1" if "k \<in> set (ids @ [nextID s])" for k
    using that lt assms(3) by (auto simp: word_less_nat_alt unat_word_ariths)
  show "journal t (ids @ [nextID s]) []"
    unfolding journal_def
  proof (intro conjI)
    show "good_dir (disk t) (ids @ [nextID s])" "good_hints (disk t) (ids @ [nextID s])" "ddir (disk t) = dir (disk t)"
      using w(1) w(6) [OF j(3) nh(1)] by (simp_all add: t(1))
    show "\<forall>i. hinted (disk t) i \<longrightarrow> i \<in> set (butlast (ids @ [nextID s]))"
      using j(5) in_set_butlastD [of _ ids] by (auto simp: t(1) w(4))
    show "\<forall>i \<in> set (butlast (ids @ [nextID s])). settled (disk t) (dataPath i) \<and> settled (disk t) (hintPath i)"
      using settled by simp
    show "\<forall>i \<in> set (ids @ [nextID s]). i < nextID t" using nxt t(2) by simp
    show "view t = foldl (newest fst) Map.empty (map rec_view (recovered (disk t) (butlast (ids @ [nextID s])) @ concat []))"
      using t(6) j(11) rec by simp
    show "file_at (disk t) (last (ids @ [nextID s])) = encode_all (concat [])" using w(3) by (simp add: t(1))
    show "\<forall>i \<in> set (butlast (ids @ [nextID s])). replay_recs (disk t) i = log_recs (file_at (disk t) i)" using whole by simp
    show "\<forall>i \<in> set (ids @ [nextID s]). length (file_at (disk t) i) < 2 ^ 63" using w(2,3) j(13) by (auto simp: t(1))
    show "set (hintJobs t) \<subseteq> set (butlast (ids @ [nextID s]))" using j(1,15) t(7) in_set_butlastD [of _ ids] by auto
    show "maxFileSize t < 2 ^ 63" using j(14) t(8) by simp
  qed (use t in simp_all)
qed

lemma maybeRotateLocked_journal:
  assumes inv: "store_inv s" and J: "journal s ids gs" and "unat (nextID s) + 1 < 2 ^ 32" and n: "n < 2 ^ 32"
  shows "\<exists>t. maybeRotateLocked n s = (Inr (), t) \<and> store_inv t \<and> quiet s t \<and> (t = s \<and> written gs + n < 2 ^ 63 \<or> journal t (ids @ [nextID s]) [] \<and> nextID t = nextID s + 1 \<and>
    recovered (disk t) ids = recovered (disk s) (butlast ids) @ concat gs)"
proof -
  note j = journalD [OF J]
  obtain p where p: "active s = Some p" "did (dfs s ! p) = last ids" "dsize (dfs s ! p) = written gs" "p < length (dfs s)"
    using journal_active [OF J] unfolding written_def by (metis datafile.select_convs(1,4))
  show ?thesis
  proof (cases "dsize (dfs s ! p) = 0 \<or> dsize (dfs s ! p) + n \<le> maxFileSize s")
    case True
    then have "written gs + n < 2 ^ 63" using p(3) j(14) n by auto
    then show ?thesis using True p(1) inv by (simp add: maybeRotateLocked_def quiet_def)
  next
    case False
    obtain d where d: "SyncFile (dfile (dfs s ! p)) (disk s) = (Inr (), d)" "journal (s\<lparr>disk := d\<rparr>) ids gs"
        "recovered d (butlast ids) = recovered (disk s) (butlast ids)" "settled d (dataPath (last ids))"
      by (rule journal_sync [OF inv J p(1)])
    have free: "map_of (dir d) (dataPath (nextID s)) = None"
      using good_dirD(4) [OF journalD(2) [OF d(2)], of "nextID s"] j(8) by auto
    have fd: "faults d = []" using good_dirD(1) [OF journalD(2) [OF d(2)]] by simp
    note o = openNewActive_with_file [of "s\<lparr>disk := d\<rparr>"]
    obtain t where t: "maybeRotateLocked n s = (Inr (), t)" "disk t = with_file (nextID s) d" "nextID t = nextID s + 1"
        "active t = Some (length (dfs s))" "dfs t = dfs s @ [\<lparr> did = nextID s, dpath = dataPath (nextID s),
          dfile = \<lparr> ino = length (inodes d), fopen = True, fwr = True \<rparr>, dsize = 0 \<rparr>]"
        "hintJobs t = hintJobs s @ [last ids]" "maxFileSize t = maxFileSize s"
      using False p d(1) o free fd by (simp add: maybeRotateLocked_def on_disk_def Let_def nth_append)
    note ok = maybeRotateLocked_ok [OF inv t(1)]
    have "view t = view (s\<lparr>disk := d\<rparr>)"
      using ok store_inv_sync(2) [OF inv d(1)] by (simp add: quiet_def)
    then have "journal t (ids @ [nextID s]) []" "recovered (disk t) ids = recovered d (butlast ids) @ concat gs"
      using journal_new_file [OF d(2), of t "length (dfs s)"] d(4) assms(3) t by simp_all
    then show ?thesis using t(1,3) ok d(3) by simp
  qed
qed

section \<open>What a crash can leave\<close>

text \<open>The contents a replay gives after the first \<open>j\<close> writes to the active file.\<close>

definition left_with :: "fs \<Rightarrow> u32 list \<Rightarrow> krecord list list \<Rightarrow> nat \<Rightarrow> bytes \<Rightarrow> bytes option" where
  "left_with d ids gs j = contents_of (foldl (newest fst) Map.empty (map rec_view (recovered d (butlast ids) @ concat (take j gs))))"

text \<open>Whatever a crash leaves of the active file, the contents are among \<open>cs\<close>.\<close>

definition safe :: "store \<Rightarrow> (bytes \<Rightarrow> bytes option) set \<Rightarrow> bool" where
  "safe s cs \<longleftrightarrow> (\<exists>ids gs j0. journal s ids gs \<and> j0 \<le> length gs \<and> written (take j0 gs) \<le> saved (disk s) (last ids) \<and>
     (\<forall>j. j0 \<le> j \<longrightarrow> j \<le> length gs \<longrightarrow> left_with (disk s) ids gs j \<in> cs) \<and>
     (dirty s \<or> written gs \<le> saved (disk s) (last ids)))"

lemma left_with_all: "journal s ids gs \<Longrightarrow> left_with (disk s) ids gs (length gs) = contents s"
  by (simp add: left_with_def journalD(11))

lemma safe_crash:
  assumes "safe s cs" and c: "crash (disk s) d" and "unat (nextID s) \<le> 2 ^ 32 - 2"
  shows "\<exists>t. recover (blank_store opt h d) = (Inr (), t) \<and> store_ok t \<and> contents t \<in> cs"
proof -
  obtain ids gs j0 where J: "journal s ids gs" and j0: "j0 \<le> length gs" "written (take j0 gs) \<le> saved (disk s) (last ids)"
      "\<forall>j. j0 \<le> j \<longrightarrow> j \<le> length gs \<longrightarrow> left_with (disk s) ids gs j \<in> cs"
    using assms(1) unfolding safe_def by blast
  note jr = journalD [OF J]
  have b: "\<forall>i \<in> set ids. unat i < 2 ^ 32 - 2"
    using jr(8) assms(3) by (force simp: word_less_nat_alt)
  obtain t where t: "recover (blank_store opt h d) = (Inr (), t)" "store_ok t"
      "view t = foldl (newest fst) Map.empty (map rec_view (recovered d ids))"
    using recover_ok [OF crash_good_dir [OF c jr(2,4)] crash_good_hints [OF c J] b, of opt h] by blast
  obtain j where j: "j0 \<le> j" "j \<le> length gs" "recovered d ids = recovered (disk s) (butlast ids) @ concat (take j gs)"
    using crash_journal [OF c J j0(1)] j0(2) by (auto simp: written_def)
  have "contents t = left_with (disk s) ids gs j" using t(3) j(3) by (simp add: left_with_def)
  then show ?thesis using t(1,2) j0(3) j(1,2) by auto
qed

lemma safe_write_active:
  assumes inv: "store_inv s" and J: "journal s ids gs" and j0: "j0 \<le> length gs" "written (take j0 gs) \<le> saved (disk s) (last ids)"
      "\<forall>j. j0 \<le> j \<longrightarrow> j \<le> length gs \<longrightarrow> left_with (disk s) ids gs j \<in> cs"
    and w: "one_write recs" "length (encode_all recs) < 2 ^ 32" and sz: "written gs + length (encode_all recs) < 2 ^ 63"
  shows "\<exists>t. write_active recs s = (Inr (), t) \<and> nextID t = nextID s \<and> safe t (insert (contents t) cs) \<and>
    (syncMode s = SyncAlways \<longrightarrow> safe t {contents t})"
proof -
  obtain t where t: "write_active recs s = (Inr (), t)" "journal t ids (gs @ [recs])" "nextID t = nextID s"
      "dirty t \<longleftrightarrow> syncMode s \<noteq> SyncAlways" "recovered (disk t) (butlast ids) = recovered (disk s) (butlast ids)"
      "min (saved (disk s) (last ids)) (written gs) \<le> saved (disk t) (last ids)"
      "syncMode s = SyncAlways \<longrightarrow> written (gs @ [recs]) \<le> saved (disk t) (last ids)"
    using write_active_journal [OF inv J w sz] by blast
  have "written (take j0 gs) \<le> written gs"
    by (metis append_take_drop_id concat_append encode_all_append le_add1 length_append written_def)
  then have sv: "written (take j0 (gs @ [recs])) \<le> saved (disk t) (last ids)" using j0(1,2) t(6) by simp
  have lw: "left_with (disk t) ids (gs @ [recs]) j = (if j \<le> length gs then left_with (disk s) ids gs j else contents t)"
    if "j \<le> length (gs @ [recs])" for j
  proof (cases "j \<le> length gs")
    case True
    then show ?thesis by (simp add: left_with_def t(5))
  next
    case False
    then have "j = length (gs @ [recs])" using that by simp
    then show ?thesis using left_with_all [OF t(2)] False by simp
  qed
  have "safe t (insert (contents t) cs)"
    unfolding safe_def using t(2,4,7) j0(1,3) sv lw
    by (intro exI [of _ ids] exI [of _ "gs @ [recs]"] exI [of _ j0]) auto
  moreover have "safe t {contents t}" if "syncMode s = SyncAlways"
    unfolding safe_def using t(2,4,7) lw that
    by (intro exI [of _ ids] exI [of _ "gs @ [recs]"] exI [of _ "length (gs @ [recs])"]) auto
  ultimately show ?thesis using t(1,3) by blast
qed

lemma safe_write:
  assumes inv: "store_inv s" and "safe s cs" and w: "one_write recs" "length (encode_all recs) < 2 ^ 32" and "unat (nextID s) + 1 < 2 ^ 32"
  shows "\<exists>t. writeLocked recs s = (Inr (), t) \<and> unat (nextID t) \<le> unat (nextID s) + 1 \<and> safe t (insert (contents t) cs) \<and>
    (syncMode s = SyncAlways \<longrightarrow> safe t {contents t})"
proof -
  obtain ids gs j0 where J: "journal s ids gs" and j0: "j0 \<le> length gs" "written (take j0 gs) \<le> saved (disk s) (last ids)"
      "\<forall>j. j0 \<le> j \<longrightarrow> j \<le> length gs \<longrightarrow> left_with (disk s) ids gs j \<in> cs"
    using assms(2) unfolding safe_def by blast
  obtain u where u: "maybeRotateLocked (length (encode_all recs)) s = (Inr (), u)" "store_inv u" "quiet s u"
      "u = s \<and> written gs + length (encode_all recs) < 2 ^ 63 \<or> journal u (ids @ [nextID s]) [] \<and> nextID u = nextID s + 1 \<and>
         recovered (disk u) ids = recovered (disk s) (butlast ids) @ concat gs"
    using maybeRotateLocked_journal [OF inv J assms(5) w(2)] by blast
  have mode: "syncMode u = syncMode s" using u(3) by (simp add: quiet_def)
  have split: "writeLocked recs s = write_active recs u" using u(1) by (simp add: writeLocked_split)
  from u(4) show ?thesis
  proof
    assume "u = s \<and> written gs + length (encode_all recs) < 2 ^ 63"
    then show ?thesis using safe_write_active [OF inv J j0 w] split by auto
  next
    assume r: "journal u (ids @ [nextID s]) [] \<and> nextID u = nextID s + 1 \<and>
      recovered (disk u) ids = recovered (disk s) (butlast ids) @ concat gs"
    have "left_with (disk u) (ids @ [nextID s]) [] 0 = contents s"
      using r journalD(11) [OF J] by (simp add: left_with_def)
    moreover have "contents s \<in> cs" using j0(1,3) left_with_all [OF J] by auto
    ultimately have "\<exists>t. write_active recs u = (Inr (), t) \<and> nextID t = nextID u \<and> safe t (insert (contents t) cs) \<and>
        (syncMode u = SyncAlways \<longrightarrow> safe t {contents t})"
      using safe_write_active [OF u(2), of "ids @ [nextID s]" "[]" 0 cs recs] r w by (simp add: written_def)
    then show ?thesis using r split mode assms(5) by (auto simp: unat_word_ariths)
  qed
qed

section \<open>Histories\<close>

lemma safe_counters [simp]:
  "safe (s\<lparr>seq := n\<rparr>) cs = safe s cs" "safe (s\<lparr>nPut := a\<rparr>) cs = safe s cs" "safe (s\<lparr>nDel := b\<rparr>) cs = safe s cs"
  by (simp_all add: safe_def journal_def)

lemma one_write_flags:
  assumes "one_write rs" and "map flags rs' = map flags rs" and "list_all wf_rec rs'"
  shows "one_write rs'"
proof -
  consider r where "rs = [r]" "flags r AND flagBatch = 0" | xs r where "rs = xs @ [r]" "list_all inner xs" "closing r"
    using assms(1) unfolding one_write_def by blast
  then show ?thesis
  proof cases
    case (1 r)
    then show ?thesis using assms(2,3) by (auto simp: one_write_def map_eq_Cons_conv)
  next
    case (2 xs r)
    then obtain xs' r' where rs': "rs' = xs' @ [r']" "map flags xs' = map flags xs" "flags r' = flags r"
      using assms(2) by (auto simp: map_eq_append_conv)
    have "list_all (\<lambda>f. f AND flagBatch \<noteq> 0 \<and> f AND flagBatchEnd = 0) (map flags xs)"
      using 2(2) by (simp add: list_all_iff inner_def)
    then have "list_all inner xs'" unfolding rs'(2) [symmetric] by (simp add: list_all_iff inner_def)
    moreover have "closing r'" using 2(3) rs'(3) by (simp add: closing_def)
    ultimately show ?thesis using rs'(1) assms(3) unfolding one_write_def by blast
  qed
qed

lemma assign_seqs_flags: "assign_seqs n rs = (rs', m) \<Longrightarrow> map flags rs' = map flags rs"
proof (induction rs arbitrary: n rs')
  case (Cons r rs)
  then show ?case by (auto split: prod.splits)
qed simp

lemma batch_one_write:
  assumes "prs \<noteq> []" and "list_all (\<lambda>(k, v). valid_kv k v) prs"
  shows "one_write (batch_recs now prs)"
proof -
  obtain ps kv where prs: "prs = ps @ [kv]" using assms(1) by (metis rev_exhaust)
  let ?f = "\<lambda>(i, k, v). \<lparr> ts = now, rseq = 0,
    flags = (if i = length prs - 1 then flagBatch OR flagBatchEnd else flagBatch), key = k, val = v \<rparr>"
  have "batch_recs now prs = map ?f (zip [0..<length ps] ps) @ [?f (length ps, kv)]"
    by (simp add: batch_recs_def prs)
  moreover have "list_all inner (map ?f (zip [0..<length ps] ps))"
    by (auto simp: list_all_iff inner_def prs record_consts set_zip)
  moreover have "closing (?f (length ps, kv))" by (simp add: closing_def prs record_consts split: prod.splits)
  ultimately show ?thesis
    using batch_recs_facts(2) [of now prs] assms(2) unfolding one_write_def by blast
qed

lemma safe_append:
  assumes ok: "store_ok s" "\<not> closed s" and "safe s cs" and w: "one_write recs" "length (encode_all recs) < 2 ^ 32"
    and b: "unat (nextID s) + 1 < 2 ^ 32" "unat (seq s) + length recs < 2 ^ 64"
  shows "\<exists>t. appendLocked recs s = (Inr (), t) \<and> store_ok t \<and> \<not> closed t \<and> syncMode t = syncMode s \<and>
    unat (nextID t) \<le> unat (nextID s) + 1 \<and> unat (seq t) = unat (seq s) + length recs \<and>
    safe t (insert (contents t) cs) \<and> (syncMode s = SyncAlways \<longrightarrow> safe t {contents t})"
proof -
  obtain rs n where a: "assign_seqs (seq s) recs = (rs, n)" by fastforce
  have wf: "recs \<noteq> []" "list_all wf_rec recs" using w(1) by (auto simp: one_write_def)
  note asg = assign_seqs_wf [OF a]
  have inv: "store_inv (s\<lparr>seq := n\<rparr>)" using ok(1) by (simp add: store_ok_def store_inv_def)
  have ow: "one_write rs" by (rule one_write_flags [OF w(1) assign_seqs_flags [OF a]]) (use asg wf in simp)
  have len: "length (encode_all rs) < 2 ^ 32" using asg w(2) by simp
  obtain t where t: "writeLocked rs (s\<lparr>seq := n\<rparr>) = (Inr (), t)" "unat (nextID t) \<le> unat (nextID s) + 1"
      "safe t (insert (contents t) cs)" "syncMode s = SyncAlways \<longrightarrow> safe t {contents t}"
    using safe_write [OF inv _ ow len, of cs] assms(3) b(1) by auto
  have ap: "appendLocked recs s = (Inr (), t)" using t(1) a by (simp add: appendLocked_def)
  have "store_ok t" "seq t = seq s + of_nat (length recs)"
    using appendLocked_ok [OF ok(1) wf w(2) b(2)] ap by simp_all
  moreover have "unat (seq s + of_nat (length recs)) = unat (seq s) + length recs"
    using b(2) by (simp add: unat_word_ariths unat_of_nat)
  moreover have "wrote rs (Inr (), t) (s\<lparr>seq := n\<rparr>)"
    unfolding t(1) [symmetric] by (rule writeLocked_ok [OF inv]) (use asg wf w(2) in auto)
  ultimately show ?thesis using ap t(2-4) ok(2) by (simp add: wrote_def)
qed

lemma safe_insert: "safe s cs \<Longrightarrow> cs \<subseteq> cs' \<Longrightarrow> safe s cs'"
  unfolding safe_def by (meson subsetD)

lemma safe_perform:
  assumes ok: "store_ok s" "\<not> closed s" and sf: "safe s cs" and w: "write_ok a"
    and b: "unat (nextID s) + 1 < 2 ^ 32" "unat (seq s) + 2 ^ 32 < 2 ^ 64"
  shows "\<exists>r t. perform now a s = (r, t) \<and> store_ok t \<and> \<not> closed t \<and> syncMode t = syncMode s \<and>
    unat (nextID t) \<le> unat (nextID s) + 1 \<and> unat (seq t) \<le> unat (seq s) + 2 ^ 32 \<and>
    safe t (insert (contents t) cs) \<and> (r = Inr () \<longrightarrow> syncMode s = SyncAlways \<longrightarrow> safe t {contents t})"
proof (cases a)
  case (WPut k v)
  let ?r = "\<lparr> ts = now, rseq = 0, flags = 0, key = k, val = v \<rparr>"
  have wf: "wf_rec ?r" using w WPut valid_kv_wf [of ?r] by simp
  have "one_write [?r]" using wf by (simp add: one_write_def)
  from safe_append [OF ok sf this wf_rec_single [OF wf] b(1)] b(2) obtain t where
    "appendLocked [?r] s = (Inr (), t)" "store_ok t" "\<not> closed t" "syncMode t = syncMode s" "unat (nextID t) \<le> unat (nextID s) + 1"
    "unat (seq t) = unat (seq s) + 1" "safe t (insert (contents t) cs)" "syncMode s = SyncAlways \<longrightarrow> safe t {contents t}" by auto
  then show ?thesis using WPut w ok(2) by (simp add: Put_def valid_kv_def)
next
  case (WDelete k)
  let ?r = "\<lparr> ts = now, rseq = 0, flags = flagTombstone, key = k, val = [] \<rparr>"
  have k: "validateKey k = None" using w WDelete by simp
  show ?thesis
  proof (cases "contents s k = None")
    case True
    then have "Delete now k s = (Inl ErrKeyNotFound, s)" using Delete_outcome [OF ok k] b(2) by simp
    then show ?thesis using WDelete ok safe_insert [OF sf] by auto
  next
    case False
    have wf: "wf_rec ?r" using k valid_kv_wf [of ?r] by (simp add: valid_kv_def)
    have "one_write [?r]" using wf by (simp add: one_write_def record_consts)
    from safe_append [OF ok sf this wf_rec_single [OF wf] b(1)] b(2) obtain t where
      "appendLocked [?r] s = (Inr (), t)" "store_ok t" "\<not> closed t" "syncMode t = syncMode s" "unat (nextID t) \<le> unat (nextID s) + 1"
      "unat (seq t) = unat (seq s) + 1" "safe t (insert (contents t) cs)" "syncMode s = SyncAlways \<longrightarrow> safe t {contents t}" by auto
    then show ?thesis using WDelete Delete_present [OF ok k False] by simp
  qed
next
  case (WBatch prs)
  have prs: "prs \<noteq> []" "list_all (\<lambda>(k, v). valid_kv k v) prs" "sum_list (map kv_size prs) < 2 ^ 32" using w WBatch by simp_all
  have len: "length prs < 2 ^ 32" using prs(3) kv_size_length [of prs] by simp
  let ?rs = "batch_recs now prs"
  have sz: "length (encode_all ?rs) < 2 ^ 32" using prs(3) by (simp add: batch_recs_facts)
  have sq: "unat (seq s) + length ?rs < 2 ^ 64" using b(2) len by (simp add: batch_recs_facts)
  from safe_append [OF ok sf batch_one_write [OF prs(1,2)] sz b(1) sq] obtain t where
    t: "appendLocked ?rs s = (Inr (), t)" "store_ok t" "\<not> closed t" "syncMode t = syncMode s" "unat (nextID t) \<le> unat (nextID s) + 1"
    "unat (seq t) = unat (seq s) + length prs" "safe t (insert (contents t) cs)" "syncMode s = SyncAlways \<longrightarrow> safe t {contents t}"
    unfolding batch_recs_facts(1) by blast
  have "check_batch prs = None" using prs(2) by (simp add: check_batch_None)
  then show ?thesis using WBatch t prs(1) ok(2) len by (simp add: BatchPut_def zip_map_fst_snd)
qed

lemma safe_settled: "journal s ids gs \<Longrightarrow> written gs \<le> saved (disk s) (last ids) \<Longrightarrow> safe s {contents s}"
  unfolding safe_def using left_with_all [of s ids gs]
  by (intro exI [of _ ids] exI [of _ gs] exI [of _ "length gs"]) auto

lemma safe_Flush:
  assumes inv: "store_inv s" and "safe s cs" and t: "SyncStore s = (r, t)"
  shows "safe t {contents t}" and "r = Inr ()"
proof -
  obtain ids gs where J: "journal s ids gs" and clean: "dirty s \<or> written gs \<le> saved (disk s) (last ids)"
    using assms(2) unfolding safe_def by blast
  obtain p where p: "active s = Some p" using journal_active [OF J] by metis
  have "r = Inr () \<and> journal t ids gs \<and> written gs \<le> saved (disk t) (last ids)"
  proof (cases "dirty s")
    case True
    obtain d where d: "SyncFile (dfile (dfs s ! p)) (disk s) = (Inr (), d)" "journal (s\<lparr>disk := d\<rparr>) ids gs" "saved d (last ids) = written gs"
      by (rule journal_sync [OF inv J p])
    then have "t = s\<lparr>disk := d, dirty := False\<rparr>" "r = Inr ()" using t True p by (simp_all add: SyncStore_def on_disk_def)
    moreover have "journal (s\<lparr>disk := d, dirty := False\<rparr>) ids gs" using d(2) by (simp add: journal_def)
    ultimately show ?thesis using d(3) by simp
  next
    case False
    then show ?thesis using t J clean by (simp add: SyncStore_def)
  qed
  then show "safe t {contents t}" "r = Inr ()" using safe_settled [of t ids gs] by auto
qed

text \<open>
  What happens to a store: writes, and the syncs of the background task. \<open>lifetime\<close> also lists the
  states a crash may go back to: all since the last sync, where in mode \<open>SyncAlways\<close> every
  acknowledged write is one.
\<close>

datatype event = Write u64 mutation | Flush

fun lifetime :: "event list \<Rightarrow> store \<Rightarrow> store list \<Rightarrow> store \<times> store list" where
  "lifetime [] s cs = (s, cs)"
| "lifetime (Write now a # es) s cs =
     (case perform now a s of (r, t) \<Rightarrow>
        lifetime es t (if r = Inr () \<and> syncMode t = SyncAlways then [t] else cs @ [t]))"
| "lifetime (Flush # es) s cs = (case SyncStore s of (r, t) \<Rightarrow> lifetime es t (if r = Inr () then [t] else cs @ [t]))"

fun event_ok :: "event \<Rightarrow> bool" where
  "event_ok (Write now a) = write_ok a"
| "event_ok Flush = True"

lemma SyncStore_keeps:
  "store_ok s \<Longrightarrow> SyncStore s = (r, t) \<Longrightarrow> store_ok t \<and> closed t = closed s \<and> nextID t = nextID s \<and> seq t = seq s"
proof -
  assume ok: "store_ok s" and t: "SyncStore s = (r, t)"
  show "store_ok t \<and> closed t = closed s \<and> nextID t = nextID s \<and> seq t = seq s"
  proof (cases "dirty s \<and> active s \<noteq> None")
    case True
    then obtain p where p: "active s = Some p" by auto
    obtain x d where d: "SyncFile (dfile (dfs s ! p)) (disk s) = (x, d)" by fastforce
    have inv: "store_inv s" using ok by (simp add: store_ok_def)
    note q = store_inv_sync [OF inv d]
    have "store_ok (s\<lparr>disk := d\<rparr>)" using q ok by (simp add: store_ok_def quiet_def seq_ok_def)
    moreover have "store_ok (s\<lparr>disk := d, dirty := False\<rparr>) = store_ok (s\<lparr>disk := d\<rparr>)"
      by (simp add: store_ok_def store_inv_def seq_ok_def)
    moreover have "t = s\<lparr>disk := d\<rparr> \<or> t = s\<lparr>disk := d, dirty := False\<rparr>"
      using t True p d by (cases x) (auto simp: SyncStore_def on_disk_def)
    ultimately show ?thesis by auto
  next
    case False
    then have "SyncStore s = (Inr (), s)" by (cases "active s") (auto simp: SyncStore_def)
    then show ?thesis using t ok by simp
  qed
qed

lemma lifetime_safe:
  assumes "lifetime es s cs = (t, ds)" and "store_ok s" and "\<not> closed s" and "safe s (contents ` set cs)" and "list_all event_ok es"
    and "unat (nextID s) + length es < 2 ^ 32 - 1" and "unat (seq s) + 2 ^ 32 * length es < 2 ^ 64"
  shows "safe t (contents ` set ds) \<and> unat (nextID t) < 2 ^ 32 - 1"
  using assms
proof (induction es s cs rule: lifetime.induct)
  case (2 now a es s cs)
  obtain r u where u: "perform now a s = (r, u)" "store_ok u" "\<not> closed u" "syncMode u = syncMode s" "unat (nextID u) \<le> unat (nextID s) + 1"
      "unat (seq u) \<le> unat (seq s) + 2 ^ 32" "safe u (insert (contents u) (contents ` set cs))"
      "r = Inr () \<longrightarrow> syncMode s = SyncAlways \<longrightarrow> safe u {contents u}"
    using safe_perform [OF 2(3,4,5), of a now] 2(6-8) by auto
  let ?cs = "if r = Inr () \<and> syncMode u = SyncAlways then [u] else cs @ [u]"
  have "safe u (contents ` set ?cs)" using u(4,7,8) by auto
  moreover have "lifetime es u ?cs = (t, ds)" using 2(2) u(1) by simp
  moreover have "unat (nextID u) + length es < 2 ^ 32 - 1" "unat (seq u) + 2 ^ 32 * length es < 2 ^ 64"
    using 2(7,8) u(5,6) by simp_all
  ultimately show ?case using 2(1) [OF u(1) [symmetric]] u(2,3) 2(6) by simp
next
  case (3 es s cs)
  obtain r u where u: "SyncStore s = (r, u)" by fastforce
  have inv: "store_inv s" using 3(3) by (simp add: store_ok_def)
  note f = safe_Flush [OF inv 3(5) u] and k = SyncStore_keeps [OF 3(3) u]
  show ?case using 3(1) [OF u [symmetric]] 3(2,4,6-8) u f k by simp
qed simp


text \<open>
  C1. Acknowledged writes survive a crash: after any sequence of writes and background syncs on a
  disk without I/O errors, rotations included, whatever a crash leaves of the unsynced bytes,
  opening the directory again succeeds, and the contents are those after some prefix of the
  writes, never part of a batch, that contains everything up to the last sync; in mode
  \<open>SyncAlways\<close> that is every acknowledged write.
\<close>

theorem crash_keeps_prefix:
  assumes "store_ok s" and "\<not> closed s" and "journal s ids gs" and "written gs \<le> saved (disk s) (last ids)"
    and "list_all event_ok es" and "unat (nextID s) + length es < 2 ^ 32 - 1" and "unat (seq s) + 2 ^ 32 * length es < 2 ^ 64"
    and "lifetime es s [s] = (t, cs)" and "crash (disk t) d"
  shows "\<exists>u. recover (blank_store opt h d) = (Inr (), u) \<and> store_ok u \<and> (\<exists>v \<in> set cs. contents u = contents v)"
proof -
  have "safe s (contents ` set [s])" using safe_settled [OF assms(3,4)] by simp
  then have "safe t (contents ` set cs)" "unat (nextID t) \<le> 2 ^ 32 - 2"
    using lifetime_safe [OF assms(8,1,2) _ assms(5-7)] by auto
  from safe_crash [OF this(1) assms(9) this(2), of opt h] show ?thesis by fastforce
qed

text \<open>A crash that happens to lose nothing, and a new store.\<close>

lemma crash_lossless:
  "crash d (d\<lparr>dir := ddir d, faults := [], inodes := map (\<lambda>x. x\<lparr>durable := length (content x)\<rparr>) (inodes d)\<rparr>)"
  unfolding crash_def
proof (intro conjI allI impI)
  fix j assume "j < length (inodes d)"
  then show "\<exists>n \<ge> durable (inodes d ! j).
      inodes (d\<lparr>dir := ddir d, faults := [], inodes := map (\<lambda>x. x\<lparr>durable := length (content x)\<rparr>) (inodes d)\<rparr>) ! j =
      (inodes d ! j)\<lparr>content := take n (content (inodes d ! j)), durable := length (take n (content (inodes d ! j)))\<rparr>"
    by (intro exI [of _ "max (durable (inodes d ! j)) (length (content (inodes d ! j)))"]) simp
qed simp_all

lemma store_ex_journal: "journal store_ex [1] []" "written [] \<le> saved (disk store_ex) (last [1])"
proof -
  have "good_dir (disk store_ex) [1]"
    unfolding good_dir_def using parse_dataPath [of 1] by (auto simp: store_ex_def new_inode_def split: if_splits)
  moreover have "view store_ex = Map.empty" by (simp add: view_of_def store_ex_def lookup_new_index fun_eq_iff)
  ultimately show "journal store_ex [1] []"
    by (simp add: journal_def good_hints_def hinted_def recovered_def file_at_def) (simp add: store_ex_def new_inode_def)
  show "written [] \<le> saved (disk store_ex) (last [1])" by (simp add: written_def)
qed

theorem crash_keeps_prefix_witness:
  "\<exists>t cs d u. lifetime [Write 5 (WPut [0x61] [0x62])] store_ex [store_ex] = (t, cs) \<and> crash (disk t) d \<and>
     recover (blank_store options_ex [] d) = (Inr (), u) \<and> contents u [0x61] = Some [0x62]"
proof -
  let ?a = "WPut [0x61] [0x62]"
  obtain t where t: "perform 5 ?a store_ex = (Inr (), t)" "contents t = (contents store_ex)([0x61] \<mapsto> [0x62])"
    using Put_calm [OF store_ex_ok store_ex_calm(1,2) valid_kv_ex(1)] store_ex_calm(3) by fastforce
  have b: "unat (nextID store_ex) + 1 < 2 ^ 32 - 1" "unat (seq store_ex) + 2 ^ 32 < 2 ^ 64" by (simp_all add: store_ex_def)
  have ok: "event_ok (Write 5 ?a)" using valid_kv_ex(1) by simp
  have "syncMode t = SyncAlways"
    using safe_perform [OF store_ex_ok store_ex_calm(2) safe_settled [OF store_ex_journal], of ?a 5] ok b t(1)
    by (auto simp: store_ex_def)
  then have l: "lifetime [Write 5 ?a] store_ex [store_ex] = (t, [t])" using t(1) by simp
  let ?d = "(disk t)\<lparr>dir := ddir (disk t), faults := [], inodes := map (\<lambda>x. x\<lparr>durable := length (content x)\<rparr>) (inodes (disk t))\<rparr>"
  have "\<exists>u. recover (blank_store options_ex [] ?d) = (Inr (), u) \<and> store_ok u \<and> (\<exists>v \<in> set [t]. contents u = contents v)"
    by (rule crash_keeps_prefix [OF store_ex_ok store_ex_calm(2) store_ex_journal _ _ _ l crash_lossless]) (use ok b in simp_all)
  then show ?thesis using l crash_lossless [of "disk t"] t(2) by fastforce
qed

end
