(* ===== verification/Compaction.thy ===== *)
theory Compaction
  imports Recovery
begin

text \<open>
  The merge of immutable data files, \<open>Store.Compact\<close> of \<open>internal/engine/compact.go\<close>, its scheduling
  (\<open>shouldCompact\<close>, \<open>StartCompaction\<close>, the ticks of \<open>Store.background\<close>) and the accounting after it.

  A merge runs beside the writers and takes locks for short stretches only. \<open>env n\<close> is what the
  other goroutines do to the store in the \<open>n\<close>-th gap between two such stretches; the private work of
  the merge on its output files needs no gap inside.
\<close>

section \<open>Scheduling\<close>

definition shouldCompact :: "Options \<Rightarrow> store \<Rightarrow> bool" where
  "shouldCompact c s =
     (if closed s then False
      else if length (files s) < 2 then False
      else
        let dead = deadBytes s in
        if live s + dead = 0 then False
        else dead * snd (oCompactionThreshold c) \<ge> fst (oCompactionThreshold c) * (live s + dead))"

datatype tick = SyncTick | CompactTick

text \<open>What a tick does; a merge it starts runs on a goroutine of its own.\<close>

definition background_tick :: "Options \<Rightarrow> tick \<Rightarrow> store \<Rightarrow> store" where
  "background_tick c t s = (case t of
       SyncTick \<Rightarrow> if syncMode s = SyncInterval then ignore (SyncStore s) else s
     | CompactTick \<Rightarrow> if shouldCompact c s then snd (StartCompaction s) else s)"

section \<open>The merge\<close>

text \<open>
  The output files with their hint writers, oldest first; the last pair is the one in use. The
  files are pointers into \<open>dfs\<close>, like those of the store.
\<close>

type_synonym outs = "(dfptr \<times> hintWriter) list"

definition allocFileID :: "store \<Rightarrow> u32 \<times> store" where
  "allocFileID s = (nextID s, s\<lparr>nextID := nextID s + 1\<rparr>)"

definition newOut :: "store \<times> outs \<Rightarrow> (store \<times> outs, unit) res" where
  "newOut st = (case st of (s, outs) \<Rightarrow>
     let (i, s) = allocFileID s in
     (case on_disk (createDataFile i) s of
        (Inl er, s) \<Rightarrow> (Inl er, (s, outs))
      | (Inr df, s) \<Rightarrow>
          (case on_disk (newHintWriter i) s of
             (Inl er, s) \<Rightarrow> (Inl er, (s\<lparr>disk := ignore (Remove (dpath df) (disk s))\<rparr>, outs))
           | (Inr h, s) \<Rightarrow>
               let p = length (dfs s) in
               (Inr (), (s\<lparr>dfs := dfs s @ [df], files := AList.update i p (files s)\<rparr>, outs @ [(p, h)])))))"

definition drop_out :: "store \<Rightarrow> dfptr \<times> hintWriter \<Rightarrow> store" where
  "drop_out s ph = (case ph of (p, h) \<Rightarrow>
     s\<lparr>files := AList.delete (did (dfs s ! p)) (files s), dfs := (dfs s)[p := close (dfs s ! p)],
       disk := ignore (Remove (dpath (dfs s ! p)) (disk s))\<rparr>)"

definition cleanup :: "store \<times> outs \<Rightarrow> store" where
  "cleanup st = (case st of (s, outs) \<Rightarrow>
     foldl drop_out (s\<lparr>disk := foldl (\<lambda>d (p, h). abort h d) (disk s) outs\<rparr>) outs)"

text \<open>Appending a record to the output in use and listing it in the hint; its new location.\<close>

definition put_out :: "krecord \<Rightarrow> bytes \<Rightarrow> store \<times> outs \<Rightarrow> (store \<times> outs, entry) res" where
  "put_out r buf st = (case st of (s, outs) \<Rightarrow> (case last outs of (p, h) \<Rightarrow>
     let ps = dsize (dfs s ! p) in
     (case on_disk (WriteAt (dfile (dfs s ! p)) buf ps) s of
        (Inl er, s) \<Rightarrow> (Inl er, (s, outs))
      | (Inr _, s) \<Rightarrow>
          let s = s\<lparr>dfs := (dfs s)[p := (dfs s ! p)\<lparr>dsize := ps + length buf\<rparr>]\<rparr>;
              new = \<lparr> pos = ps, eseq = rseq r, fileID = did (dfs s ! p), esize = of_nat (length buf), tomb = False \<rparr>
          in
          (case on_disk (add (key r) new (buf ! 20) h) s of
             (Inl er, s) \<Rightarrow> (Inl er, (s, outs))
           | (Inr h, s) \<Rightarrow> (Inr new, (s, butlast outs @ [(p, h)]))))))"

text \<open>
  The body of the copy loop. The result is the new location, all zero if the source file is gone.
\<close>

definition copy_item :: "bytes \<times> entry \<Rightarrow> store \<times> outs \<Rightarrow> (store \<times> outs, entry) res" where
  "copy_item it st = (case (it, st) of ((k, e), (s, outs)) \<Rightarrow>
     (case map_of (files s) (fileID e) of
        None \<Rightarrow> (Inr zero_entry, (s, outs))
      | Some src \<Rightarrow>
          (case on_disk (ReadAt (dfile (dfs s ! src)) (unat (esize e)) (pos e)) s of
             (Inl er, s) \<Rightarrow> (Inl er, (s, outs))
           | (Inr buf, s) \<Rightarrow>
               (case decodeRecord buf of
                  Inl er \<Rightarrow> (Inl er, (s, outs))
                | Inr r \<Rightarrow>
                    let buf = clearBatchFlags buf in
                    andThen
                      (if outs = [] \<or> dsize (dfs s ! fst (last outs)) + length buf > maxFileSize s
                       then newOut (s, outs) else (Inr (), (s, outs)))
                      (\<lambda>_ st. put_out r buf st)))))"

text \<open>The index of an item is the number of the gap behind it.\<close>

fun copy_items :: "(nat \<Rightarrow> store \<Rightarrow> store) \<Rightarrow> nat \<Rightarrow> (bytes \<times> entry) list \<Rightarrow> store \<times> outs \<Rightarrow> (store \<times> outs, entry list) res" where
  "copy_items env n [] st = (Inr [], st)"
| "copy_items env n (it # its) st =
     andThen (copy_item it st) (\<lambda>m (s, outs).
     andThen (copy_items env (Suc n) its (env n s, outs)) (\<lambda>ms st. (Inr (m # ms), st)))"

fun sync_outs :: "outs \<Rightarrow> store \<Rightarrow> (store, unit) res" where
  "sync_outs [] s = (Inr (), s)"
| "sync_outs ((p, h) # os) s = andThen (on_disk (SyncFile (dfile (dfs s ! p))) s) (\<lambda>_ s. sync_outs os s)"

fun commit_outs :: "outs \<Rightarrow> store \<Rightarrow> (store, unit) res" where
  "commit_outs [] s = (Inr (), s)"
| "commit_outs ((p, h) # os) s = andThen (on_disk (commit h) s) (\<lambda>_ s. commit_outs os s)"

text \<open>
  Phase one: copy, sync, commit the hints. Any error gives up the merge.
\<close>

definition merge_out :: "(nat \<Rightarrow> store \<Rightarrow> store) \<Rightarrow> nat \<Rightarrow> (bytes \<times> entry) list \<Rightarrow> store \<Rightarrow> (store, entry list \<times> outs) res" where
  "merge_out env n items s =
     (case copy_items env n items (s, []) of
        (Inl er, st) \<Rightarrow> (Inl er, cleanup st)
      | (Inr moved, (s, outs)) \<Rightarrow>
          (case andThen (sync_outs outs s) (\<lambda>_ s. andThen (commit_outs outs s) (\<lambda>_ s. on_disk syncDir s)) of
             (Inl er, s) \<Rightarrow> (Inl er, cleanup (s, outs))
           | (Inr _, s) \<Rightarrow> (Inr (moved, outs), s)))"

text \<open>Phase two: entries that have not changed since the snapshot are moved, tombstones forgotten.\<close>

fun repoint :: "((bytes \<times> entry) \<times> entry) list \<Rightarrow> index \<Rightarrow> index option" where
  "repoint [] x = Some x"
| "repoint (((k, e), m) # ms) x =
     (if esize m = 0 then repoint ms x
      else (case idx_lookup x k of
          Some c \<Rightarrow>
            if eseq c = eseq e \<and> fileID c = fileID e then Option.bind (idx_put k m x) (repoint ms) else repoint ms x
        | None \<Rightarrow> repoint ms x))"

fun retire :: "(bytes \<times> entry) list \<Rightarrow> index \<Rightarrow> index option" where
  "retire [] x = Some x"
| "retire ((k, e) # zs) x =
     (case idx_lookup x k of
        Some c \<Rightarrow>
          if eseq c = eseq e \<and> fileID c = fileID e then Option.bind (idx_del k x) (retire zs) else retire zs x
      | None \<Rightarrow> retire zs x)"

text \<open>Both loops hold the index lock for 1024 keys at a time.\<close>

definition repointChunk :: nat where
  "repointChunk = 1024"

function in_chunks :: "(nat \<Rightarrow> store \<Rightarrow> store) \<Rightarrow> nat \<Rightarrow> ('a list \<Rightarrow> index \<Rightarrow> index option) \<Rightarrow> 'a list \<Rightarrow> store \<Rightarrow> (store, nat) res" where
  "in_chunks env n f xs s =
     (if xs = [] then (Inr n, s)
      else (case f (take repointChunk xs) (ix s) of
          None \<Rightarrow> (Inl Panic, s)
        | Some x \<Rightarrow> in_chunks env (Suc n) f (drop repointChunk xs) (env n (s\<lparr>ix := x\<rparr>))))"
  by pat_completeness auto
termination
  by (relation "measure (\<lambda>(env, n, f, xs, s). length xs)") (auto simp: repointChunk_def)

declare in_chunks.simps [simp del]

text \<open>The old files go, then the accounting starts afresh.\<close>

definition drop_merged :: "store \<Rightarrow> u32 \<Rightarrow> store" where
  "drop_merged s i =
     (let s = (case map_of (files s) i of
           Some p \<Rightarrow> s\<lparr>dfs := (dfs s)[p := close (dfs s ! p)], disk := ignore (Remove (dpath (dfs s ! p)) (disk s)),
                       files := AList.delete i (files s)\<rparr>
         | None \<Rightarrow> s)
      in s\<lparr>disk := ignore (Remove (hintPath i) (disk s))\<rparr>)"

definition recomputeUsage :: "store \<Rightarrow> store" where
  "recomputeUsage s =
     (let s = recountLocked s in s\<lparr>total := sum_list (map (\<lambda>(i, p). int (dsize (dfs s ! p))) (files s))\<rparr>)"

text \<open>Sealing the active file, and what the merge is about.\<close>

definition seal :: "store \<Rightarrow> (store, u64 \<times> u32) res" where
  "seal s =
     (case active s of
        None \<Rightarrow> (Inl Panic, s)
      | Some p \<Rightarrow>
          andThen
            (if dsize (dfs s ! p) > 0
             then andThen (on_disk (SyncFile (dfile (dfs s ! p))) s) (\<lambda>_ s.
                  andThen (openNewActive s) (\<lambda>_ s. (Inr (), s\<lparr>dirty := False\<rparr>)))
             else (Inr (), s))
            (\<lambda>_ s. (Inr (seq s, did (dfs s ! the (active s))), s)))"

definition merge_set :: "u32 \<Rightarrow> store \<Rightarrow> u32 list" where
  "merge_set activeID s = sort (filter (\<lambda>i. i \<noteq> activeID) (map fst (files s)))"

definition merge_snapshot :: "u32 list \<Rightarrow> store \<Rightarrow> ((bytes \<times> entry) list \<times> (bytes \<times> entry) list) option" where
  "merge_snapshot ids s =
     scan (heap (ix s)) (order (ix s)) [] []
       (\<lambda>n (items, retired).
         if fileID (ent n) \<notin> set ids then (True, (items, retired))
         else if tomb (ent n) then (True, (items, retired @ [(nkey n, ent n)]))
         else (True, (items @ [(nkey n, ent n)], retired)))
       ([], [])"

text \<open>Phase two as a whole, then the manifest, the old files and the accounting.\<close>

definition swap_over :: "(nat \<Rightarrow> store \<Rightarrow> store) \<Rightarrow> nat \<Rightarrow> u64 \<Rightarrow> u32 list \<Rightarrow> ((bytes \<times> entry) \<times> entry) list \<Rightarrow>
    (bytes \<times> entry) list \<Rightarrow> store \<Rightarrow> (store, unit) res" where
  "swap_over env n barrier ids ms retired s =
     andThen (in_chunks env n repoint ms s) (\<lambda>n s.
     andThen (in_chunks env n retire retired s) (\<lambda>n s.
       let s = s\<lparr>mergeSeq := barrier\<rparr>;
           s = env n (s\<lparr>disk := ignore (writeManifest barrier (disk s))\<rparr>);
           s = foldl drop_merged s ids;
           s = s\<lparr>disk := ignore (syncDir (disk s))\<rparr>
       in (Inr (), recomputeUsage s)))"

definition Compact_with :: "(nat \<Rightarrow> store \<Rightarrow> store) \<Rightarrow> store \<Rightarrow> (store, unit) res" where
  "Compact_with env s =
     (if closed s then (Inl ErrClosed, s)
      else andThen (seal s) (\<lambda>(barrier, activeID) s.
        let s = env 0 s; ids = merge_set activeID s; s = env 1 s in
        if ids = [] then (Inr (), s)
        else (case merge_snapshot ids s of
            None \<Rightarrow> (Inl Panic, s)
          | Some (items, retired) \<Rightarrow>
              andThen (merge_out env 3 items (env 2 s)) (\<lambda>(moved, outs) s.
              swap_over env (4 + length items) barrier ids (zip items moved) retired (env (3 + length items) s)))))"

abbreviation Compact :: "store \<Rightarrow> (store, unit) res" where
  "Compact \<equiv> Compact_with (\<lambda>_ s. s)"

text \<open>The goroutine of \<open>StartCompaction\<close>; its error is logged only.\<close>

definition run_compaction :: "(nat \<Rightarrow> store \<Rightarrow> store) \<Rightarrow> store \<Rightarrow> store" where
  "run_compaction env s = (ignore (Compact_with env s))\<lparr>compacting := False\<rparr>"

section \<open>Names on the disk\<close>

text \<open>Every name has a file of its own.\<close>

definition names_ok :: "fs \<Rightarrow> bool" where
  "names_ok d \<longleftrightarrow> (\<forall>n j. map_of (dir d) n = Some j \<longrightarrow> j < length (inodes d)) \<and>
     (\<forall>n n' j. map_of (dir d) n = Some j \<longrightarrow> map_of (dir d) n' = Some j \<longrightarrow> n = n')"

text \<open>The files under the names \<open>N\<close> stay as they are.\<close>

definition leaves :: "bytes set \<Rightarrow> fs \<Rightarrow> fs \<Rightarrow> bool" where
  "leaves N d d' \<longleftrightarrow> names_ok d' \<and> length (inodes d) \<le> length (inodes d') \<and>
     (\<forall>n \<in> N. map_of (dir d') n = map_of (dir d) n \<and> (\<forall>j. map_of (dir d) n = Some j \<longrightarrow> inodes d' ! j = inodes d ! j))"

lemma names_okD:
  assumes "names_ok d" and "map_of (dir d) n = Some j"
  shows "j < length (inodes d)" and "map_of (dir d) n' = Some j \<Longrightarrow> n = n'"
  using assms unfolding names_ok_def by blast+

lemma leavesD:
  assumes "leaves N d d'"
  shows "names_ok d'" and "length (inodes d) \<le> length (inodes d')" and "n \<in> N \<Longrightarrow> map_of (dir d') n = map_of (dir d) n"
    and "n \<in> N \<Longrightarrow> map_of (dir d) n = Some j \<Longrightarrow> inodes d' ! j = inodes d ! j"
  using assms unfolding leaves_def by blast+

lemma leaves_refl: "names_ok d \<Longrightarrow> leaves N d d"
  by (simp add: leaves_def)

lemma leaves_mono: "leaves N d d' \<Longrightarrow> N' \<subseteq> N \<Longrightarrow> leaves N' d d'"
  unfolding leaves_def by blast

lemma leaves_trans:
  assumes "leaves N d d1" and "leaves N d1 d2"
  shows "leaves N d d2"
  unfolding leaves_def
proof (intro conjI ballI allI impI)
  show "names_ok d2" "length (inodes d) \<le> length (inodes d2)" using leavesD(1,2) [OF assms(2)] leavesD(2) [OF assms(1)] by simp_all
  fix n assume n: "n \<in> N"
  show eq: "map_of (dir d2) n = map_of (dir d) n" using leavesD(3) [OF assms(1) n] leavesD(3) [OF assms(2) n] by simp
  fix j assume j: "map_of (dir d) n = Some j"
  then show "inodes d2 ! j = inodes d ! j"
    using leavesD(4) [OF assms(1) n j] leavesD(4) [OF assms(2) n, of j] leavesD(3) [OF assms(1) n] by simp
qed

lemma leaves_same: "names_ok d \<Longrightarrow> dir d' = dir d \<Longrightarrow> inodes d' = inodes d \<Longrightarrow> leaves N d d'"
  by (simp add: leaves_def names_ok_def)

lemma leaves_only:
  assumes "names_ok d" and "only_file j d d'" and "\<forall>n \<in> N. map_of (dir d) n \<noteq> Some j"
  shows "leaves N d d'"
proof -
  have o: "dir d' = dir d" "length (inodes d') = length (inodes d)" "\<forall>i. i \<noteq> j \<longrightarrow> inodes d' ! i = inodes d ! i"
    using assms(2) by (simp_all add: only_file_def)
  have "names_ok d'" using assms(1) o(1,2) by (simp add: names_ok_def)
  then show ?thesis using o assms(3) unfolding leaves_def by auto
qed

lemma leaves_own:
  assumes "names_ok d" and "only_file j d d'" and "map_of (dir d) n = Some j"
  shows "leaves (- {n}) d d'"
  by (rule leaves_only [OF assms(1,2)]) (use names_okD(2) [OF assms(1,3)] in blast)

lemma Remove_leaves:
  assumes "names_ok d"
  shows "leaves (- {n}) d (ignore (Remove n d))"
proof -
  obtain r d' where r: "Remove n d = (r, d')" by fastforce
  have "(dir d' = dir d \<or> dir d' = AList.delete n (dir d)) \<and> inodes d' = inodes d"
    using r by (auto simp: Remove_def split: option.splits prod.splits dest: fault_fields)
  moreover have "map_of (AList.delete n (dir d)) m = (if m = n then None else map_of (dir d) m)" for m by (simp add: delete_conv')
  ultimately show ?thesis
    using assms r unfolding leaves_def names_ok_def ignore_def by (auto split: if_splits)
qed

lemma Rename_leaves:
  assumes "names_ok d" and "Rename a b d = (r, d')"
  shows "leaves (- {a, b}) d d'"
proof -
  consider "dir d' = dir d" "inodes d' = inodes d"
    | j where "map_of (dir d) a = Some j" "dir d' = AList.update b j (AList.delete a (dir d))" "inodes d' = inodes d"
  proof (cases "map_of (dir d) a")
    case None
    then show ?thesis using that(1) assms(2) by (simp add: Rename_def)
  next
    case (Some j)
    obtain x d1 where f: "fault d = (x, d1)" by fastforce
    note ff = fault_fields [OF f]
    show ?thesis
    proof (cases "x = None \<and> \<not> (case map_of (dir d) b of None \<Rightarrow> False | Some j \<Rightarrow> isdir (inodes d ! j))")
      case True
      then show ?thesis using that(2) [OF Some] assms(2) Some f ff by (auto simp: Rename_def cong: option.case_cong)
    next
      case False
      then show ?thesis using that(1) assms(2) Some f ff by (cases x) (auto simp: Rename_def cong: option.case_cong)
    qed
  qed
  then show ?thesis
  proof cases
    case 1
    then show ?thesis using assms(1) by (intro leaves_same)
  next
    case (2 j)
    have m: "map_of (dir d') n = (if n = b then Some j else if n = a then None else map_of (dir d) n)" for n
      using 2(2) by (simp add: update_conv' delete_conv')
    have "n = a" if "map_of (dir d) n = Some j" for n using names_okD(2) [OF assms(1) 2(1) that] by simp
    then have "names_ok d'"
      using assms(1) 2(1,3) unfolding names_ok_def m by (auto split: if_splits)
    then show ?thesis using 2(3) unfolding leaves_def m by simp
  qed
qed

lemma fresh_leaves:
  assumes "names_ok d" and "dir d' = AList.update n (length (inodes d)) (dir d)" and "inodes d' = inodes d @ [x]"
  shows "leaves (- {n}) d d'"
proof -
  have m: "map_of (dir d') m = (if m = n then Some (length (inodes d)) else map_of (dir d) m)" for m
    using assms(2) by (simp add: update_conv')
  have lt: "j < length (inodes d)" if "map_of (dir d) m = Some j" for m j by (rule names_okD(1) [OF assms(1) that])
  have "names_ok d'"
    unfolding names_ok_def m
  proof (intro conjI allI impI)
    fix a j assume "(if a = n then Some (length (inodes d)) else map_of (dir d) a) = Some j"
    then show "j < length (inodes d')" using lt [of a j] assms(3) by (auto split: if_splits)
  next
    fix a b j assume "(if a = n then Some (length (inodes d)) else map_of (dir d) a) = Some j"
      "(if b = n then Some (length (inodes d)) else map_of (dir d) b) = Some j"
    then show "a = b" using lt [of a j] lt [of b j] names_okD(2) [OF assms(1), of a j b] by (auto split: if_splits)
  qed
  then show ?thesis using assms(3) lt unfolding leaves_def m by (auto simp: nth_append)
qed

lemma openTrunc_leaves:
  assumes "names_ok d" and "openTrunc n d = (r, d')"
  shows "leaves (- {n}) d d' \<and> (\<forall>f. r = Inr f \<longrightarrow> map_of (dir d') n = Some (ino f) \<and> fopen f \<and> fwr f)"
proof -
  obtain x d1 where f: "fault d = (x, d1)" by fastforce
  have d1: "dir d1 = dir d" "inodes d1 = inodes d" using fault_fields [OF f] by simp_all
  have n1: "names_ok d1" using assms(1) d1 by (simp add: names_ok_def)
  have l1: "leaves (- {n}) d d1" by (rule leaves_same [OF assms(1) d1])
  show ?thesis
  proof (cases x)
    case (Some y)
    then show ?thesis using assms(2) f l1 by (auto simp: openTrunc_def)
  next
    case None
    show ?thesis
    proof (cases "map_of (dir d1) n")
      case None: None
      let ?d = "d1\<lparr>inodes := inodes d1 @ [new_inode], dir := AList.update n (length (inodes d1)) (dir d1)\<rparr>"
      have "leaves (- {n}) d1 ?d" by (rule fresh_leaves [OF n1]) simp_all
      from leaves_trans [OF l1 this] show ?thesis
        using assms(2) f \<open>x = None\<close> None by (auto simp: openTrunc_def update_conv')
    next
      case (Some j)
      let ?f = "\<lparr> ino = j, fopen = True, fwr = True \<rparr>"
      have "leaves (- {n}) d1 (set_file ?f [] 0 d1)"
        by (rule leaves_own [OF n1 _ Some]) (use set_file_only [of ?f d1] in simp)
      from leaves_trans [OF l1 this] show ?thesis
        using assms(2) f \<open>x = None\<close> Some l1 by (auto simp: openTrunc_def Let_def set_file_def split: if_splits)
    qed
  qed
qed

lemma createDataFile_leaves:
  assumes "names_ok d" and "createDataFile i d = (r, d')"
  shows "leaves (- {dataPath i}) d d'"
proof (cases r)
  case (Inl er)
  have "same_disk d d'" using createDataFile_Inl assms(2) unfolding Inl by blast
  then show ?thesis using assms(1) by (intro leaves_same) (simp_all add: same_disk_def)
next
  case (Inr df)
  note c = createDataFile_Inr [OF assms(2) [unfolded Inr]]
  show ?thesis by (rule fresh_leaves [OF assms(1) c(3,4)])
qed

text \<open>A hint writer of file \<open>i\<close> whose temporary file is still there.\<close>

definition hint_of :: "u32 \<Rightarrow> fs \<Rightarrow> hintWriter \<Rightarrow> bool" where
  "hint_of i d h \<longleftrightarrow> tmp h = tmpPath (hintPath i) \<and> dest h = hintPath i \<and>
     map_of (dir d) (tmpPath (hintPath i)) = Some (ino (hf h))"

definition names_of :: "u32 \<Rightarrow> bytes set" where
  "names_of i = {dataPath i, hintPath i, tmpPath (hintPath i)}"

lemma tmpPath_inj [simp]: "tmpPath a = tmpPath b \<longleftrightarrow> a = b"
  by (simp add: tmpPath_def)

lemma names_of_disjoint: "i \<noteq> j \<Longrightarrow> names_of i \<inter> names_of j = {}"
  by (auto simp: names_of_def)

lemma bufWrite_leaves:
  assumes "names_ok d" and "map_of (dir d) n = Some (ino f)" and "bufWrite f b bs d = (r, d')"
  shows "leaves (- {n}) d d' \<and> map_of (dir d') n = Some (ino f)"
proof -
  have "only_file (ino f) d d'"
  proof (cases "length b + length bs \<le> 2 ^ 20")
    case False
    obtain x d1 where x: "fileAppend f (b @ bs) d = (x, d1)" by fastforce
    then show ?thesis using assms(3) False fileAppend_only [OF x] by (cases x) (auto simp: bufWrite_def)
  qed (use assms(3) in \<open>simp add: bufWrite_def\<close>)
  then show ?thesis using leaves_own [OF assms(1) _ assms(2)] assms(2) by (simp add: only_file_def)
qed

lemma newHintWriter_leaves:
  assumes "names_ok d" and "newHintWriter i d = (r, d')"
  shows "leaves (- {tmpPath (hintPath i)}) d d' \<and> (\<forall>h. r = Inr h \<longrightarrow> hint_of i d' h)"
proof -
  let ?t = "tmpPath (hintPath i)"
  obtain x d1 where x: "openTrunc ?t d = (x, d1)" by fastforce
  note o = openTrunc_leaves [OF assms(1) x]
  show ?thesis
  proof (cases x)
    case (Inl er)
    then show ?thesis using assms(2) x o by (auto simp: newHintWriter_def Let_def)
  next
    case (Inr f)
    obtain y d2 where y: "bufWrite f [] hintMagic d1 = (y, d2)" by fastforce
    have n1: "names_ok d1" using leavesD(1) o by blast
    have b: "leaves (- {?t}) d1 d2" "map_of (dir d2) ?t = Some (ino f)"
      using bufWrite_leaves [OF n1 _ y] o Inr by auto
    have l: "leaves (- {?t}) d d2" using leaves_trans o b(1) by blast
    show ?thesis
    proof (cases y)
      case (Inl er)
      then have "d' = ignore (Remove ?t d2)" "r = Inl er" using assms(2) x Inr y by (auto simp: newHintWriter_def Let_def)
      then show ?thesis using leaves_trans [OF l Remove_leaves [OF leavesD(1) [OF l]]] by simp
    next
      case (Inr b')
      then show ?thesis using assms(2) x \<open>x = Inr f\<close> y l b(2) by (auto simp: newHintWriter_def Let_def hint_of_def)
    qed
  qed
qed

lemma add_leaves:
  assumes "names_ok d" and "hint_of i d h" and "add k e fl h d = (r, d')"
  shows "leaves (- {tmpPath (hintPath i)}) d d' \<and> hint_of i d' h \<and> (\<forall>h'. r = Inr h' \<longrightarrow> hint_of i d' h')"
proof -
  let ?t = "tmpPath (hintPath i)"
  have t: "map_of (dir d) ?t = Some (ino (hf h))" using assms(2) by (simp add: hint_of_def)
  obtain x d1 where x: "bufWrite (hf h) (hbuf h) (hint_header k e fl) d = (x, d1)" by fastforce
  note 1 = bufWrite_leaves [OF assms(1) t x]
  show ?thesis
  proof (cases x)
    case (Inl er)
    then show ?thesis using assms(2,3) x 1 by (auto simp: add_def hint_of_def)
  next
    case (Inr b)
    obtain y d2 where y: "bufWrite (hf h) b k d1 = (y, d2)" by fastforce
    have "names_ok d1" using 1 leavesD(1) by blast
    note 2 = bufWrite_leaves [OF this conjunct2 [OF 1] y]
    have "leaves (- {?t}) d d2" using leaves_trans 1 2 by blast
    then show ?thesis using assms(2,3) x Inr y 2 by (cases y) (auto simp: add_def hint_of_def)
  qed
qed

lemma commit_leaves:
  assumes "names_ok d" and "hint_of i d h" and "commit h d = (r, d')"
  shows "leaves (- {tmpPath (hintPath i), hintPath i}) d d'"
proof -
  let ?t = "tmpPath (hintPath i)" and ?N = "- {tmpPath (hintPath i), hintPath i}"
  have h: "tmp h = ?t" "dest h = hintPath i" "map_of (dir d) ?t = Some (ino (hf h))" using assms(2) by (simp_all add: hint_of_def)
  have rm: "leaves ?N d (ignore (Remove ?t d1))" if "leaves ?N d d1" for d1
    by (rule leaves_trans [OF that leaves_mono [OF Remove_leaves [OF leavesD(1) [OF that]]]]) blast
  have own: "leaves ?N d1 d2" if "names_ok d1" "only_file (ino (hf h)) d1 d2" "dir d1 = dir d" for d1 d2
    using leaves_mono [OF leaves_own [OF that(1,2), of ?t]] that(3) h(3) by auto
  obtain x d1 where x: "(if hbuf h = [] then (Inr (), d) else fileAppend (hf h) (hbuf h) d) = (x, d1)" by fastforce
  have o1: "only_file (ino (hf h)) d d1" using x fileAppend_only by (cases "hbuf h = []") auto
  have l1: "leaves ?N d d1" "dir d1 = dir d" using own [OF assms(1) o1] o1 by (simp_all add: only_file_def)
  obtain y d2 where y: "SyncFile (hf h) d1 = (y, d2)" by fastforce
  note o2 = SyncFile_only [OF y]
  have l2: "leaves ?N d d2" "dir d2 = dir d"
    using leaves_trans [OF l1(1) own [OF leavesD(1) [OF l1(1)] o2 l1(2)]] o2 l1(2) by (simp_all add: only_file_def)
  obtain z d3 where z: "fault d2 = (z, d3)" by fastforce
  have l3: "leaves ?N d d3"
    using leaves_trans [OF l2(1) leaves_same [OF leavesD(1) [OF l2(1)]]] fault_fields [OF z] by blast
  obtain w d4 where w: "Rename ?t (hintPath i) d3 = (w, d4)" by fastforce
  have l4: "leaves ?N d d4" by (rule leaves_trans [OF l3 Rename_leaves [OF leavesD(1) [OF l3] w]])
  have "d' = ignore (Remove ?t d1) \<or> d' = ignore (Remove ?t d2) \<or> d' = ignore (Remove ?t d3) \<or> d' = d4"
    using assms(3) x y z w h(1,2)
    by (cases x; cases y; cases z) (auto simp: commit_def abort_def split: if_splits)
  then show ?thesis using rm l1(1) l2(1) l3 l4 by blast
qed

lemma writeManifest_leaves:
  assumes "names_ok d"
  shows "leaves (- {manifestPath, manifestTmp}) d (ignore (writeManifest n d))"
proof -
  let ?N = "- {manifestPath, manifestTmp}"
  have rm: "leaves ?N d (ignore (Remove manifestTmp d1))" if "leaves ?N d d1" for d1
    by (rule leaves_trans [OF that leaves_mono [OF Remove_leaves [OF leavesD(1) [OF that]]]]) blast
  obtain x d1 where x: "openTrunc manifestTmp d = (x, d1)" by fastforce
  note o = openTrunc_leaves [OF assms x]
  have l1: "leaves ?N d d1" by (rule leaves_mono [OF conjunct1 [OF o]]) blast
  show ?thesis
  proof (cases x)
    case (Inl er)
    then show ?thesis using x l1 by (simp add: writeManifest_def ignore_def)
  next
    case (Inr f)
    have m: "map_of (dir d1) manifestTmp = Some (ino f)" using o Inr by blast
    have own: "leaves ?N d2 d3" if "names_ok d2" "only_file (ino f) d2 d3" "dir d2 = dir d1" for d2 d3
      using leaves_mono [OF leaves_own [OF that(1,2), of manifestTmp]] that(3) m by auto
    obtain y d2 where y: "fileAppend f (manifest_text n) d1 = (y, d2)" by fastforce
    note o2 = fileAppend_only [OF y]
    have l2: "leaves ?N d d2" "dir d2 = dir d1"
      using leaves_trans [OF l1 own [OF leavesD(1) [OF l1] o2]] o2 by (simp_all add: only_file_def)
    obtain z d3 where z: "SyncFile f d2 = (z, d3)" by fastforce
    note o3 = SyncFile_only [OF z]
    have l3: "leaves ?N d d3" by (rule leaves_trans [OF l2(1) own [OF leavesD(1) [OF l2(1)] o3 l2(2)]])
    obtain w d4 where w: "Rename manifestTmp manifestPath d3 = (w, d4)" by fastforce
    have l4: "leaves ?N d d4" by (rule leaves_trans [OF l3 leaves_mono [OF Rename_leaves [OF leavesD(1) [OF l3] w]]]) blast
    obtain v d5 where v: "syncDir d4 = (v, d5)" by fastforce
    have l5: "leaves ?N d d5"
      using leaves_trans [OF l4 leaves_same [OF leavesD(1) [OF l4]]] syncDir_frame [OF v] by blast
    have "ignore (writeManifest n d) \<in> {ignore (Remove manifestTmp d2), ignore (Remove manifestTmp d3), d4, d5}"
      using x Inr y z w v by (cases y; cases z; cases w) (simp_all add: writeManifest_def ignore_def)
    then show ?thesis using rm [OF l2(1)] rm [OF l3] l4 l5 by auto
  qed
qed

section \<open>Stores\<close>

lemma files_ok_leaves:
  assumes "files_ok fl ds d" and "leaves N d d'" and "\<And>i. map_of fl i \<noteq> None \<Longrightarrow> dataPath i \<in> N"
  shows "files_ok fl ds d'" and "log_of fl ds d' = log_of fl ds d"
proof -
  have same: "map_of (dir d') (dataPath i) = Some (ino (dfile (ds ! p)))" "inodes d' ! ino (dfile (ds ! p)) = inodes d ! ino (dfile (ds ! p))"
      "ino (dfile (ds ! p)) < length (inodes d')" if "map_of fl i = Some p" for i p
    using leavesD(2-4) [OF assms(2)] assms(3) [of i] files_okD(5,7) [OF assms(1) that] that by auto
  show "files_ok fl ds d'"
    using assms(1) same unfolding files_ok_def by auto
  show "log_of fl ds d' = log_of fl ds d"
    using same(2) by (auto simp: log_of_def fun_eq_iff split: option.splits)
qed

lemma view_of_cong:
  assumes "index_ok x L" and "\<And>k e. idx_lookup x k = Some e \<Longrightarrow> L' (fileID e) = L (fileID e)"
  shows "index_ok x L'" and "view_of x L' = view_of x L"
proof -
  show "index_ok x L'"
    using assms unfolding index_ok_def by (metis stored_same_log)
  show "view_of x L' = view_of x L"
    using assms(2) by (auto simp: view_of_def rec_of_def fun_eq_iff split: option.splits intro!: map_option_cong)
qed

lemma store_ok_disk:
  assumes "store_ok s" and "leaves N (disk s) d" and "\<And>i. map_of (files s) i \<noteq> None \<Longrightarrow> dataPath i \<in> N"
  shows "store_ok (s\<lparr>disk := d\<rparr>)" and "view (s\<lparr>disk := d\<rparr>) = view s" and "logs (s\<lparr>disk := d\<rparr>) = logs s"
proof -
  have "files_ok (files s) (dfs s) (disk s)" using assms(1) by (simp add: store_ok_def store_inv_def)
  note f = files_ok_leaves [OF this assms(2,3)]
  show "logs (s\<lparr>disk := d\<rparr>) = logs s" using f(2) by simp
  then show "view (s\<lparr>disk := d\<rparr>) = view s" by simp
  with f show "store_ok (s\<lparr>disk := d\<rparr>)" using assms(1) by (simp add: store_ok_def store_inv_def seq_ok_def)
qed

text \<open>An index entry is in an open file.\<close>

lemma entry_file:
  assumes "store_ok s" and "idx_lookup (ix s) k = Some e"
  shows "map_of (files s) (fileID e) \<noteq> None"
proof -
  have "index_ok (ix s) (logs s)" using assms(1) by (simp add: store_ok_def store_inv_def)
  then obtain r where "stored (logs s) e r" using assms(2) by (auto simp: index_ok_def)
  then have "logs s (fileID e) \<noteq> []" using rec_size_pos [of r] by (auto simp: stored_def simp del: rec_size_pos)
  then show ?thesis by (cases "map_of (files s) (fileID e)") (simp_all add: log_of_def)
qed

text \<open>Closing a file nothing refers to.\<close>

lemma files_ok_drop:
  assumes "files_ok fl ds d" and "map_of fl i = Some p"
  shows "files_ok (AList.delete i fl) (ds[p := close (ds ! p)]) d"
    and "log_of (AList.delete i fl) (ds[p := close (ds ! p)]) d = (log_of fl ds d)(i := [])"
proof -
  have m: "map_of (AList.delete i fl) j = Some q \<longleftrightarrow> j \<noteq> i \<and> map_of fl j = Some q" for j q by (simp add: delete_conv')
  have other: "ds[p := close (ds ! p)] ! q = ds ! q" if "map_of fl j = Some q" "j \<noteq> i" for j q
    using files_okD(2) [OF assms(1)] that assms(2) by (metis nth_list_update_neq)
  show "files_ok (AList.delete i fl) (ds[p := close (ds ! p)]) d"
    unfolding files_ok_def m
  proof (intro conjI allI impI)
    show "distinct (map fst (AList.delete i fl))" using assms(1) by (simp add: files_ok_def distinct_delete)
  next
    fix j q assume j: "j \<noteq> i \<and> map_of fl j = Some q"
    note f = files_okD [OF assms(1) conjunct2 [OF j]] and o = other [OF conjunct2 [OF j] conjunct1 [OF j]]
    show "q < length (ds[p := close (ds ! p)])" using f(1) by simp
    show "did (ds[p := close (ds ! p)] ! q) = j" "dpath (ds[p := close (ds ! p)] ! q) = dataPath j"
      "fopen (dfile (ds[p := close (ds ! p)] ! q))" "ino (dfile (ds[p := close (ds ! p)] ! q)) < length (inodes d)"
      "dsize (ds[p := close (ds ! p)] ! q) \<le> length (content (inodes d ! ino (dfile (ds[p := close (ds ! p)] ! q))))"
      "map_of (dir d) (dataPath j) = Some (ino (dfile (ds[p := close (ds ! p)] ! q)))"
      using f unfolding o by blast+
  next
    fix j k q r assume j: "j \<noteq> i \<and> map_of fl j = Some q" "k \<noteq> i \<and> map_of fl k = Some r"
      "ino (dfile (ds[p := close (ds ! p)] ! q)) = ino (dfile (ds[p := close (ds ! p)] ! r))"
    then show "j = k" using files_ok_inj [OF assms(1)] other by metis
  qed
  show "log_of (AList.delete i fl) (ds[p := close (ds ! p)]) d = (log_of fl ds d)(i := [])"
  proof
    fix j
    show "log_of (AList.delete i fl) (ds[p := close (ds ! p)]) d j = ((log_of fl ds d)(i := [])) j"
      using other [of j] by (auto simp: log_of_def delete_conv' split: option.splits)
  qed
qed

section \<open>Merging beside other operations\<close>

text \<open>The files \<open>H\<close> are open and none of them is the active one.\<close>

definition held :: "u32 set \<Rightarrow> store \<Rightarrow> bool" where
  "held H s \<longleftrightarrow> (\<forall>i \<in> H. \<exists>p. map_of (files s) i = Some p \<and> active s \<noteq> Some p)"

text \<open>
  What the merge relies on: other operations keep the store invariant, leave the files \<open>H\<close> and what
  belongs to them on the disk alone, and put no new entry into them. \<open>R\<close> is what they do to the contents.
\<close>

definition apart :: "u32 set \<Rightarrow> store \<Rightarrow> store \<Rightarrow> bool" where
  "apart H s t \<longleftrightarrow> store_ok t \<and>
     (\<forall>i \<in> H. \<forall>p. map_of (files s) i = Some p \<longrightarrow> map_of (files t) i = Some p \<and> dfs t ! p = dfs s ! p \<and> active t \<noteq> Some p) \<and>
     leaves (\<Union>i \<in> H. names_of i) (disk s) (disk t) \<and>
     (\<forall>k e. idx_lookup (ix t) k = Some e \<longrightarrow> fileID e \<in> H \<longrightarrow> idx_lookup (ix s) k = Some e)"

definition writers :: "((bytes \<Rightarrow> bytes option) \<times> (bytes \<Rightarrow> bytes option)) set \<Rightarrow> (nat \<Rightarrow> store \<Rightarrow> store) \<Rightarrow> bool" where
  "writers R env \<longleftrightarrow> (\<forall>n s H. store_ok s \<longrightarrow> names_ok (disk s) \<longrightarrow> held H s \<longrightarrow>
     apart H s (env n s) \<and> (contents s, contents (env n s)) \<in> R)"

lemma apartD:
  assumes "apart H s t"
  shows "store_ok t" and "leaves (\<Union>i \<in> H. names_of i) (disk s) (disk t)"
    and "i \<in> H \<Longrightarrow> map_of (files s) i = Some p \<Longrightarrow> map_of (files t) i = Some p \<and> dfs t ! p = dfs s ! p \<and> active t \<noteq> Some p"
    and "idx_lookup (ix t) k = Some e \<Longrightarrow> fileID e \<in> H \<Longrightarrow> idx_lookup (ix s) k = Some e"
  using assms unfolding apart_def by blast+

lemma store_okD:
  assumes "store_ok s"
  shows "files_ok (files s) (dfs s) (disk s)" and "active_ok (active s) (files s) (dfs s)" and "index_ok (ix s) (logs s)"
  using assms by (simp_all add: store_ok_def store_inv_def)

lemma heldD: "held H s \<Longrightarrow> i \<in> H \<Longrightarrow> map_of (files s) i = Some p \<Longrightarrow> active s \<noteq> Some p"
  unfolding held_def by (metis option.inject)

lemma held_file: "held H s \<Longrightarrow> i \<in> H \<Longrightarrow> map_of (files s) i \<noteq> None"
  unfolding held_def by auto

lemma apart_held: "held H s \<Longrightarrow> apart H s t \<Longrightarrow> held H t"
  unfolding held_def using apartD(3) by blast

lemma apart_log:
  assumes ok: "store_ok s" and h: "held H s" and a: "apart H s t" and i: "i \<in> H"
  shows "logs t i = logs s i"
proof -
  obtain p where p: "map_of (files s) i = Some p" using h i unfolding held_def by blast
  note t = apartD(3) [OF a i p]
  have n: "dataPath i \<in> (\<Union>i \<in> H. names_of i)" using i by (auto simp: names_of_def)
  have "inodes (disk t) ! ino (dfile (dfs s ! p)) = inodes (disk s) ! ino (dfile (dfs s ! p))"
    by (rule leavesD(4) [OF apartD(2) [OF a] n files_okD(7) [OF store_okD(1) [OF ok] p]])
  then show ?thesis using p t by (simp add: log_of_def)
qed

text \<open>The output files of the merge.\<close>

definition out_ids :: "store \<Rightarrow> outs \<Rightarrow> u32 set" where
  "out_ids s outs = (\<lambda>(p, h). did (dfs s ! p)) ` set outs"

definition out_ok :: "store \<Rightarrow> dfptr \<times> hintWriter \<Rightarrow> bool" where
  "out_ok s ph \<longleftrightarrow> (case ph of (p, h) \<Rightarrow> map_of (files s) (did (dfs s ! p)) = Some p \<and> fwr (dfile (dfs s ! p)) \<and>
     hint_of (did (dfs s ! p)) (disk s) h)"

definition merging :: "u32 set \<Rightarrow> store \<Rightarrow> outs \<Rightarrow> bool" where
  "merging M s outs \<longleftrightarrow> store_ok s \<and> names_ok (disk s) \<and> held (M \<union> out_ids s outs) s \<and> M \<inter> out_ids s outs = {} \<and>
     list_all (out_ok s) outs \<and> distinct (map fst outs) \<and>
     (\<forall>k e. idx_lookup (ix s) k = Some e \<longrightarrow> fileID e \<notin> out_ids s outs)"

lemma mergingD:
  assumes "merging M s outs"
  shows "store_ok s" and "names_ok (disk s)" and "held (M \<union> out_ids s outs) s" and "M \<inter> out_ids s outs = {}"
    and "list_all (out_ok s) outs" and "distinct (map fst outs)"
    and "idx_lookup (ix s) k = Some e \<Longrightarrow> fileID e \<notin> out_ids s outs"
  using assms unfolding merging_def by blast+

lemma merging_out:
  assumes "merging M s outs" and "(p, h) \<in> set outs"
  shows "map_of (files s) (did (dfs s ! p)) = Some p" "fwr (dfile (dfs s ! p))" "hint_of (did (dfs s ! p)) (disk s) h"
    "did (dfs s ! p) \<in> out_ids s outs" "active s \<noteq> Some p"
proof -
  have "out_ok s (p, h)" using mergingD(5) [OF assms(1)] assms(2) by (simp add: list_all_iff)
  then show o: "map_of (files s) (did (dfs s ! p)) = Some p" "fwr (dfile (dfs s ! p))" "hint_of (did (dfs s ! p)) (disk s) h"
    by (simp_all add: out_ok_def)
  show i: "did (dfs s ! p) \<in> out_ids s outs" using assms(2) by (force simp: out_ids_def)
  show "active s \<noteq> Some p" using heldD [OF mergingD(3) [OF assms(1)] _ o(1)] i by blast
qed

lemma merging_apart:
  assumes m: "merging M s outs" and a: "apart (M \<union> out_ids s outs) s t"
  shows "merging M t outs" and "out_ids t outs = out_ids s outs"
proof -
  note o = merging_out [OF m]
  have ptr: "map_of (files t) (did (dfs s ! p)) = Some p" "dfs t ! p = dfs s ! p" if "(p, h) \<in> set outs" for p h
    using apartD(3) [OF a _ o(1) [OF that]] o(4) [OF that] by blast+
  show ids: "out_ids t outs = out_ids s outs" using ptr(2) unfolding out_ids_def by (intro image_cong) auto
  have "out_ok t (p, h)" if "(p, h) \<in> set outs" for p h
  proof -
    have "tmpPath (hintPath (did (dfs s ! p))) \<in> (\<Union>i \<in> M \<union> out_ids s outs. names_of i)"
      using o(4) [OF that] by (auto simp: names_of_def)
    from leavesD(3) [OF apartD(2) [OF a] this] show ?thesis
      using ptr [OF that] o(2,3) [OF that] by (simp add: out_ok_def hint_of_def)
  qed
  moreover have "fileID e \<notin> out_ids s outs" if "idx_lookup (ix t) k = Some e" for k e
    using apartD(4) [OF a that] mergingD(7) [OF m] by blast
  ultimately show "merging M t outs"
    unfolding merging_def ids
    using apartD(1) [OF a] leavesD(1) [OF apartD(2) [OF a]] apart_held [OF mergingD(3) [OF m] a] mergingD(4,6) [OF m]
    by (auto simp: list_all_iff)
qed

lemma merging_disk:
  assumes m: "merging M s outs" and l: "leaves N (disk s) d" and "\<And>i. map_of (files s) i \<noteq> None \<Longrightarrow> dataPath i \<in> N"
    and "\<And>i. i \<in> out_ids s outs \<Longrightarrow> map_of (dir d) (tmpPath (hintPath i)) = map_of (dir (disk s)) (tmpPath (hintPath i))"
  shows "merging M (s\<lparr>disk := d\<rparr>) outs" and "logs (s\<lparr>disk := d\<rparr>) = logs s"
proof -
  note k = store_ok_disk [OF mergingD(1) [OF m] l assms(3)] and o = merging_out [OF m]
  have "out_ok (s\<lparr>disk := d\<rparr>) (p, h)" if "(p, h) \<in> set outs" for p h
    using o(1-3) [OF that] assms(4) [OF o(4) [OF that]] by (simp add: out_ok_def hint_of_def)
  then show "merging M (s\<lparr>disk := d\<rparr>) outs"
    using mergingD [OF m] k(1) leavesD(1) [OF l] by (auto simp: merging_def out_ids_def held_def list_all_iff)
  show "logs (s\<lparr>disk := d\<rparr>) = logs s" by (rule k(3))
qed

lemma merging_nextID [simp]: "merging M (s\<lparr>nextID := n\<rparr>) outs = merging M s outs"
  by (simp add: merging_def store_ok_def store_inv_def seq_ok_def held_def out_ids_def out_ok_def list_all_iff)

text \<open>A step of the copy phase: the index is not touched, logs only grow.\<close>

definition grows :: "store \<Rightarrow> outs \<Rightarrow> store \<Rightarrow> outs \<Rightarrow> bool" where
  "grows s outs t outs' \<longleftrightarrow> ix t = ix s \<and> log_ext (logs s) (logs t) \<and> out_ids s outs \<subseteq> out_ids t outs'"

lemma grows_refl [simp]: "grows s outs s outs"
  by (simp add: grows_def log_ext_def)

lemma log_ext_trans: "log_ext a b \<Longrightarrow> log_ext b c \<Longrightarrow> log_ext a c"
  unfolding log_ext_def by (metis append.assoc)

lemma grows_trans: "grows s a t b \<Longrightarrow> grows t b u c \<Longrightarrow> grows s a u c"
  unfolding grows_def by (auto intro: log_ext_trans)

lemma grows_view: "store_ok s \<Longrightarrow> grows s a t b \<Longrightarrow> view t = view s"
  using view_of_ext(2) [OF store_okD(3)] by (simp add: grows_def)

lemma grows_same: "ix t = ix s \<Longrightarrow> logs t = logs s \<Longrightarrow> out_ids t b = out_ids s a \<Longrightarrow> grows s a t b"
  by (simp add: grows_def log_ext_def)

lemma fileAppend_error: "fileAppend f bs d = (Inl er, d') \<Longrightarrow> er = ErrIO"
  by (auto simp: fileAppend_def dest: WriteAt_not_Panic)

lemma bufWrite_error: "bufWrite f b bs d = (Inl er, d') \<Longrightarrow> er = ErrIO"
  by (auto simp: bufWrite_def andThen_Inl split: if_splits dest: fileAppend_error)

lemma openTrunc_error: "openTrunc n d = (Inl er, d') \<Longrightarrow> er = ErrIO"
  by (auto simp: openTrunc_def Let_def split: prod.splits option.splits if_splits)

lemma newHintWriter_error:
  assumes "newHintWriter i d = (Inl er, d')"
  shows "er = ErrIO"
proof (cases "openTrunc (tmpPath (hintPath i)) d")
  case (Pair x d1)
  show ?thesis
  proof (cases x)
    case (Inl e)
    then show ?thesis using assms Pair openTrunc_error by (auto simp: newHintWriter_def Let_def)
  next
    case (Inr f)
    obtain y d2 where y: "bufWrite f [] hintMagic d1 = (y, d2)" by fastforce
    then have "y = Inl er" using assms Pair Inr by (cases y) (auto simp: newHintWriter_def Let_def)
    then show ?thesis using bufWrite_error y by blast
  qed
qed

lemma add_error: "add k e fl h d = (Inl er, d') \<Longrightarrow> er = ErrIO"
  by (auto simp: add_def andThen_Inl dest: bufWrite_error)

text \<open>Taking a new file into the store.\<close>

lemma store_ok_new_file:
  assumes ok: "store_ok s" and f: "files_ok (AList.update i (length (dfs s)) (files s)) (dfs s @ [df]) d"
    and l: "log_of (AList.update i (length (dfs s)) (files s)) (dfs s @ [df]) d = logs s" and i: "map_of (files s) i = None"
  shows "store_ok (s\<lparr>disk := d, dfs := dfs s @ [df], files := AList.update i (length (dfs s)) (files s)\<rparr>)"
proof -
  obtain p where p: "active s = Some p" "p < length (dfs s)"
      "\<not> fopen (dfile (dfs s ! p)) \<or> map_of (files s) (did (dfs s ! p)) = Some p \<and> fwr (dfile (dfs s ! p))"
    using store_okD(2) [OF ok] by (auto simp: active_ok_def)
  have "active_ok (active s) (AList.update i (length (dfs s)) (files s)) (dfs s @ [df])"
    using p i by (auto simp: active_ok_def nth_append update_conv')
  then show ?thesis using ok f l by (simp add: store_ok_def store_inv_def seq_ok_def)
qed

lemma newOut_ok:
  assumes m: "merging M s outs" and n: "newOut (s, outs) = (r, (t, outs'))"
  shows "merging M t outs' \<and> grows s outs t outs' \<and> r \<noteq> Inl Panic \<and> (\<forall>u. r = Inr u \<longrightarrow> outs' \<noteq> [])"
proof -
  define i where "i = nextID s"
  let ?s = "s\<lparr>nextID := i + 1\<rparr>"
  have ms: "merging M ?s outs" using m by simp
  note ok = mergingD [OF ms]
  obtain x d1 where x: "createDataFile i (disk s) = (x, d1)" by fastforce
  note l1 = createDataFile_leaves [OF mergingD(2) [OF m] x]
  show ?thesis
  proof (cases x)
    case (Inl er)
    have er: "er = ErrIO" "same_disk (disk s) d1" using createDataFile_Inl [OF x [unfolded Inl]] by simp_all
    have "leaves UNIV (disk s) d1" using er(2) leaves_same [OF mergingD(2) [OF m]] by (simp add: same_disk_def)
    from merging_disk [OF ms, of UNIV d1] this leavesD(3) [OF this] have "merging M (?s\<lparr>disk := d1\<rparr>) outs" "logs (?s\<lparr>disk := d1\<rparr>) = logs s" by simp_all
    moreover have "r = Inl er" "t = ?s\<lparr>disk := d1\<rparr>" "outs' = outs"
      using n x Inl by (auto simp: newOut_def allocFileID_def on_disk_def i_def)
    ultimately show ?thesis using er(1) by (auto simp: grows_same out_ids_def)
  next
    case (Inr df)
    note c = createDataFile_Inr [OF x [unfolded Inr]] and fc = files_ok_create [OF store_okD(1) [OF mergingD(1) [OF m]] x [unfolded Inr]]
    obtain y d2 where y: "newHintWriter i d1 = (y, d2)" by fastforce
    have nh: "leaves (- {tmpPath (hintPath i)}) d1 d2" "y = Inr h \<Longrightarrow> hint_of i d2 h" for h
      using newHintWriter_leaves [OF leavesD(1) [OF l1] y] by blast+
    have l2: "leaves (- names_of i) (disk s) d2"
      by (rule leaves_trans [OF leaves_mono [OF l1] leaves_mono [OF nh(1)]]) (auto simp: names_of_def)
    have fresh: "i \<notin> out_ids s outs" "i \<notin> M"
      using fc(3) held_file [OF mergingD(3) [OF m], of i] by auto
    have data: "dataPath j \<in> - names_of i" if "map_of (files s) j \<noteq> None" for j
      using that fc(3) by (auto simp: names_of_def)
    have tmps: "tmpPath (hintPath j) \<in> - names_of i" if "j \<in> out_ids s outs" for j
      using that fresh(1) by (auto simp: names_of_def)
    show ?thesis
    proof (cases y)
      case (Inl er)
      let ?d = "ignore (Remove (dataPath i) d2)"
      have "leaves (- names_of i) (disk s) ?d"
        by (rule leaves_trans [OF l2 leaves_mono [OF Remove_leaves [OF leavesD(1) [OF l2]]]]) (auto simp: names_of_def)
      from merging_disk [OF ms, of "- names_of i" ?d] this data leavesD(3) [OF this tmps]
      have "merging M (?s\<lparr>disk := ?d\<rparr>) outs" "logs (?s\<lparr>disk := ?d\<rparr>) = logs s" by (simp_all add: out_ids_def)
      moreover have "r = Inl er" "t = ?s\<lparr>disk := ?d\<rparr>" "outs' = outs"
        using n x Inr y Inl c(1) by (auto simp: newOut_def allocFileID_def on_disk_def i_def)
      moreover have "er \<noteq> Panic" using newHintWriter_error [OF y [unfolded Inl]] by simp
      ultimately show ?thesis by (auto simp: grows_same out_ids_def)
    next
      case (Inr h)
      let ?t = "?s\<lparr>disk := d2, dfs := dfs s @ [df], files := AList.update i (length (dfs s)) (files s)\<rparr>"
      have t: "r = Inr ()" "t = ?t" "outs' = outs @ [(length (dfs s), h)]"
        using n x \<open>x = Inr df\<close> y Inr by (auto simp: newOut_def allocFileID_def on_disk_def i_def Let_def)
      have "dataPath j \<in> - {tmpPath (hintPath i)}" for j by simp
      note f2 = files_ok_leaves [OF fc(1) nh(1) this]
      have lg: "log_of (files ?t) (dfs ?t) (disk ?t) = logs s" using f2(2) fc(2) by simp
      have "store_ok (s\<lparr>disk := d2, dfs := dfs s @ [df], files := AList.update i (length (dfs s)) (files s)\<rparr>)"
        by (rule store_ok_new_file [OF mergingD(1) [OF m] f2(1) _ fc(3)]) (use f2(2) fc(2) in simp)
      then have sk: "store_ok ?t" by (simp add: store_ok_def store_inv_def seq_ok_def)
      have old: "p < length (dfs s)" "did ((dfs s @ [df]) ! p) = did (dfs s ! p)" "(dfs s @ [df]) ! p = dfs s ! p" if "(p, h') \<in> set outs" for p h'
        using files_okD(1) [OF store_okD(1) [OF mergingD(1) [OF m]] merging_out(1) [OF m that]] by (simp_all add: nth_append)
      have "out_ids ?t outs = out_ids s outs" unfolding out_ids_def using old by (intro image_cong) auto
      then have ids: "out_ids ?t outs' = insert i (out_ids s outs)" using c(1) by (auto simp: t(3) out_ids_def)
      have "merging M ?t outs'"
        unfolding merging_def
      proof (intro conjI)
        show "store_ok ?t" by (rule sk)
        show "names_ok (disk ?t)" using leavesD(1) [OF l2] by simp
        show "held (M \<union> out_ids ?t outs') ?t"
          unfolding ids held_def
        proof
          fix j assume "j \<in> M \<union> insert i (out_ids s outs)"
          then show "\<exists>p. map_of (files ?t) j = Some p \<and> active ?t \<noteq> Some p"
            using mergingD(3) [OF m] store_okD(2) [OF mergingD(1) [OF m]]
            by (cases "j = i") (auto simp: held_def update_conv' active_ok_def)
        qed
        show "M \<inter> out_ids ?t outs' = {}" unfolding ids using mergingD(4) [OF m] fresh(2) by auto
        show "distinct (map fst outs')" using mergingD(6) [OF m] old(1) by (fastforce simp: t(3))
        have "out_ok ?t (p, h')" if o: "(p, h') \<in> set outs" for p h'
        proof -
          note q = merging_out [OF m o]
          have "did (dfs s ! p) \<noteq> i" using q(4) fresh(1) by auto
          moreover have "map_of (dir d2) (tmpPath (hintPath (did (dfs s ! p)))) = map_of (dir (disk s)) (tmpPath (hintPath (did (dfs s ! p))))"
            by (rule leavesD(3) [OF l2 tmps [OF q(4)]])
          ultimately show ?thesis using q(1-3) old(3) [OF o] by (simp add: out_ok_def update_conv' hint_of_def)
        qed
        moreover have "out_ok ?t (length (dfs s), h)"
          using nh(2) [OF Inr] c(1) by (simp add: out_ok_def update_conv')
        ultimately show "list_all (out_ok ?t) outs'" by (auto simp: t(3) list_all_iff)
        show "\<forall>k e. idx_lookup (ix ?t) k = Some e \<longrightarrow> fileID e \<notin> out_ids ?t outs'"
          unfolding ids using mergingD(7) [OF m] entry_file [OF mergingD(1) [OF m]] fc(3) by fastforce
      qed
      moreover have "grows s outs ?t outs'" using lg ids by (auto simp: grows_def log_ext_def)
      ultimately show ?thesis using t by simp
    qed
  qed
qed

section \<open>Copying a record\<close>

text \<open>The location a record was copied to.\<close>

definition moved_ok :: "store \<Rightarrow> outs \<Rightarrow> bytes \<times> entry \<Rightarrow> entry \<Rightarrow> bool" where
  "moved_ok s outs it n \<longleftrightarrow> (case it of (k, e) \<Rightarrow> fileID n \<in> out_ids s outs \<and> eseq n = eseq e \<and>
     (\<exists>r. stored (logs s) e r \<and> stored (logs s) n (lone r) \<and> key r = k))"

lemma ReadAt_stored:
  assumes "files_ok (files s) (dfs s) (disk s)" and "stored (logs s) e r" and "map_of (files s) (fileID e) = Some p"
    and "ReadAt (dfile (dfs s ! p)) (unat (esize e)) (pos e) (disk s) = (x, d)"
  shows "same_disk (disk s) d" and "x = Inr (encode r) \<or> x = Inl ErrIO"
proof -
  note ok = files_okD [OF assms(1,3)]
  let ?c = "content (the_file (disk s) (dfile (dfs s ! p)))"
  have log: "logs s (fileID e) = take (dsize (dfs s ! p)) ?c" by (simp add: log_of_def assms(3) the_file_def)
  have c: "bslice (pos e) (pos e + rec_size r) ?c = encode r" "pos e + rec_size r \<le> length ?c"
    using assms(2) bslice_take [of "pos e + rec_size r" "dsize (dfs s ! p)" "pos e" ?c]
    by (simp_all add: stored_def log)
  show "same_disk (disk s) d" by (rule ReadAt_same [OF assms(4)])
  show "x = Inr (encode r) \<or> x = Inl ErrIO"
    using assms(4) ok(3) c stored_size [OF assms(2)]
    by (auto simp: ReadAt_def fault_def Let_def the_file_def split: if_splits list.splits nat.splits)
qed

lemma merging_frame:
  assumes m: "merging M s outs" and "store_ok (s\<lparr>disk := d\<rparr>)" and "dir d = dir (disk s)" and "names_ok d"
  shows "merging M (s\<lparr>disk := d\<rparr>) outs"
  using mergingD [OF m] assms(2-4) by (auto simp: merging_def out_ids_def held_def list_all_iff out_ok_def hint_of_def)

lemma write_out_error:
  assumes m: "merging M s outs" and o: "(p, h) \<in> set outs"
    and w: "WriteAt (dfile (dfs s ! p)) buf (dsize (dfs s ! p)) (disk s) = (Inl er, d)"
  shows "merging M (s\<lparr>disk := d\<rparr>) outs" and "logs (s\<lparr>disk := d\<rparr>) = logs s" and "er = ErrIO"
proof -
  note ok = mergingD [OF m] and q = merging_out [OF m o]
  note fo = store_okD(1) [OF ok(1)]
  have on: "only_file (ino (dfile (dfs s ! p))) (disk s) d" by (rule WriteAt_only [OF w])
  note wp = WriteAt_prefix [OF w files_okD(5,6) [OF fo q(1)]]
  have keep: "take (dsize (dfs s ! q)) (content (inodes d ! ino (dfile (dfs s ! q)))) =
      take (dsize (dfs s ! q)) (content (inodes (disk s) ! ino (dfile (dfs s ! q)))) \<and>
      dsize (dfs s ! q) \<le> length (content (inodes d ! ino (dfile (dfs s ! q))))" if "map_of (files s) j = Some q" for j q
  proof (cases "ino (dfile (dfs s ! q)) = ino (dfile (dfs s ! p))")
    case True
    then have "q = p" using files_ok_inj [OF fo that q(1)] that q(1) by simp
    then show ?thesis using wp by simp
  next
    case False
    then show ?thesis using on files_okD(6) [OF fo that] by (simp add: only_file_def)
  qed
  have d: "dir d = dir (disk s)" "length (inodes (disk s)) \<le> length (inodes d)" using on by (simp_all add: only_file_def)
  note f = files_ok_frame [OF fo d keep]
  show l: "logs (s\<lparr>disk := d\<rparr>) = logs s" using f(2) by simp
  have "store_ok (s\<lparr>disk := d\<rparr>)" using ok(1) f l by (simp add: store_ok_def store_inv_def seq_ok_def)
  moreover have "names_ok d" using leaves_only [OF ok(2) on, of "{}"] leavesD(1) by blast
  ultimately show "merging M (s\<lparr>disk := d\<rparr>) outs" using merging_frame [OF m _ d(1)] by blast
  show "er = ErrIO" using WriteAt_not_Panic(1) w by auto
qed

lemma write_out_ok:
  assumes m: "merging M s outs" and o: "(p, h) \<in> set outs"
    and w: "WriteAt (dfile (dfs s ! p)) buf (dsize (dfs s ! p)) (disk s) = (Inr u, d)"
    and t: "t = s\<lparr>disk := d, dfs := (dfs s)[p := (dfs s ! p)\<lparr>dsize := dsize (dfs s ! p) + length buf\<rparr>]\<rparr>"
  shows "merging M t outs" and "logs t = (logs s)(did (dfs s ! p) := logs s (did (dfs s ! p)) @ buf)"
    and "out_ids t outs = out_ids s outs" and "length (logs s (did (dfs s ! p))) = dsize (dfs s ! p)"
proof -
  note ok = mergingD [OF m] and q = merging_out [OF m o]
  note fo = store_okD(1) [OF ok(1)]
  note f = files_ok_append [OF fo q(1) w]
  have on: "only_file (ino (dfile (dfs s ! p))) (disk s) d" by (rule WriteAt_only [OF w])
  have pl: "p < length (dfs s)" by (rule files_okD(1) [OF fo q(1)])
  have same: "did (dfs t ! x) = did (dfs s ! x)" "dfile (dfs t ! x) = dfile (dfs s ! x)" for x
    using pl by (auto simp: t nth_list_update)
  show lg: "logs t = (logs s)(did (dfs s ! p) := logs s (did (dfs s ! p)) @ buf)" using f(2) by (simp add: t)
  show ids: "out_ids t outs = out_ids s outs" by (simp add: out_ids_def same)
  show "length (logs s (did (dfs s ! p))) = dsize (dfs s ! p)"
    using files_okD(6) [OF fo q(1)] q(1) by (simp add: log_of_def)
  have "log_ext (logs s) (logs t)" unfolding lg by (rule log_ext_append)
  note v = view_of_ext [OF store_okD(3) [OF ok(1)] this]
  have "active_ok (active t) (files t) (dfs t)"
    using store_okD(2) [OF ok(1)] unfolding active_ok_def same by (simp add: t)
  then have "store_ok t" using ok(1) f(1) v by (simp add: t store_ok_def store_inv_def seq_ok_def)
  moreover have "names_ok d" using leaves_only [OF ok(2) on, of "{}"] leavesD(1) by blast
  moreover have "list_all (out_ok t) outs"
  proof -
    have "files t = files s" "dir (disk t) = dir (disk s)" using on by (simp_all add: t only_file_def)
    then have "out_ok t x = out_ok s x" for x by (simp add: out_ok_def same hint_of_def split: prod.split)
    then show ?thesis using ok(5) by (simp add: list_all_iff)
  qed
  ultimately show "merging M t outs" using ok unfolding merging_def ids by (simp add: t held_def)
qed

lemma add_out_ok:
  assumes m: "merging M s outs" and o: "outs \<noteq> []" "last outs = (p, h)"
    and a: "add k e fl h (disk s) = (r, d)"
  shows "logs (s\<lparr>disk := d\<rparr>) = logs s" and "r = Inl er \<Longrightarrow> merging M (s\<lparr>disk := d\<rparr>) outs \<and> er = ErrIO"
    and "r = Inr h' \<Longrightarrow> merging M (s\<lparr>disk := d\<rparr>) (butlast outs @ [(p, h')])"
    and "out_ids (s\<lparr>disk := d\<rparr>) (butlast outs @ [(p, h')]) = out_ids s outs"
proof -
  have mem: "(p, h) \<in> set outs" using o last_in_set by metis
  note q = merging_out [OF m mem]
  let ?i = "did (dfs s ! p)" and ?s = "s\<lparr>disk := d\<rparr>"
  have al: "leaves (- {tmpPath (hintPath ?i)}) (disk s) d" "hint_of ?i d h" "r = Inr h'' \<Longrightarrow> hint_of ?i d h''" for h''
    using add_leaves [OF mergingD(2) [OF m] q(3) a] by blast+
  have tmps: "map_of (dir d) (tmpPath (hintPath j)) = map_of (dir (disk s)) (tmpPath (hintPath j))" for j
    using leavesD(3) [OF al(1), of "tmpPath (hintPath j)"] al(2) q(3) by (cases "j = ?i") (auto simp: hint_of_def)
  note md = merging_disk [OF m al(1) _ tmps]
  have ms: "merging M ?s outs" "logs ?s = logs s" by (rule md; simp)+
  show "logs ?s = logs s" by (rule ms(2))
  show "r = Inl er \<Longrightarrow> merging M ?s outs \<and> er = ErrIO" using ms(1) add_error a by blast
  have outs: "outs = butlast outs @ [(p, h)]" using o append_butlast_last_id by metis
  have "out_ids ?s (butlast outs @ [(p, h')]) = out_ids ?s (butlast outs @ [(p, h)])" for h' by (simp add: out_ids_def)
  then have ids: "out_ids ?s (butlast outs @ [(p, h')]) = out_ids ?s outs" for h' using outs by simp
  show "out_ids ?s (butlast outs @ [(p, h')]) = out_ids s outs" unfolding ids by (simp add: out_ids_def)
  assume r: "r = Inr h'"
  have "list_all (out_ok ?s) (butlast outs @ [(p, h)])" using mergingD(5) [OF ms(1)] outs by simp
  then have "list_all (out_ok ?s) (butlast outs @ [(p, h')])" using al(3) [OF r] by (auto simp: out_ok_def)
  moreover have "distinct (map fst (butlast outs @ [(p, h)]))" using mergingD(6) [OF ms(1)] outs by simp
  ultimately show "merging M ?s (butlast outs @ [(p, h')])"
    using mergingD(1-4) [OF ms(1)] mergingD(7) [OF ms(1)] unfolding merging_def ids by simp
qed

lemma same_disk_merging:
  assumes "merging M s outs" and "same_disk (disk s) d"
  shows "merging M (s\<lparr>disk := d\<rparr>) outs" and "logs (s\<lparr>disk := d\<rparr>) = logs s"
proof -
  have "leaves UNIV (disk s) d" using leaves_same [OF mergingD(2) [OF assms(1)]] assms(2) by (simp add: same_disk_def)
  note md = merging_disk [OF assms(1) this]
  show "merging M (s\<lparr>disk := d\<rparr>) outs" "logs (s\<lparr>disk := d\<rparr>) = logs s"
    by (rule md; use assms(2) in \<open>simp add: same_disk_def\<close>)+
qed

lemma put_out_ok:
  assumes m: "merging M s outs" and o: "outs \<noteq> []" and r: "stored (logs s) e r" "key r = k" "\<not> tomb e"
    and x: "put_out r (encode (lone r)) (s, outs) = (x, (t, outs'))"
  shows "merging M t outs' \<and> grows s outs t outs' \<and> x \<noteq> Inl Panic \<and> (\<forall>n. x = Inr n \<longrightarrow> moved_ok t outs' (k, e) n)"
proof -
  obtain p h where ph: "last outs = (p, h)" by fastforce
  have mem: "(p, h) \<in> set outs" using o ph last_in_set by metis
  let ?buf = "encode (lone r)" and ?i = "did (dfs s ! p)"
  obtain y d where w: "WriteAt (dfile (dfs s ! p)) ?buf (dsize (dfs s ! p)) (disk s) = (y, d)" by fastforce
  show ?thesis
  proof (cases y)
    case (Inl er)
    note we = write_out_error [OF m mem w [unfolded Inl]]
    have "x = Inl er" "t = s\<lparr>disk := d\<rparr>" "outs' = outs" using x ph w Inl by (auto simp: put_out_def on_disk_def Let_def)
    then show ?thesis using we by (auto simp: grows_same out_ids_def)
  next
    case (Inr u)
    define s2 where "s2 = s\<lparr>disk := d, dfs := (dfs s)[p := (dfs s ! p)\<lparr>dsize := dsize (dfs s ! p) + length ?buf\<rparr>]\<rparr>"
    note w2 = write_out_ok [OF m mem w [unfolded Inr] s2_def]
    have pl: "p < length (dfs s)" by (rule files_okD(1) [OF store_okD(1) [OF mergingD(1) [OF m]] merging_out(1) [OF m mem]])
    let ?n = "\<lparr> pos = dsize (dfs s ! p), eseq = rseq r, fileID = ?i, esize = of_nat (length ?buf), tomb = False \<rparr>"
    have di: "did (dfs s2 ! p) = ?i" using pl by (simp add: s2_def)
    have ext: "log_ext (logs s) (logs s2)" unfolding w2(2) by (rule log_ext_append)
    have st: "stored (logs s2) ?n (lone r)"
      using r w2(4) wf_rec_encodedSize [of "lone r"] bslice_mid [of "logs s ?i" "dsize (dfs s ! p)" ?buf "dsize (dfs s ! p) + rec_size (lone r)" "[]"]
      by (simp add: stored_def w2(2) encodedSize_def rec_size_def)
    obtain z d2 where a: "add (key r) ?n (?buf ! 20) h (disk s2) = (z, d2)" by fastforce
    note ao = add_out_ok [OF w2(1) o ph a]
    have g: "grows s outs (s2\<lparr>disk := d2\<rparr>) outs" if "out_ids (s2\<lparr>disk := d2\<rparr>) outs = out_ids s outs"
      using that ao(1) ext by (simp add: grows_def s2_def)
    show ?thesis
    proof (cases z)
      case (Inl er)
      have "x = Inl er" "t = s2\<lparr>disk := d2\<rparr>" "outs' = outs"
        using x ph w Inr a Inl di by (auto simp: put_out_def on_disk_def Let_def s2_def)
      then show ?thesis using ao(2) [OF Inl] g w2(3) by (auto simp: out_ids_def)
    next
      case (Inr h')
      have t: "x = Inr ?n" "t = s2\<lparr>disk := d2\<rparr>" "outs' = butlast outs @ [(p, h')]"
        using x ph w \<open>y = Inr u\<close> a Inr di by (auto simp: put_out_def on_disk_def Let_def s2_def)
      have "moved_ok t outs' (k, e) ?n"
        using st stored_ext [OF r(1) ext] r ao(1) ao(4) [of h'] w2(3) merging_out(4) [OF m mem]
        by (auto simp: moved_ok_def t stored_def)
      moreover have "grows s outs t outs'" using ao(1) ao(4) [of h'] w2(3) ext by (simp add: grows_def t s2_def)
      ultimately show ?thesis using ao(3) [OF Inr] t by simp
    qed
  qed
qed

lemma copy_item_ok:
  assumes m: "merging M s outs" and e: "fileID e \<in> M" "\<not> tomb e" and r: "stored (logs s) e r" "key r = k"
    and x: "copy_item (k, e) (s, outs) = (x, (t, outs'))"
  shows "merging M t outs' \<and> grows s outs t outs' \<and> x \<noteq> Inl Panic \<and> (\<forall>n. x = Inr n \<longrightarrow> moved_ok t outs' (k, e) n)"
proof -
  obtain src where src: "map_of (files s) (fileID e) = Some src" using held_file [OF mergingD(3) [OF m], of "fileID e"] e(1) by auto
  obtain y d where y: "ReadAt (dfile (dfs s ! src)) (unat (esize e)) (pos e) (disk s) = (y, d)" by fastforce
  note rd = ReadAt_stored [OF store_okD(1) [OF mergingD(1) [OF m]] r(1) src y]
  let ?s = "s\<lparr>disk := d\<rparr>"
  note ms = same_disk_merging [OF m rd(1)]
  have g0: "grows s outs ?s outs" using ms(2) by (simp add: grows_same out_ids_def)
  show ?thesis
  proof (cases y)
    case (Inl er)
    then show ?thesis using x src y rd(2) ms(1) g0 by (auto simp: copy_item_def on_disk_def)
  next
    case (Inr buf)
    have buf: "buf = encode r" using rd(2) Inr by auto
    have dec: "decodeRecord (encode r) = Inr r"
      using wf_rec_bounds(3) [of r] r(1) by (simp add: stored_def decodeRecord_encode)
    have cl: "clearBatchFlags (encode r) = encode (lone r)" by (simp add: clearBatchFlags_encode lone_def)
    define st where "st = (if outs = [] \<or> dsize (dfs ?s ! fst (last outs)) + length (encode (lone r)) > maxFileSize ?s
      then newOut (?s, outs) else (Inr (), (?s, outs)))"
    have x': "(x, (t, outs')) = andThen st (\<lambda>_ st. put_out r (encode (lone r)) st)"
      using x src y Inr buf dec cl by (simp add: copy_item_def on_disk_def Let_def st_def)
    obtain z s1 outs1 where z: "st = (z, (s1, outs1))" by (metis prod.exhaust)
    have n: "merging M s1 outs1 \<and> grows ?s outs s1 outs1 \<and> z \<noteq> Inl Panic \<and> (\<forall>u. z = Inr u \<longrightarrow> outs1 \<noteq> [])"
    proof (cases "outs = [] \<or> dsize (dfs ?s ! fst (last outs)) + length (encode (lone r)) > maxFileSize ?s")
      case True
      then have "newOut (?s, outs) = (z, (s1, outs1))" using z by (simp add: st_def)
      from newOut_ok [OF ms(1) this] show ?thesis .
    next
      case False
      then show ?thesis using z ms(1) by (auto simp: st_def)
    qed
    have g1: "grows s outs s1 outs1" using grows_trans [OF g0] n by blast
    show ?thesis
    proof (cases z)
      case (Inl er)
      then show ?thesis using x' z n g1 by auto
    next
      case (Inr u)
      have "stored (logs s1) e r" using stored_ext [OF r(1)] g1 by (simp add: grows_def)
      moreover have "put_out r (encode (lone r)) (s1, outs1) = (x, (t, outs'))" using x' z Inr by simp
      ultimately show ?thesis using put_out_ok [OF _ _ _ r(2) e(2)] n Inr grows_trans [OF g1] by blast
    qed
  qed
qed

section \<open>The copy phase\<close>

text \<open>The items of the merge: entries of the snapshot whose records are in the merge set.\<close>

definition items_ok :: "u32 set \<Rightarrow> (bytes \<times> entry) list \<Rightarrow> store \<Rightarrow> bool" where
  "items_ok M items s \<longleftrightarrow> (\<forall>(k, e) \<in> set items. fileID e \<in> M \<and> \<not> tomb e \<and> (\<exists>r. stored (logs s) e r \<and> key r = k))"

text \<open>Entries in the merge set are among those of the snapshot.\<close>

definition covered :: "u32 set \<Rightarrow> (bytes \<times> entry) list \<Rightarrow> store \<Rightarrow> bool" where
  "covered M its s \<longleftrightarrow> (\<forall>k e. idx_lookup (ix s) k = Some e \<longrightarrow> fileID e \<in> M \<longrightarrow> (k, e) \<in> set its)"

lemma moved_ok_grows: "moved_ok s outs it n \<Longrightarrow> grows s outs t outs' \<Longrightarrow> moved_ok t outs' it n"
  unfolding moved_ok_def grows_def using stored_ext by (fastforce split: prod.splits)

lemma items_ok_grows: "items_ok M items s \<Longrightarrow> grows s outs t outs' \<Longrightarrow> items_ok M items t"
  unfolding items_ok_def grows_def using stored_ext by fastforce

lemma stored_apart:
  assumes "store_ok s" and "held H s" and "apart H s t" and "fileID e \<in> H" and "stored (logs s) e r"
  shows "stored (logs t) e r"
  using assms(5) apart_log [OF assms(1-4)] by (rule stored_same_log)

lemma items_ok_apart:
  assumes "merging M s outs" and "apart (M \<union> out_ids s outs) s t" and "items_ok M items s"
  shows "items_ok M items t"
  using assms(3) stored_apart [OF mergingD(1,3) [OF assms(1)] assms(2)] unfolding items_ok_def by blast

lemma moved_ok_apart:
  assumes m: "merging M s outs" and a: "apart (M \<union> out_ids s outs) s t" and "moved_ok s outs it n" and "fileID (snd it) \<in> M"
  shows "moved_ok t outs it n"
proof -
  obtain k e where it: "it = (k, e)" by fastforce
  note st = stored_apart [OF mergingD(1,3) [OF m] a]
  show ?thesis using assms(3,4) st unfolding moved_ok_def it prod.case merging_apart(2) [OF m a] snd_conv by blast
qed

lemma covered_apart: "covered M its s \<Longrightarrow> apart (M \<union> J) s t \<Longrightarrow> covered M its t"
  unfolding covered_def using apartD(4) by blast

text \<open>What stays true of a merge while it goes on.\<close>

definition goes_on :: "((bytes \<Rightarrow> bytes option) \<times> (bytes \<Rightarrow> bytes option)) set \<Rightarrow> u32 set \<Rightarrow> store \<Rightarrow> outs \<Rightarrow> store \<Rightarrow> outs \<Rightarrow> bool" where
  "goes_on R M s outs t outs' \<longleftrightarrow> merging M t outs' \<and> (contents s, contents t) \<in> R\<^sup>* \<and>
     (\<forall>its. covered M its s \<longrightarrow> covered M its t) \<and> (\<forall>its. items_ok M its s \<longrightarrow> items_ok M its t) \<and>
     (\<forall>it n. fileID (snd it) \<in> M \<longrightarrow> moved_ok s outs it n \<longrightarrow> moved_ok t outs' it n)"

lemma goes_on_refl: "merging M s outs \<Longrightarrow> goes_on R M s outs s outs"
  by (simp add: goes_on_def)

lemma goes_on_trans: "goes_on R M s a t b \<Longrightarrow> goes_on R M t b u c \<Longrightarrow> goes_on R M s a u c"
  unfolding goes_on_def by (meson rtrancl_trans)

lemma goes_on_grows:
  assumes "merging M s outs" and "merging M t outs'" and "grows s outs t outs'"
  shows "goes_on R M s outs t outs'"
proof -
  have "covered M its t = covered M its s" for its using assms(3) by (simp add: covered_def grows_def)
  then show ?thesis
    using assms(2) grows_view [OF mergingD(1) [OF assms(1)] assms(3)] items_ok_grows [OF _ assms(3)] moved_ok_grows [OF _ assms(3)]
    unfolding goes_on_def by simp
qed

lemma goes_on_env:
  assumes m: "merging M s outs" and w: "writers R env"
  shows "goes_on R M s outs (env n s) outs"
proof -
  have a: "apart (M \<union> out_ids s outs) s (env n s)" "(contents s, contents (env n s)) \<in> R"
    using w mergingD(1-3) [OF m] unfolding writers_def by blast+
  show ?thesis
    unfolding goes_on_def
    using merging_apart(1) [OF m a(1)] a(2) covered_apart [OF _ a(1)] items_ok_apart [OF m a(1)] moved_ok_apart [OF m a(1)]
    by blast
qed

lemma goes_onD:
  assumes "goes_on R M s outs t outs'"
  shows "merging M t outs'" and "(contents s, contents t) \<in> R\<^sup>*" and "covered M its s \<Longrightarrow> covered M its t"
    and "items_ok M its s \<Longrightarrow> items_ok M its t" and "fileID (snd it) \<in> M \<Longrightarrow> moved_ok s outs it n \<Longrightarrow> moved_ok t outs' it n"
  using assms unfolding goes_on_def by blast+

lemma copy_items_ok:
  assumes "merging M s outs" and "items_ok M its s" and w: "writers R env"
    and "copy_items env n its (s, outs) = (x, (t, outs'))"
  shows "goes_on R M s outs t outs' \<and> x \<noteq> Inl Panic \<and> (\<forall>ms. x = Inr ms \<longrightarrow> list_all2 (moved_ok t outs') its ms)"
  using assms(1,2,4)
proof (induction its arbitrary: n s outs x t outs')
  case Nil
  then show ?case by (auto simp: goes_on_refl)
next
  case (Cons it its)
  obtain k e where it: "it = (k, e)" by fastforce
  from Cons.prems(2) obtain r where e: "fileID e \<in> M" "\<not> tomb e" "stored (logs s) e r" "key r = k" and its: "items_ok M its s"
    by (auto simp: items_ok_def it)
  obtain y s1 outs1 where y: "copy_item it (s, outs) = (y, (s1, outs1))" by (metis prod.exhaust)
  note c = copy_item_ok [OF Cons.prems(1) e y [unfolded it]]
  have g: "goes_on R M s outs s1 outs1" using goes_on_grows [OF Cons.prems(1)] c by blast
  show ?case
  proof (cases y)
    case (Inl er)
    then show ?thesis using Cons.prems(3) y g c by auto
  next
    case (Inr m)
    note g1 = goes_on_env [OF goes_onD(1) [OF g] w, of n]
    note g2 = goes_on_trans [OF g g1]
    obtain z t1 outs2 where z: "copy_items env (Suc n) its (env n s1, outs1) = (z, (t1, outs2))" by (metis prod.exhaust)
    note ih = Cons.IH [OF goes_onD(1) [OF g2] goes_onD(4) [OF g2 its] z]
    have x: "(x, (t, outs')) = andThen (z, (t1, outs2)) (\<lambda>ms st. (Inr (m # ms), st))"
      using Cons.prems(3) y Inr z by simp
    have t: "t = t1" "outs' = outs2" using x by (cases z; simp)+
    have "moved_ok t outs' it m"
      using goes_onD(5) [OF conjunct1 [OF ih] _ goes_onD(5) [OF g1]] c Inr e(1) it t by simp
    then show ?thesis using ih goes_on_trans [OF g2 conjunct1 [OF ih]] x unfolding t by (cases z) auto
  qed
qed

section \<open>Committing or discarding the output\<close>

text \<open>The same without the hint writers.\<close>

definition loose :: "u32 set \<Rightarrow> store \<Rightarrow> outs \<Rightarrow> bool" where
  "loose M s outs \<longleftrightarrow> store_ok s \<and> names_ok (disk s) \<and> held (M \<union> out_ids s outs) s \<and> M \<inter> out_ids s outs = {} \<and>
     (\<forall>(p, h) \<in> set outs. map_of (files s) (did (dfs s ! p)) = Some p) \<and> distinct (map fst outs) \<and>
     (\<forall>k e. idx_lookup (ix s) k = Some e \<longrightarrow> fileID e \<notin> out_ids s outs)"

lemma looseD:
  assumes "loose M s outs"
  shows "store_ok s" and "names_ok (disk s)" and "held (M \<union> out_ids s outs) s" and "M \<inter> out_ids s outs = {}"
    and "(p, h) \<in> set outs \<Longrightarrow> map_of (files s) (did (dfs s ! p)) = Some p" and "distinct (map fst outs)"
    and "idx_lookup (ix s) k = Some e \<Longrightarrow> fileID e \<notin> out_ids s outs"
  using assms unfolding loose_def by blast+

lemma merging_loose: "merging M s outs \<Longrightarrow> loose M s outs"
  by (fastforce simp: merging_def loose_def list_all_iff out_ok_def)

lemma loose_disk:
  assumes m: "loose M s outs" and "store_ok (s\<lparr>disk := d\<rparr>)" and "names_ok d"
  shows "loose M (s\<lparr>disk := d\<rparr>) outs"
  using looseD [OF m] assms(2-3) by (auto simp: loose_def out_ids_def held_def)

lemma loose_leaves:
  assumes m: "loose M s outs" and l: "leaves N (disk s) d" and "\<And>i. map_of (files s) i \<noteq> None \<Longrightarrow> dataPath i \<in> N"
  shows "loose M (s\<lparr>disk := d\<rparr>) outs" and "logs (s\<lparr>disk := d\<rparr>) = logs s"
proof -
  note k = store_ok_disk [OF looseD(1) [OF m] l assms(3)]
  show "loose M (s\<lparr>disk := d\<rparr>) outs" by (rule loose_disk [OF m k(1) leavesD(1) [OF l]])
  show "logs (s\<lparr>disk := d\<rparr>) = logs s" by (rule k(3))
qed

lemma sync_out_ok:
  assumes m: "merging M s outs" and f: "SyncFile f (disk s) = (r, d)"
  shows "merging M (s\<lparr>disk := d\<rparr>) outs" and "logs (s\<lparr>disk := d\<rparr>) = logs s"
proof -
  note fs = files_ok_sync [OF store_okD(1) [OF mergingD(1) [OF m]] f] and on = SyncFile_only [OF f]
  show l: "logs (s\<lparr>disk := d\<rparr>) = logs s" using fs(2) by simp
  have "store_ok (s\<lparr>disk := d\<rparr>)" using mergingD(1) [OF m] fs l by (simp add: store_ok_def store_inv_def seq_ok_def)
  moreover have "names_ok d" using leaves_only [OF mergingD(2) [OF m] on, of "{}"] leavesD(1) by blast
  ultimately show "merging M (s\<lparr>disk := d\<rparr>) outs" using merging_frame [OF m] on by (simp add: only_file_def)
qed

text \<open>The steps that commit the output touch the disk only.\<close>

definition same_but_disk :: "store \<Rightarrow> store \<Rightarrow> bool" where
  "same_but_disk s t \<longleftrightarrow> (\<exists>d. t = s\<lparr>disk := d\<rparr>) \<and> logs t = logs s"

lemma same_but_disk_refl: "same_but_disk s s"
  unfolding same_but_disk_def by (rule conjI, rule exI [of _ "disk s"]) simp_all

lemma same_but_disk_trans: "same_but_disk s t \<Longrightarrow> same_but_disk t u \<Longrightarrow> same_but_disk s u"
  unfolding same_but_disk_def by auto

lemma sync_outs_ok:
  assumes "merging M s outs" and "sync_outs os s = (r, t)"
  shows "merging M t outs \<and> same_but_disk s t \<and> r \<noteq> Inl Panic"
  using assms
proof (induction os arbitrary: s)
  case Nil
  then show ?case by (auto simp: same_but_disk_refl)
next
  case (Cons ph os)
  obtain p h where ph: "ph = (p, h)" by fastforce
  obtain x d where x: "SyncFile (dfile (dfs s ! p)) (disk s) = (x, d)" by fastforce
  note k = sync_out_ok [OF Cons.prems(1) x]
  have sb: "same_but_disk s (s\<lparr>disk := d\<rparr>)" using k(2) by (auto simp: same_but_disk_def)
  show ?case
  proof (cases x)
    case (Inl er)
    then have "er \<noteq> Panic" using SyncFile_error x by blast
    then show ?thesis using Cons.prems(2) x Inl ph k sb by (auto simp: on_disk_def)
  next
    case (Inr u)
    then have "sync_outs os (s\<lparr>disk := d\<rparr>) = (r, t)" using Cons.prems(2) x ph by (simp add: on_disk_def)
    from Cons.IH [OF k(1) this] show ?thesis using same_but_disk_trans [OF sb] by blast
  qed
qed

lemma commit_error:
  assumes "commit h d = (Inl er, d')"
  shows "er \<noteq> Panic"
  using assms by (auto simp: commit_def Rename_def split: prod.splits sum.splits option.splits if_splits
      dest: fileAppend_error SyncFile_error)

lemma commit_outs_ok:
  assumes "loose M s outs" and "set os \<subseteq> set outs" and "\<forall>(p, h) \<in> set os. hint_of (did (dfs s ! p)) (disk s) h"
    and "distinct (map fst os)" and "commit_outs os s = (r, t)"
  shows "loose M t outs \<and> same_but_disk s t \<and> r \<noteq> Inl Panic"
  using assms
proof (induction os arbitrary: s)
  case Nil
  then show ?case by (auto simp: same_but_disk_refl)
next
  case (Cons ph os)
  obtain p h where ph: "ph = (p, h)" by fastforce
  let ?i = "did (dfs s ! p)"
  have h: "hint_of ?i (disk s) h" and mem: "(p, h) \<in> set outs" using Cons.prems(2,3) ph by auto
  obtain x d where x: "commit h (disk s) = (x, d)" by fastforce
  note l = commit_leaves [OF looseD(2) [OF Cons.prems(1)] h x]
  note k = loose_leaves [OF Cons.prems(1) l, simplified]
  have sb: "same_but_disk s (s\<lparr>disk := d\<rparr>)" using k(2) by (auto simp: same_but_disk_def)
  show ?case
  proof (cases x)
    case (Inl er)
    then have "er \<noteq> Panic" using commit_error x by blast
    then show ?thesis using Cons.prems(5) x Inl ph k sb by (auto simp: on_disk_def)
  next
    case (Inr u)
    have hs: "\<forall>(q, g) \<in> set os. hint_of (did (dfs (s\<lparr>disk := d\<rparr>) ! q)) (disk (s\<lparr>disk := d\<rparr>)) g"
    proof clarify
      fix q g assume q: "(q, g) \<in> set os"
      then have "q \<noteq> p" using Cons.prems(4) ph by force
      moreover have "(q, g) \<in> set outs" using q Cons.prems(2) by auto
      ultimately have "did (dfs s ! q) \<noteq> ?i" using looseD(5) [OF Cons.prems(1)] mem by (metis option.inject)
      then have "tmpPath (hintPath (did (dfs s ! q))) \<in> - {tmpPath (hintPath ?i), hintPath ?i}" by simp
      from leavesD(3) [OF l this] show "hint_of (did (dfs (s\<lparr>disk := d\<rparr>) ! q)) (disk (s\<lparr>disk := d\<rparr>)) g"
        using q Cons.prems(3) by (auto simp: hint_of_def)
    qed
    have "commit_outs os (s\<lparr>disk := d\<rparr>) = (r, t)" using Cons.prems(5) x Inr ph by (simp add: on_disk_def)
    moreover have "set os \<subseteq> set outs" "distinct (map fst os)" using Cons.prems(2,4) by simp_all
    ultimately show ?thesis using Cons.IH [OF k(1) _ hs] same_but_disk_trans [OF sb] by blast
  qed
qed

text \<open>Giving up a file nothing in the index refers to.\<close>

lemma drop_file_ok:
  assumes ok: "store_ok s" and p: "map_of (files s) i = Some p" "active s \<noteq> Some p"
    and e: "\<And>k e. idx_lookup (ix s) k = Some e \<Longrightarrow> fileID e \<noteq> i" and l: "leaves (- {dataPath i}) (disk s) d"
    and t: "t = s\<lparr>files := AList.delete i (files s), dfs := (dfs s)[p := close (dfs s ! p)], disk := d\<rparr>"
  shows "store_ok t" and "view t = view s"
proof -
  note f = files_ok_drop [OF store_okD(1) [OF ok] p(1)]
  have "map_of (AList.delete i (files s)) j \<noteq> None \<Longrightarrow> dataPath j \<in> - {dataPath i}" for j
    by (auto simp: delete_conv' split: if_splits)
  note g = files_ok_leaves [OF f(1) l this]
  have lg: "logs t = (logs s)(i := [])" using f(2) g(2) by (simp add: t)
  note v = view_of_cong [OF store_okD(3) [OF ok], of "(logs s)(i := [])"]
  have vs: "index_ok (ix s) ((logs s)(i := []))" "view_of (ix s) ((logs s)(i := [])) = view s" by (rule v; use e in auto)+
  show vt: "view t = view s" using lg vs(2) by (simp add: t)
  obtain q where q: "active s = Some q" "q < length (dfs s)"
      "\<not> fopen (dfile (dfs s ! q)) \<or> map_of (files s) (did (dfs s ! q)) = Some q \<and> fwr (dfile (dfs s ! q))"
    using store_okD(2) [OF ok] by (auto simp: active_ok_def)
  have "q \<noteq> p" using q(1) p(2) by auto
  then have a: "active_ok (active s) (AList.delete i (files s)) ((dfs s)[p := close (dfs s ! p)])"
    using q p(1) by (auto simp: active_ok_def delete_conv')
  have "store_inv t" using ok g(1) a vs(1) lg by (simp add: store_ok_def store_inv_def t)
  then show "store_ok t" using ok lg vs(2) by (simp add: store_ok_def seq_ok_def t)
qed

lemma drop_out_ok:
  assumes m: "loose M s (ph # outs)"
  shows "loose M (drop_out s ph) outs" and "view (drop_out s ph) = view s"
proof -
  obtain p h where ph: "ph = (p, h)" by fastforce
  let ?i = "did (dfs s ! p)" and ?d = "ignore (Remove (dpath (dfs s ! p)) (disk s))" and ?t = "drop_out s ph"
  note k = looseD [OF m]
  have p: "map_of (files s) ?i = Some p" using k(5) [of p h] ph by simp
  have i: "?i \<in> out_ids s (ph # outs)" by (simp add: out_ids_def ph)
  have a: "active s \<noteq> Some p" using heldD [OF k(3) _ p] i by blast
  have e: "fileID e \<noteq> ?i" if "idx_lookup (ix s) k = Some e" for k e
    using looseD(7) [OF m that] i by (cases "fileID e = ?i") simp_all
  have l: "leaves (- {dataPath ?i}) (disk s) ?d"
    using Remove_leaves [OF k(2)] files_okD(4) [OF store_okD(1) [OF k(1)] p] by simp
  have t: "?t = s\<lparr>files := AList.delete ?i (files s), dfs := (dfs s)[p := close (dfs s ! p)], disk := ?d\<rparr>"
    by (simp add: drop_out_def ph)
  note d = drop_file_ok [OF k(1) p a e l t]
  show "view ?t = view s" by (rule d(2))
  have other: "q \<noteq> p" "did (dfs s ! q) \<noteq> ?i" if "(q, g) \<in> set outs" for q g
  proof -
    show "q \<noteq> p" using k(6) ph that by force
    then show "did (dfs s ! q) \<noteq> ?i" using k(5) [of q g] p that by auto
  qed
  have "dfs ?t ! q = dfs s ! q" if "(q, g) \<in> set outs" for q g using other(1) [OF that] t by simp
  then have ids: "out_ids ?t outs = out_ids s outs" unfolding out_ids_def by (intro image_cong) auto
  have ni: "?i \<notin> M \<union> out_ids s outs" using k(4) i other(2) by (force simp: out_ids_def)
  show "loose M ?t outs"
    unfolding loose_def ids
  proof (intro conjI)
    show "store_ok ?t" by (rule d(1))
    show "names_ok (disk ?t)" using leavesD(1) [OF l] t by simp
    show "held (M \<union> out_ids s outs) ?t"
      unfolding held_def
    proof
      fix j assume j: "j \<in> M \<union> out_ids s outs"
      then have "j \<noteq> ?i" using ni by blast
      moreover have "j \<in> M \<union> out_ids s (ph # outs)" using j by (auto simp: out_ids_def)
      ultimately show "\<exists>q. map_of (files ?t) j = Some q \<and> active ?t \<noteq> Some q"
        using k(3) t unfolding held_def by (simp add: delete_conv')
    qed
    show "M \<inter> out_ids s outs = {}" using k(4) by (auto simp: out_ids_def)
    show "distinct (map fst outs)" using k(6) by simp
    show "\<forall>(q, g) \<in> set outs. map_of (files ?t) (did (dfs ?t ! q)) = Some q"
    proof clarify
      fix q g assume q: "(q, g) \<in> set outs"
      then show "map_of (files ?t) (did (dfs ?t ! q)) = Some q"
        using other [OF q] k(5) [of q g] t by (simp add: delete_conv')
    qed
    show "\<forall>k e. idx_lookup (ix ?t) k = Some e \<longrightarrow> fileID e \<notin> out_ids s outs"
      using k(7) t by (auto simp: out_ids_def)
  qed
qed

lemma drop_outs_ok:
  assumes "loose M s outs"
  shows "store_ok (foldl drop_out s outs) \<and> view (foldl drop_out s outs) = view s"
  using assms
proof (induction outs arbitrary: s)
  case Nil
  then show ?case using looseD(1) by simp
next
  case (Cons ph outs)
  show ?case using Cons.IH [OF drop_out_ok(1) [OF Cons.prems]] drop_out_ok(2) [OF Cons.prems] by simp
qed

lemma abort_all_leaves:
  assumes "names_ok d" and "\<forall>(p, h) \<in> set outs. \<forall>i. tmp h \<noteq> dataPath i"
  shows "leaves (range dataPath) d (foldl (\<lambda>d (p, h). abort h d) d outs)"
  using assms
proof (induction outs arbitrary: d)
  case Nil
  then show ?case by (simp add: leaves_refl)
next
  case (Cons ph outs)
  obtain p h where ph: "ph = (p, h)" by fastforce
  have "leaves (range dataPath) d (abort h d)"
    unfolding abort_def by (rule leaves_mono [OF Remove_leaves [OF Cons.prems(1)]]) (use Cons.prems(2) ph in auto)
  from leaves_trans [OF this Cons.IH [OF leavesD(1) [OF this]]] show ?case using Cons.prems(2) ph by simp
qed

lemma cleanup_ok:
  assumes "loose M s outs" and "\<forall>(p, h) \<in> set outs. \<exists>i. tmp h = tmpPath (hintPath i)"
  shows "store_ok (cleanup (s, outs)) \<and> view (cleanup (s, outs)) = view s"
proof -
  let ?d = "foldl (\<lambda>d (p, h). abort h d) (disk s) outs"
  have "leaves (range dataPath) (disk s) ?d" by (rule abort_all_leaves [OF looseD(2) [OF assms(1)]]) (use assms(2) in fastforce)
  note l = loose_leaves [OF assms(1) this]
  have "loose M (s\<lparr>disk := ?d\<rparr>) outs" "logs (s\<lparr>disk := ?d\<rparr>) = logs s" by (rule l; simp)+
  then show ?thesis using drop_outs_ok [of M "s\<lparr>disk := ?d\<rparr>" outs] by (simp add: cleanup_def)
qed

lemma merging_tmp: "merging M s outs \<Longrightarrow> \<forall>(p, h) \<in> set outs. \<exists>i. tmp h = tmpPath (hintPath i)"
  by (fastforce simp: merging_def list_all_iff out_ok_def hint_of_def)

lemma commit_phase:
  assumes m: "merging M s outs"
    and c: "andThen (sync_outs outs s) (\<lambda>_ s. andThen (commit_outs outs s) (\<lambda>_ s. on_disk syncDir s)) = (r, t)"
  shows "loose M t outs \<and> same_but_disk s t \<and> r \<noteq> Inl Panic"
proof -
  obtain x s1 where x: "sync_outs outs s = (x, s1)" by fastforce
  note a = sync_outs_ok [OF m x]
  show ?thesis
  proof (cases x)
    case (Inl er)
    then show ?thesis using c x a merging_loose by auto
  next
    case (Inr u)
    obtain y s2 where y: "commit_outs outs s1 = (y, s2)" by fastforce
    have m1: "merging M s1 outs" using a by blast
    have "\<forall>(p, h) \<in> set outs. hint_of (did (dfs s1 ! p)) (disk s1) h" using merging_out(3) [OF m1] by blast
    note b = commit_outs_ok [OF merging_loose [OF m1] subset_refl this mergingD(6) [OF m1] y]
    have sb: "same_but_disk s s2" using a b same_but_disk_trans by blast
    show ?thesis
    proof (cases y)
      case (Inl er)
      then show ?thesis using c x \<open>x = Inr u\<close> y b sb by auto
    next
      case (Inr v)
      obtain z d where z: "syncDir (disk s2) = (z, d)" by fastforce
      have t: "r = z" "t = s2\<lparr>disk := d\<rparr>" using c x \<open>x = Inr u\<close> y Inr z by (auto simp: on_disk_def)
      note sd = syncDir_frame [OF z]
      have "leaves UNIV (disk s2) d" using leaves_same [OF looseD(2)] b sd by blast
      note k = loose_leaves [OF conjunct1 [OF b] this, simplified]
      have "same_but_disk s2 t" using k(2) t(2) by (auto simp: same_but_disk_def)
      then show ?thesis using k(1) t sd same_but_disk_trans [OF sb] by blast
    qed
  qed
qed

lemma same_but_disk_fields:
  assumes "same_but_disk s t"
  shows "ix t = ix s" "files t = files s" "dfs t = dfs s" "active t = active s" "logs t = logs s" "view t = view s"
    "out_ids t outs = out_ids s outs"
  using assms by (auto simp: same_but_disk_def out_ids_def)

text \<open>The end of phase one.\<close>

definition moved_in :: "(u32 \<Rightarrow> bytes) \<Rightarrow> u32 set \<Rightarrow> bytes \<times> entry \<Rightarrow> entry \<Rightarrow> bool" where
  "moved_in L J it n \<longleftrightarrow> (case it of (k, e) \<Rightarrow> fileID n \<in> J \<and> eseq n = eseq e \<and>
     (\<exists>r. stored L e r \<and> stored L n (lone r) \<and> key r = k))"

lemma merge_out_ok:
  assumes m: "merging M s []" and i: "items_ok M items s" and c: "covered M its s" and w: "writers R env"
    and r: "merge_out env n items s = (r, t)"
  shows "store_ok t \<and> (contents s, contents t) \<in> R\<^sup>* \<and> r \<noteq> Inl Panic \<and>
    (\<forall>moved outs. r = Inr (moved, outs) \<longrightarrow>
      loose M t outs \<and> covered M its t \<and> items_ok M items t \<and> list_all2 (moved_in (logs t) (out_ids t outs)) items moved)"
proof -
  obtain x s1 outs where x: "copy_items env n items (s, []) = (x, (s1, outs))" by (metis prod.exhaust)
  note k = copy_items_ok [OF m i w x]
  have g: "goes_on R M s [] s1 outs" using k by blast
  note m1 = goes_onD(1) [OF g]
  show ?thesis
  proof (cases x)
    case (Inl er)
    then have "r = Inl er" "t = cleanup (s1, outs)" using r x by (auto simp: merge_out_def)
    then show ?thesis using cleanup_ok [OF merging_loose [OF m1] merging_tmp [OF m1]] k Inl goes_onD(2) [OF g] by simp
  next
    case (Inr moved)
    obtain y s2 where y: "andThen (sync_outs outs s1) (\<lambda>_ s. andThen (commit_outs outs s) (\<lambda>_ s. on_disk syncDir s)) = (y, s2)"
      by fastforce
    note b = commit_phase [OF m1 y]
    have l: "loose M s2 outs" and sb: "same_but_disk s1 s2" using b by blast+
    note f = same_but_disk_fields [OF sb]
    show ?thesis
    proof (cases y)
      case (Inl er)
      then have "r = Inl er" "t = cleanup (s2, outs)" using r x Inr y by (auto simp: merge_out_def)
      then show ?thesis using cleanup_ok [OF l merging_tmp [OF m1]] b Inl goes_onD(2) [OF g] f(6) by simp
    next
      case (Inr u)
      then have t: "r = Inr (moved, outs)" "t = s2" using r x \<open>x = Inr moved\<close> y by (auto simp: merge_out_def)
      have "list_all2 (moved_ok s1 outs) items moved" using k \<open>x = Inr moved\<close> by blast
      then have "list_all2 (moved_in (logs s2) (out_ids s2 outs)) items moved"
        unfolding moved_in_def f(5,7) moved_ok_def .
      moreover have "covered M its s2" using goes_onD(3) [OF g c] f(1) by (simp add: covered_def)
      moreover have "items_ok M items s2" using goes_onD(4) [OF g i] f(5) by (simp add: items_ok_def)
      ultimately show ?thesis using t l looseD(1) goes_onD(2) [OF g] f(6) by auto
    qed
  qed
qed

section \<open>Moving the entries\<close>

lemma swap_entry:
  assumes ok: "store_ok s" and e: "idx_lookup (ix s) k = Some e" "stored (logs s) e r" "key r = k" and n: "stored (logs s) n (lone r)"
  shows "\<exists>x. idx_put k n (ix s) = Some x \<and> idx_lookup x = (idx_lookup (ix s))(k \<mapsto> n) \<and> store_ok (s\<lparr>ix := x\<rparr>) \<and> view (s\<lparr>ix := x\<rparr>) = view s"
proof -
  have io: "index_ok (ix s) (logs s)" and inv: "index_inv (ix s)" using store_okD(3) [OF ok] by (simp_all add: index_ok_def)
  from ix.put_ok [OF inv] obtain x where x: "idx_put k n (ix s) = Some x" "index_inv x" "idx_lookup x = (idx_lookup (ix s))(k \<mapsto> n)"
    by blast
  have "index_ok x (logs s)" using io x(2,3) n e(3) by (auto simp: index_ok_def)
  moreover have same: "esize n = esize e" "tomb n = tomb e" using e(2) n by (simp_all add: stored_def)
  have "counts_ok x (live s) (nLive s)"
    using counts_ok_put [OF _ inv x(3), of "live s" "nLive s"] ok e(1)
    by (simp add: store_ok_def store_inv_def live_size_def live_one_def same split: if_splits)
  moreover have v: "view_of x (logs s) = view s"
    using e(1) rec_of_stored [OF e(2)] rec_of_stored [OF n] by (auto simp: view_of_def x(3) fun_eq_iff)
  ultimately show ?thesis using ok x(1,3) by (simp add: store_ok_def store_inv_def seq_ok_def)
qed

lemma drop_tombstone:
  assumes ok: "store_ok s" and e: "idx_lookup (ix s) k = Some e" "tomb e"
  shows "\<exists>x. idx_del k (ix s) = Some x \<and> idx_lookup x = (idx_lookup (ix s))(k := None) \<and> store_ok (s\<lparr>ix := x\<rparr>) \<and>
    contents (s\<lparr>ix := x\<rparr>) = contents s"
proof -
  have io: "index_ok (ix s) (logs s)" and inv: "index_inv (ix s)" using store_okD(3) [OF ok] by (simp_all add: index_ok_def)
  from ix.del_ok [OF inv] obtain x where x: "idx_del k (ix s) = Some x" "index_inv x" "idx_lookup x = (idx_lookup (ix s))(k := None)"
    by blast
  have io': "index_ok x (logs s)" using io x(2,3) by (auto simp: index_ok_def)
  let ?D = "dom (idx_lookup (ix s))"
  have s: "(\<Sum>j \<in> ?D. f (idx_lookup (ix s) j)) = (\<Sum>j \<in> dom (idx_lookup x). f (idx_lookup x j))" if "f (Some e) = 0" for f :: "entry option \<Rightarrow> int"
  proof -
    have "(\<Sum>j \<in> ?D. f (idx_lookup (ix s) j)) = f (idx_lookup (ix s) k) + (\<Sum>j \<in> ?D - {k}. f (idx_lookup (ix s) j))"
      by (rule sum.remove [OF finite_lookup [OF inv]]) (use e(1) in auto)
    also have "(\<Sum>j \<in> ?D - {k}. f (idx_lookup (ix s) j)) = (\<Sum>j \<in> dom (idx_lookup x). f (idx_lookup x j))"
      by (rule sum.cong) (auto simp: x(3))
    finally show ?thesis using that e(1) by simp
  qed
  have "counts_ok x (live s) (nLive s)"
    using s [of live_size] s [of live_one] e(2) ok by (simp add: store_ok_def store_inv_def counts_ok_def live_size_def live_one_def)
  moreover obtain r where r: "stored (logs s) e r" using io e(1) by (auto simp: index_ok_def)
  have v: "view_of x (logs s) = (view s)(k := None)" by (auto simp: view_of_def x(3) fun_eq_iff)
  moreover have "view s k = Some (payload r)" using e(1) rec_of_stored [OF r] by (simp add: view_of_def)
  then have "contents_of ((view s)(k := None)) = contents s"
    using r e(2) by (auto simp: contents_of_def fun_eq_iff payload_def stored_def)
  ultimately show ?thesis using ok x(1,3) io' by (auto simp: store_ok_def store_inv_def seq_ok_def)
qed

text \<open>Phase two: \<open>ms\<close> and \<open>zs\<close> are what is left of the items and the tombstones.\<close>

definition swapping :: "u32 set \<Rightarrow> u32 set \<Rightarrow> ((bytes \<times> entry) \<times> entry) list \<Rightarrow> (bytes \<times> entry) list \<Rightarrow> store \<Rightarrow> bool" where
  "swapping M J ms zs s \<longleftrightarrow> store_ok s \<and> names_ok (disk s) \<and> held (M \<union> J) s \<and> M \<inter> J = {} \<and>
     covered M (map fst ms @ zs) s \<and> distinct (map fst (map fst ms @ zs)) \<and>
     (\<forall>(it, n) \<in> set ms. fileID (snd it) \<in> M \<and> moved_in (logs s) J it n) \<and> (\<forall>(k, e) \<in> set zs. tomb e \<and> fileID e \<in> M)"

lemma swappingD:
  assumes "swapping M J ms zs s"
  shows "store_ok s" and "names_ok (disk s)" and "held (M \<union> J) s" and "M \<inter> J = {}" and "covered M (map fst ms @ zs) s"
    and "distinct (map fst (map fst ms @ zs))"
    and "(it, n) \<in> set ms \<Longrightarrow> fileID (snd it) \<in> M" and "(it, n) \<in> set ms \<Longrightarrow> moved_in (logs s) J it n"
    and "(k, e) \<in> set zs \<Longrightarrow> tomb e" and "(k, e) \<in> set zs \<Longrightarrow> fileID e \<in> M"
  using assms unfolding swapping_def by blast+

lemma swapping_env:
  assumes g: "swapping M J ms zs s" and w: "writers R env"
  shows "swapping M J ms zs (env n s)" and "(contents s, contents (env n s)) \<in> R"
proof -
  note k = swappingD [OF g]
  have a: "apart (M \<union> J) s (env n s)" and "(contents s, contents (env n s)) \<in> R"
    using w k(1-3) unfolding writers_def by blast+
  then show "(contents s, contents (env n s)) \<in> R" by blast
  have "moved_in (logs (env n s)) J (ke, e) m" if "((ke, e), m) \<in> set ms" for ke e m
  proof -
    note st = stored_apart [OF k(1,3) a]
    have "fileID e \<in> M" using k(7) [OF that] by simp
    then show ?thesis using k(8) [OF that] st unfolding moved_in_def by (auto intro!: st)
  qed
  then show "swapping M J ms zs (env n s)"
    unfolding swapping_def
    using apartD(1) [OF a] leavesD(1) [OF apartD(2) [OF a]] apart_held [OF k(3) a] k(4,6,7,9,10) covered_apart [OF k(5) a] by fastforce
qed

lemma swapping_index:
  assumes "swapping M J (im # ms) zs s" and "store_ok (s\<lparr>ix := x\<rparr>)" and "covered M (map fst ms @ zs) (s\<lparr>ix := x\<rparr>)"
  shows "swapping M J ms zs (s\<lparr>ix := x\<rparr>)"
  using assms unfolding swapping_def by (auto simp: held_def)

lemma repoint_ok:
  assumes "swapping M J (ms @ ms') zs s"
  shows "\<exists>x. repoint ms (ix s) = Some x \<and> swapping M J ms' zs (s\<lparr>ix := x\<rparr>) \<and> contents (s\<lparr>ix := x\<rparr>) = contents s"
  using assms
proof (induction ms arbitrary: s)
  case Nil
  then show ?case by simp
next
  case (Cons im ms)
  obtain k e m where im: "im = ((k, e), m)" by (metis prod.exhaust)
  note w = swappingD [OF Cons.prems]
  have mv: "moved_in (logs s) J (k, e) m" and eM: "fileID e \<in> M" using w(7,8) [of "(k, e)" m] im by auto
  then obtain r where r: "fileID m \<in> J" "stored (logs s) e r" "stored (logs s) m (lone r)" "key r = k" "eseq m = eseq e" by (auto simp: moved_in_def)
  have nz: "esize m \<noteq> 0" using stored_size [OF r(3)] rec_size_pos [of "lone r"] by (auto simp del: rec_size_pos)
  have mM: "fileID m \<notin> M" using r(1) w(4) by blast
  have skip: "swapping M J (ms @ ms') zs s" if "\<And>c. idx_lookup (ix s) k = Some c \<Longrightarrow> fileID c \<notin> M"
  proof -
    have "covered M (map fst (ms @ ms') @ zs) s"
      using w(5) that unfolding covered_def im by fastforce
    then show ?thesis using swapping_index [OF Cons.prems [simplified], of "ix s"] w(1) by simp
  qed
  show ?case
  proof (cases "\<exists>c. idx_lookup (ix s) k = Some c \<and> eseq c = eseq e \<and> fileID c = fileID e")
    case True
    then obtain c where c: "idx_lookup (ix s) k = Some c" "eseq c = eseq e" "fileID c = fileID e" by blast
    have "(k, c) \<in> set (map fst ((im # ms) @ ms') @ zs)" using w(5) c eM unfolding covered_def by auto
    then have ce: "c = e" using w(6) unfolding im by (auto simp: image_iff dest: eq_key_imp_eq_value)
    from swap_entry [OF w(1) c(1) r(2) [folded ce] r(4,3)] obtain x where x: "idx_put k m (ix s) = Some x"
        "idx_lookup x = (idx_lookup (ix s))(k \<mapsto> m)" "store_ok (s\<lparr>ix := x\<rparr>)" "view (s\<lparr>ix := x\<rparr>) = view s" by blast
    have cv: "covered M (map fst (ms @ ms') @ zs) (s\<lparr>ix := x\<rparr>)"
      using w(5) mM unfolding covered_def im by (auto simp: x(2) split: if_splits)
    have "swapping M J (ms @ ms') zs (s\<lparr>ix := x\<rparr>)" using swapping_index [OF Cons.prems [simplified] x(3)] cv by simp
    from Cons.IH [OF this] show ?thesis using x(1,4) nz c im by auto
  next
    case False
    have "fileID c \<notin> M" if c: "idx_lookup (ix s) k = Some c" for c
    proof
      assume "fileID c \<in> M"
      then have "(k, c) \<in> set (map fst ((im # ms) @ ms') @ zs)" using w(5) c unfolding covered_def by auto
      then have "c = e" using w(6) unfolding im by (auto simp: image_iff dest: eq_key_imp_eq_value)
      then show False using False c by blast
    qed
    from Cons.IH [OF skip [OF this]] show ?thesis using False nz im by (auto split: option.splits)
  qed
qed

lemma retire_ok:
  assumes "swapping M J [] (zs @ zs') s"
  shows "\<exists>x. retire zs (ix s) = Some x \<and> swapping M J [] zs' (s\<lparr>ix := x\<rparr>) \<and> contents (s\<lparr>ix := x\<rparr>) = contents s"
  using assms
proof (induction zs arbitrary: s)
  case Nil
  then show ?case by simp
next
  case (Cons z zs)
  obtain k e where z: "z = (k, e)" by fastforce
  note w = swappingD [OF Cons.prems]
  have step: "swapping M J [] (zs @ zs') (s\<lparr>ix := x\<rparr>)"
    if "store_ok (s\<lparr>ix := x\<rparr>)" "covered M (zs @ zs') (s\<lparr>ix := x\<rparr>)" for x
    using Cons.prems that unfolding swapping_def by (auto simp: held_def)
  have same: "c = e" if "idx_lookup (ix s) k = Some c" "fileID c \<in> M" for c
  proof -
    have "(k, c) \<in> set ((z # zs) @ zs')" using w(5) that unfolding covered_def by auto
    then show ?thesis using w(6) unfolding z by (auto simp: image_iff dest: eq_key_imp_eq_value)
  qed
  show ?case
  proof (cases "\<exists>c. idx_lookup (ix s) k = Some c \<and> eseq c = eseq e \<and> fileID c = fileID e")
    case True
    then obtain c where c: "idx_lookup (ix s) k = Some c" "eseq c = eseq e" "fileID c = fileID e" by blast
    have e: "tomb e" "fileID e \<in> M" using w(9,10) [of k e] z by simp_all
    have ce: "c = e" by (rule same [OF c(1)]) (use e(2) c(3) in simp)
    from drop_tombstone [OF w(1) c(1)] e(1) ce obtain x where x: "idx_del k (ix s) = Some x"
        "idx_lookup x = (idx_lookup (ix s))(k := None)" "store_ok (s\<lparr>ix := x\<rparr>)" "contents (s\<lparr>ix := x\<rparr>) = contents s" by blast
    have "covered M (zs @ zs') (s\<lparr>ix := x\<rparr>)"
      using w(5) unfolding covered_def z by (auto simp: x(2) split: if_splits)
    from Cons.IH [OF step [OF x(3) this]] show ?thesis using x(1,4) c z by auto
  next
    case False
    have "covered M (zs @ zs') s"
      unfolding covered_def
    proof (intro allI impI)
      fix k' c assume c: "idx_lookup (ix s) k' = Some c" "fileID c \<in> M"
      then have "(k', c) \<noteq> z" using False z by auto
      moreover have "(k', c) \<in> set ((z # zs) @ zs')" using w(5) c unfolding covered_def by auto
      ultimately show "(k', c) \<in> set (zs @ zs')" by auto
    qed
    from step [of "ix s"] this w(1) have "swapping M J [] (zs @ zs') s" by simp
    from Cons.IH [OF this] show ?thesis using False z by (auto split: option.splits)
  qed
qed

lemma in_chunks_ok:
  assumes step: "\<And>xs ys s. P (xs @ ys) s \<Longrightarrow> \<exists>x. f xs (ix s) = Some x \<and> P ys (s\<lparr>ix := x\<rparr>) \<and> contents (s\<lparr>ix := x\<rparr>) = contents s"
    and gap: "\<And>xs s n. P xs s \<Longrightarrow> P xs (env n s) \<and> (contents s, contents (env n s)) \<in> R" and "P xs s"
  shows "\<exists>m t. in_chunks env n f xs s = (Inr m, t) \<and> P [] t \<and> (contents s, contents t) \<in> R\<^sup>*"
  using assms(3)
proof (induction "length xs" arbitrary: xs s n rule: less_induct)
  case less
  show ?case
  proof (cases "xs = []")
    case True
    then show ?thesis using less.prems by (auto simp: in_chunks.simps)
  next
    case False
    let ?a = "take repointChunk xs" and ?b = "drop repointChunk xs"
    from step [of ?a ?b s] less.prems obtain x where x: "f ?a (ix s) = Some x" "P ?b (s\<lparr>ix := x\<rparr>)" "contents (s\<lparr>ix := x\<rparr>) = contents s" by auto
    let ?s = "env n (s\<lparr>ix := x\<rparr>)"
    have g: "P ?b ?s" "(contents s, contents ?s) \<in> R" using gap [OF x(2), of n] x(3) by simp_all
    have "length ?b < length xs" using False by (simp add: repointChunk_def)
    from less.hyps [OF this g(1), of "Suc n"] obtain m t
      where t: "in_chunks env (Suc n) f ?b ?s = (Inr m, t)" "P [] t" "(contents ?s, contents t) \<in> R\<^sup>*" by blast
    have "in_chunks env n f xs s = (Inr m, t)" using False x(1) t(1) by (subst in_chunks.simps) simp
    then show ?thesis using t(2) g(2) t(3) by (meson converse_rtrancl_into_rtrancl)
  qed
qed

section \<open>Sealing, the snapshot, the old files\<close>

lemma quiet_store_ok: "store_ok s \<Longrightarrow> store_inv t \<Longrightarrow> quiet s t \<Longrightarrow> store_ok t \<and> view t = view s"
  by (simp add: store_ok_def seq_ok_def quiet_def)

lemma openNewActive_names:
  assumes "names_ok (disk s)" and "openNewActive s = (r, t)"
  shows "names_ok (disk t)"
proof (cases "createDataFile (nextID s) (disk s)")
  case (Pair x d)
  note l = leavesD(1) [OF createDataFile_leaves [OF assms(1) Pair]]
  show ?thesis
  proof (cases x)
    case (Inl er)
    then show ?thesis using assms(2) Pair l by (auto simp: openNewActive_def on_disk_def)
  next
    case (Inr df)
    obtain y d' where y: "syncDir d = (y, d')" by fastforce
    then have "disk t = d'" using assms(2) Pair Inr by (auto simp: openNewActive_def on_disk_def Let_def)
    then show ?thesis using syncDir_frame [OF y] l by (simp add: names_ok_def)
  qed
qed

lemma seal_ok:
  assumes ok: "store_ok s" and nm: "names_ok (disk s)" and r: "seal s = (r, t)"
  shows "store_ok t \<and> names_ok (disk t) \<and> view t = view s \<and> r \<noteq> Inl Panic \<and>
    (\<forall>b a. r = Inr (b, a) \<longrightarrow> (\<exists>p. active t = Some p \<and> did (dfs t ! p) = a))"
proof -
  obtain p where p: "active s = Some p" using store_okD(2) [OF ok] by (auto simp: active_ok_def)
  have act: "\<exists>p. active t = Some p" if "store_ok t" for t using store_okD(2) [OF that] by (auto simp: active_ok_def)
  show ?thesis
  proof (cases "dsize (dfs s ! p) > 0")
    case False
    then show ?thesis using r p ok nm by (auto simp: seal_def)
  next
    case True
    obtain x d where x: "SyncFile (dfile (dfs s ! p)) (disk s) = (x, d)" by fastforce
    let ?s = "s\<lparr>disk := d\<rparr>"
    have s1: "store_ok ?s" "view ?s = view s" "names_ok d"
      using quiet_store_ok [OF ok store_inv_sync [OF _ x]] ok leaves_only [OF nm SyncFile_only [OF x], of "{}"] leavesD(1)
      by (auto simp: store_ok_def)
    show ?thesis
    proof (cases x)
      case (Inl er)
      then show ?thesis using r p True x s1 SyncFile_error by (auto simp: seal_def on_disk_def)
    next
      case (Inr u)
      obtain y s2 where y: "openNewActive ?s = (y, s2)" by fastforce
      have o: "store_ok s2" "view s2 = view s" "y \<noteq> Inl Panic" "names_ok (disk s2)"
        using openNewActive_ok [OF _ y] quiet_store_ok [OF s1(1)] s1 openNewActive_names [OF _ y] by (auto simp: store_ok_def)
      have dt: "store_ok (s2\<lparr>dirty := False\<rparr>)" using o(1) by (simp add: store_ok_def store_inv_def seq_ok_def)
      obtain q where q: "active s2 = Some q" using act [OF o(1)] by blast
      show ?thesis
        using r p True x Inr y o dt q by (cases y) (auto simp: seal_def on_disk_def)
    qed
  qed
qed

lemma merge_set_held:
  assumes "store_ok s" and "active s = Some p" and "did (dfs s ! p) = a"
  shows "held (set (merge_set a s)) s"
  unfolding held_def
proof
  fix i assume "i \<in> set (merge_set a s)"
  then have i: "i \<noteq> a" "i \<in> set (map fst (files s))" by (auto simp: merge_set_def)
  then obtain q where q: "map_of (files s) i = Some q" by (metis map_of_eq_None_iff not_None_eq set_map)
  moreover have "did (dfs s ! q) = i" by (rule files_okD(2) [OF store_okD(1) [OF assms(1)] q])
  ultimately show "\<exists>q. map_of (files s) i = Some q \<and> active s \<noteq> Some q" using assms(2,3) i(1) by auto
qed

lemma scan_nodes_split:
  "scan_nodes [] (\<lambda>n (items, retired). if P n then (True, (items, retired)) else if Q n then (True, (items, retired @ [f n]))
     else (True, (items @ [f n], retired))) ns (as, bs) =
   (as @ map f (filter (\<lambda>n. \<not> P n \<and> \<not> Q n) ns), bs @ map f (filter (\<lambda>n. \<not> P n \<and> Q n) ns))"
  by (induction ns arbitrary: as bs) auto

lemma merge_snapshot_eq:
  assumes "index_inv (ix s)"
  shows "merge_snapshot ids s =
    Some (filter (\<lambda>(k, e). fileID e \<in> set ids \<and> \<not> tomb e) (inorder (ix s)),
      filter (\<lambda>(k, e). fileID e \<in> set ids \<and> tomb e) (inorder (ix s)))"
proof -
  let ?h = "heap (ix s)" and ?as = "addrs (heap (ix s)) (order (ix s))"
  have rep: "sl_rep ?h (order (ix s)) ?as" using assms by (simp add: index_inv_def)
  have sorted: "sorted_wrt (<) (map (\<lambda>a. nkey (?h ! a)) ?as)" using rep by (simp add: sl_rep_def)
  have all: "rest ?h [] ?as = ?as" by (simp add: rest_filter [OF sorted])
  show ?thesis
    unfolding merge_snapshot_def scan_rep [OF rep] scan_nodes_split all
    by (simp add: inorder_def filter_map o_def)
qed

lemma merge_snapshot_ok:
  assumes ok: "store_ok s" and r: "merge_snapshot ids s = Some (items, retired)"
  shows "items_ok (set ids) items s" and "covered (set ids) (items @ retired) s" and "distinct (map fst (items @ retired))"
    and "\<forall>(k, e) \<in> set retired. tomb e \<and> fileID e \<in> set ids"
proof -
  have io: "index_ok (ix s) (logs s)" and inv: "index_inv (ix s)" using store_okD(3) [OF ok] by (simp_all add: index_ok_def)
  note e = merge_snapshot_eq [OF inv, of ids, unfolded r] and iff = ix.listing_iff [OF inv]
  show "items_ok (set ids) items s" using e io by (auto simp: items_ok_def iff index_ok_def)
  show "covered (set ids) (items @ retired) s" using e by (auto simp: covered_def iff)
  show "\<forall>(k, e) \<in> set retired. tomb e \<and> fileID e \<in> set ids" using e by auto
  have d: "distinct (map fst (inorder (ix s)))" by (rule ix.listing_distinct [OF inv])
  have "fst x \<noteq> fst y" if "x \<in> set items" "y \<in> set retired" for x y
    using that e eq_key_imp_eq_value [OF d, of "fst x" "snd x" "snd y"] by (cases x; cases y) auto
  then show "distinct (map fst (items @ retired))"
    using e d by (auto simp: distinct_map_filter)
qed

text \<open>The old files hold nothing any more.\<close>

definition emptied :: "u32 set \<Rightarrow> store \<Rightarrow> bool" where
  "emptied M s \<longleftrightarrow> store_ok s \<and> names_ok (disk s) \<and> (\<forall>i \<in> M. \<forall>p. map_of (files s) i = Some p \<longrightarrow> active s \<noteq> Some p) \<and>
     (\<forall>k e. idx_lookup (ix s) k = Some e \<longrightarrow> fileID e \<notin> M)"

lemma emptied_disk:
  assumes "emptied M s" and "leaves N (disk s) d" and "\<And>i. map_of (files s) i \<noteq> None \<Longrightarrow> dataPath i \<in> N"
  shows "emptied M (s\<lparr>disk := d\<rparr>) \<and> view (s\<lparr>disk := d\<rparr>) = view s"
  using assms(1) store_ok_disk [OF _ assms(2,3)] leavesD(1) [OF assms(2)] by (auto simp: emptied_def)

lemma drop_merged_ok:
  assumes m: "emptied M s" and i: "i \<in> M"
  shows "emptied M (drop_merged s i) \<and> view (drop_merged s i) = view s"
proof -
  have hint: "emptied M (t\<lparr>disk := ignore (Remove (hintPath i) (disk t))\<rparr>) \<and> view (t\<lparr>disk := ignore (Remove (hintPath i) (disk t))\<rparr>) = view t"
    if "emptied M t" for t
    by (rule emptied_disk [OF that Remove_leaves]) (use that in \<open>auto simp: emptied_def\<close>)
  show ?thesis
  proof (cases "map_of (files s) i")
    case None
    then show ?thesis using hint [OF m] by (simp add: drop_merged_def)
  next
    case (Some p)
    have ok: "store_ok s" "names_ok (disk s)" "active s \<noteq> Some p" "\<And>k e. idx_lookup (ix s) k = Some e \<Longrightarrow> fileID e \<noteq> i"
      using m i Some by (auto simp: emptied_def)
    let ?d = "ignore (Remove (dpath (dfs s ! p)) (disk s))"
    define t where "t = s\<lparr>files := AList.delete i (files s), dfs := (dfs s)[p := close (dfs s ! p)], disk := ?d\<rparr>"
    have l: "leaves (- {dataPath i}) (disk s) ?d"
      using Remove_leaves [OF ok(2)] files_okD(4) [OF store_okD(1) [OF ok(1)] Some] by simp
    note d = drop_file_ok [OF ok(1) Some ok(3,4) l t_def]
    have e: "emptied M t" using m d(1) leavesD(1) [OF l] by (auto simp: emptied_def t_def delete_conv')
    have "drop_merged s i = t\<lparr>disk := ignore (Remove (hintPath i) (disk t))\<rparr>" using Some by (simp add: drop_merged_def t_def)
    then show ?thesis using hint [OF e] d(2) by simp
  qed
qed

lemma drop_all_merged:
  assumes "emptied M s" and "set ids \<subseteq> M"
  shows "emptied M (foldl drop_merged s ids) \<and> view (foldl drop_merged s ids) = view s"
  using assms
proof (induction ids arbitrary: s)
  case (Cons i ids)
  then show ?case using drop_merged_ok [OF Cons.prems(1), of i] Cons.IH [of "drop_merged s i"] by auto
qed simp

lemma recomputeUsage_ok:
  assumes "store_ok s"
  shows "store_ok (recomputeUsage s) \<and> view (recomputeUsage s) = view s"
proof -
  have "store_ok (recountLocked s)" using recountLocked_ok [OF store_okD [OF assms]] assms by (simp add: store_ok_def)
  moreover have "view (recountLocked s) = view s" by (simp add: recountLocked_def Let_def)
  ultimately show ?thesis by (simp add: recomputeUsage_def Let_def store_ok_def store_inv_def seq_ok_def)
qed

section \<open>A merge is invisible\<close>

text \<open>
  The merge set is computed after the write lock is released. No rotation in between: the file
  that was active when the lock was released still is.
\<close>

definition no_rotation :: "(nat \<Rightarrow> store \<Rightarrow> store) \<Rightarrow> bool" where
  "no_rotation env \<longleftrightarrow> (\<forall>s p. active s = Some p \<longrightarrow> active (env 0 s) = Some p \<and> did (dfs (env 0 s) ! p) = did (dfs s ! p))"

lemma finish_ok:
  assumes m: "emptied (set ids) s"
  defines "t \<equiv> foldl drop_merged s ids"
  shows "store_ok (recomputeUsage (t\<lparr>disk := ignore (syncDir (disk t))\<rparr>)) \<and>
    view (recomputeUsage (t\<lparr>disk := ignore (syncDir (disk t))\<rparr>)) = view s"
proof -
  have d: "emptied (set ids) t \<and> view t = view s" unfolding t_def by (rule drop_all_merged [OF m subset_refl])
  obtain x d' where x: "syncDir (disk t) = (x, d')" by fastforce
  have "leaves UNIV (disk t) d'" using leaves_same syncDir_frame [OF x] d by (auto simp: emptied_def)
  with d emptied_disk [of "set ids" t UNIV d'] have "emptied (set ids) (t\<lparr>disk := d'\<rparr>) \<and> view (t\<lparr>disk := d'\<rparr>) = view t" by blast
  then show ?thesis using recomputeUsage_ok [of "t\<lparr>disk := d'\<rparr>"] x d by (simp add: ignore_def emptied_def)
qed

lemma swapping_emptied: "swapping M J [] [] s \<Longrightarrow> emptied M s"
  using heldD by (fastforce simp: swapping_def emptied_def covered_def)

lemma swap_over_ok:
  assumes "swapping (set ids) J ms retired s" and w: "writers R env"
    and r: "swap_over env n barrier ids ms retired s = (r, t)"
  shows "store_ok t \<and> (contents s, contents t) \<in> R\<^sup>* \<and> r \<noteq> Inl Panic"
proof -
  let ?M = "set ids"
  have "\<exists>m t. in_chunks env n repoint ms s = (Inr m, t) \<and> swapping ?M J [] retired t \<and> (contents s, contents t) \<in> R\<^sup>*"
    by (rule in_chunks_ok [where P = "\<lambda>ys. swapping ?M J ys retired"]) (use repoint_ok swapping_env [OF _ w] assms(1) in blast)+
  then obtain m s1 where 1: "in_chunks env n repoint ms s = (Inr m, s1)" "swapping ?M J [] retired s1" "(contents s, contents s1) \<in> R\<^sup>*"
    by blast
  have "\<exists>m' t. in_chunks env m retire retired s1 = (Inr m', t) \<and> swapping ?M J [] [] t \<and> (contents s1, contents t) \<in> R\<^sup>*"
    by (rule in_chunks_ok [where P = "\<lambda>zs. swapping ?M J [] zs"]) (use retire_ok swapping_env [OF _ w] 1(2) in blast)+
  then obtain m' s2 where 2: "in_chunks env m retire retired s1 = (Inr m', s2)" "swapping ?M J [] [] s2" "(contents s1, contents s2) \<in> R\<^sup>*"
    by blast
  define s3 where "s3 = s2\<lparr>mergeSeq := barrier, disk := ignore (writeManifest barrier (disk s2))\<rparr>"
  note w2 = swappingD [OF 2(2)]
  have l: "leaves (- {manifestPath, manifestTmp}) (disk s2) (disk s3)" using writeManifest_leaves [OF w2(2)] by (simp add: s3_def)
  have "dataPath i \<in> - {manifestPath, manifestTmp}" for i using dataPath_not_manifest by auto
  note k = store_ok_disk [OF w2(1) l this]
  have "swapping ?M J [] [] s3" and v3: "view s3 = view s2"
    using 2(2) k leavesD(1) [OF l] by (auto simp: swapping_def s3_def held_def covered_def store_ok_def store_inv_def seq_ok_def)
  note e = swapping_env [OF this(1) w, of m']
  note f = finish_ok [OF swapping_emptied [OF e(1)]]
  have t: "r = Inr ()" "store_ok t" "view t = view (env m' s3)" using r 1(1) 2(1) f by (auto simp: swap_over_def Let_def s3_def)
  have "(contents s2, contents t) \<in> R\<^sup>*" using e(2) v3 t(3) by auto
  then show ?thesis using t(1,2) 1(3) 2(3) by auto
qed

lemma merge_rest_ok:
  assumes m: "merging (set ids) s []" and sn: "merge_snapshot ids s = Some (items, retired)" and w: "writers R env"
    and r: "andThen (merge_out env 3 items (env 2 s)) (\<lambda>(moved, outs) s.
      swap_over env (4 + length items) barrier ids (zip items moved) retired (env (3 + length items) s)) = (r, t)"
  shows "store_ok t \<and> (contents s, contents t) \<in> R\<^sup>* \<and> r \<noteq> Inl Panic"
proof -
  note ms = merge_snapshot_ok [OF mergingD(1) [OF m] sn]
  note g = goes_on_env [OF m w, of 2]
  obtain y s4 where y: "merge_out env 3 items (env 2 s) = (y, s4)" by fastforce
  note mo = merge_out_ok [OF goes_onD(1) [OF g] goes_onD(4) [OF g ms(1)] goes_onD(3) [OF g ms(2)] w y]
  have c4: "(contents s, contents s4) \<in> R\<^sup>*" using goes_onD(2) [OF g] mo by (meson rtrancl_trans)
  show ?thesis
  proof (cases y)
    case (Inl er)
    then have "r = Inl er" "t = s4" using r y by auto
    then show ?thesis using mo c4 Inl by simp
  next
    case (Inr mv)
    obtain moved outs where mv: "mv = (moved, outs)" by fastforce
    let ?J = "out_ids s4 outs"
    have l: "loose (set ids) s4 outs" "covered (set ids) (items @ retired) s4" "items_ok (set ids) items s4"
        "list_all2 (moved_in (logs s4) ?J) items moved"
      using mo Inr mv by blast+
    have len: "length moved = length items" using l(4) by (simp add: list_all2_lengthD)
    have "swapping (set ids) ?J (zip items moved) retired s4"
      unfolding swapping_def
    proof (intro conjI)
      show "\<forall>(it, n) \<in> set (zip items moved). fileID (snd it) \<in> set ids \<and> moved_in (logs s4) ?J it n"
        using l(3,4) by (fastforce simp: list_all2_iff items_ok_def dest: set_zip_leftD)
    qed (use looseD(1-4) [OF l(1)] l(2) len ms(3,4) in simp_all)
    note e = swapping_env [OF this w, of "3 + length items"]
    from r y Inr mv
    have "swap_over env (4 + length items) barrier ids (zip items moved) retired (env (3 + length items) s4) = (r, t)" by simp
    from swap_over_ok [OF e(1) w this] show ?thesis using c4 e(2) by (meson rtrancl.rtrancl_into_rtrancl rtrancl_trans)
  qed
qed

lemma Compact_with_ok:
  assumes ok: "store_ok s" and nm: "names_ok (disk s)" and w: "writers R env" and g: "no_rotation env"
    and r: "Compact_with env s = (r, t)"
  shows "store_ok t \<and> (contents s, contents t) \<in> R\<^sup>* \<and> r \<noteq> Inl Panic"
proof (cases "closed s")
  case True
  then show ?thesis using r ok by (auto simp: Compact_with_def)
next
  case running: False
  obtain x s0 where x: "seal s = (x, s0)" by fastforce
  note sl = seal_ok [OF ok nm x]
  have s0: "store_ok s0" "names_ok (disk s0)" "contents s0 = contents s" using sl by simp_all
  show ?thesis
  proof (cases x)
    case (Inl er)
    then show ?thesis using r x running sl by (auto simp: Compact_with_def)
  next
    case (Inr ba)
    obtain b a where ba: "ba = (b, a)" by fastforce
    obtain p where p: "active s0 = Some p" "did (dfs s0 ! p) = a" using sl Inr ba by blast
    define s1 where "s1 = env 0 s0"
    define ids where "ids = merge_set a s1"
    define s2 where "s2 = env 1 s1"
    have "apart {} s0 s1" and c1: "(contents s0, contents s1) \<in> R" using w s0(1,2) unfolding writers_def s1_def held_def by auto
    then have s1: "store_ok s1" "names_ok (disk s1)" using apartD(1) leavesD(1) [OF apartD(2)] by blast+
    have "active s1 = Some p" "did (dfs s1 ! p) = a" using g p unfolding no_rotation_def s1_def by auto
    from merge_set_held [OF s1(1) this] have h: "held (set ids) s1" by (simp add: ids_def)
    have m1: "merging (set ids) s1 []" using s1 h by (simp add: merging_def out_ids_def)
    note g2 = goes_on_env [OF m1 w, of 1, folded s2_def]
    have c2: "(contents s, contents s2) \<in> R\<^sup>*" using c1 goes_onD(2) [OF g2] s0(3) by (metis converse_rtrancl_into_rtrancl)
    note m2 = goes_onD(1) [OF g2]
    have inv: "index_inv (ix s2)" using store_okD(3) [OF mergingD(1) [OF m2]] by (simp add: index_ok_def)
    show ?thesis
    proof (cases "ids = []")
      case True
      then have "r = Inr ()" "t = s2" using r x Inr ba running by (auto simp: Compact_with_def Let_def s1_def s2_def ids_def)
      then show ?thesis using mergingD(1) [OF m2] c2 by simp
    next
      case False
      obtain items retired where sn: "merge_snapshot ids s2 = Some (items, retired)" using merge_snapshot_eq [OF inv] by blast
      from r x Inr ba False running sn
      have "andThen (merge_out env 3 items (env 2 s2)) (\<lambda>(moved, outs) s.
          swap_over env (4 + length items) b ids (zip items moved) retired (env (3 + length items) s)) = (r, t)"
        by (simp add: Compact_with_def Let_def s1_def s2_def ids_def)
      from merge_rest_ok [OF m2 sn w this] show ?thesis using c2 by (meson rtrancl_trans)
    qed
  qed
qed

section \<open>A writer beside the merge\<close>

text \<open>The rest of \<^const>\<open>apart\<close>, for the steps inside an operation.\<close>

definition aside :: "u32 set \<Rightarrow> store \<Rightarrow> store \<Rightarrow> bool" where
  "aside H s t \<longleftrightarrow>
     (\<forall>i \<in> H. \<forall>p. map_of (files s) i = Some p \<longrightarrow> map_of (files t) i = Some p \<and> dfs t ! p = dfs s ! p \<and> active t \<noteq> Some p) \<and>
     leaves (\<Union>i \<in> H. names_of i) (disk s) (disk t) \<and>
     (\<forall>k e. idx_lookup (ix t) k = Some e \<longrightarrow> fileID e \<in> H \<longrightarrow> idx_lookup (ix s) k = Some e)"

lemma apart_aside: "apart H s t \<longleftrightarrow> store_ok t \<and> aside H s t"
  by (auto simp: apart_def aside_def)

lemma aside_refl: "names_ok (disk s) \<Longrightarrow> held H s \<Longrightarrow> aside H s s"
  using heldD by (auto simp: aside_def leaves_refl)

lemma aside_trans:
  assumes "aside H s t" and "aside H t u"
  shows "aside H s u"
  unfolding aside_def
proof (intro conjI ballI allI impI)
  show "leaves (\<Union>i \<in> H. names_of i) (disk s) (disk u)" using assms leaves_trans unfolding aside_def by blast
qed (use assms in \<open>unfold aside_def, metis\<close>)+

lemma aside_held: "held H s \<Longrightarrow> aside H s t \<Longrightarrow> held H t"
  unfolding held_def aside_def by blast

lemma aside_fields:
  assumes "aside H s t" and "files u = files t" "dfs u = dfs t" "active u = active t" "disk u = disk t" "ix u = ix t"
  shows "aside H s u"
  using assms by (simp add: aside_def)

text \<open>What happens to the active file.\<close>

lemma active_leaves:
  assumes inv: "store_inv s" and nm: "names_ok (disk s)" and h: "held H s" and p: "active s = Some p"
    and o: "only_file (ino (dfile (dfs s ! p))) (disk s) d" and c: "\<not> fopen (dfile (dfs s ! p)) \<Longrightarrow> d = disk s"
  shows "leaves (\<Union>i \<in> H. names_of i) (disk s) d"
proof (cases "fopen (dfile (dfs s ! p))")
  case True
  let ?i = "did (dfs s ! p)"
  have f: "files_ok (files s) (dfs s) (disk s)" and m: "map_of (files s) ?i = Some p"
    using inv p True by (auto simp: store_inv_def active_ok_def)
  have "?i \<notin> H" using heldD [OF h _ m] p by blast
  then have "(\<Union>i \<in> H. names_of i) \<subseteq> - {dataPath ?i}" by (auto simp: names_of_def)
  from leaves_mono [OF leaves_own [OF nm o files_okD(7) [OF f m]] this] show ?thesis .
next
  case False
  then show ?thesis using c leaves_refl [OF nm] by simp
qed

lemma aside_new_active:
  assumes inv: "store_inv s" and nm: "names_ok (disk s)" and h: "held H s" and r: "openNewActive s = (r, t)"
  shows "aside H s t"
proof (cases "createDataFile (nextID s) (disk s)")
  case (Pair x d)
  let ?i = "nextID s"
  have fo: "files_ok (files s) (dfs s) (disk s)" using inv by (simp add: store_inv_def)
  note l = createDataFile_leaves [OF nm Pair]
  show ?thesis
  proof (cases x)
    case (Inl er)
    have "same_disk (disk s) d" using createDataFile_Inl Pair Inl by blast
    then have "leaves (\<Union>i \<in> H. names_of i) (disk s) d" using leaves_same [OF nm] by (simp add: same_disk_def)
    moreover have "t = s\<lparr>disk := d\<rparr>" using r Pair Inl by (auto simp: openNewActive_def on_disk_def)
    ultimately show ?thesis using heldD [OF h] by (auto simp: aside_def)
  next
    case (Inr df)
    note fc = files_ok_create [OF fo Pair [unfolded Inr]] and c = createDataFile_Inr [OF Pair [unfolded Inr]]
    obtain y d' where y: "syncDir d = (y, d')" by fastforce
    have t: "files t = AList.update ?i (length (dfs s)) (files s)" "dfs t = dfs s @ [df]" "active t = Some (length (dfs s))" "disk t = d'" "ix t = ix s"
      using r Pair Inr y c(1) by (auto simp: openNewActive_def on_disk_def Let_def)
    have ni: "?i \<notin> H" using held_file [OF h] fc(3) by blast
    then have "(\<Union>i \<in> H. names_of i) \<subseteq> - {dataPath ?i}" by (auto simp: names_of_def)
    from leaves_mono [OF l this] have "leaves (\<Union>i \<in> H. names_of i) (disk s) d'"
      using leaves_trans leaves_same [OF leavesD(1) [OF l]] syncDir_frame [OF y] by blast
    moreover have "map_of (files t) i = Some p \<and> dfs t ! p = dfs s ! p \<and> active t \<noteq> Some p" if "i \<in> H" "map_of (files s) i = Some p" for i p
      using that ni files_okD(1) [OF fo that(2)] by (auto simp: t update_conv' nth_append)
    ultimately show ?thesis unfolding aside_def t(4,5) by blast
  qed
qed

lemma aside_rotate:
  assumes inv: "store_inv s" and nm: "names_ok (disk s)" and h: "held H s" and r: "maybeRotateLocked n s = (r, t)"
  shows "aside H s t"
proof -
  obtain p where p: "active s = Some p" using inv by (auto simp: store_inv_def active_ok_def)
  note refl = aside_refl [OF nm h]
  show ?thesis
  proof (cases "dsize (dfs s ! p) = 0 \<or> dsize (dfs s ! p) + n \<le> maxFileSize s")
    case True
    then show ?thesis using r p refl by (auto simp: maybeRotateLocked_def)
  next
    case False
    obtain x d where x: "SyncFile (dfile (dfs s ! p)) (disk s) = (x, d)" by fastforce
    let ?s = "s\<lparr>disk := d\<rparr>"
    have "leaves (\<Union>i \<in> H. names_of i) (disk s) d"
      by (rule active_leaves [OF inv nm h p SyncFile_only [OF x]]) (use x in \<open>simp add: SyncFile_def\<close>)
    then have a1: "aside H s ?s" using heldD [OF h] by (auto simp: aside_def)
    note inv1 = store_inv_sync(1) [OF inv x]
    show ?thesis
    proof (cases x)
      case (Inl er)
      then show ?thesis using r p False x a1 by (auto simp: maybeRotateLocked_def on_disk_def)
    next
      case (Inr u)
      obtain y s2 where y: "openNewActive ?s = (y, s2)" by fastforce
      have nm1: "names_ok (disk ?s)" using a1 leavesD(1) by (auto simp: aside_def)
      have a2: "aside H ?s s2" by (rule aside_new_active [OF inv1 nm1 aside_held [OF h a1] y])
      have "files t = files s2" "dfs t = dfs s2" "active t = active s2" "disk t = disk s2" "ix t = ix s2"
        using r p False x Inr y by (cases y; auto simp: maybeRotateLocked_def on_disk_def)+
      then show ?thesis using aside_fields [OF aside_trans [OF a1 a2]] by blast
    qed
  qed
qed

lemma indexApplyLocked_lookup:
  assumes "index_inv (ix s)" and "indexApplyLocked k e tmb s = Some t"
  shows "\<exists>x lv n. t = s\<lparr>ix := x, live := lv, nLive := n\<rparr> \<and> index_inv x \<and>
    (\<forall>k' c. idx_lookup x k' = Some c \<longrightarrow> fileID c \<noteq> fileID e \<longrightarrow> idx_lookup (ix s) k' = Some c)"
proof -
  obtain x where x: "idx_put k (e\<lparr>tomb := tmb\<rparr>) (ix s) = Some x" "index_inv x" "idx_lookup x = (idx_lookup (ix s))(k \<mapsto> e\<lparr>tomb := tmb\<rparr>)"
    using ix.put_ok [OF assms(1)] by blast
  have other: "\<forall>k' c. idx_lookup x k' = Some c \<longrightarrow> fileID c \<noteq> fileID e \<longrightarrow> idx_lookup (ix s) k' = Some c"
    using x(3) by (auto split: if_splits)
  show ?thesis
  proof (cases "idx_lookup (ix s) k")
    case None
    have "\<exists>lv n. t = s\<lparr>ix := x, live := lv, nLive := n\<rparr>"
      using assms(2) None x(1) by (cases s) (auto simp: indexApplyLocked_def Let_def split: if_splits)
    then obtain lv n where "t = s\<lparr>ix := x, live := lv, nLive := n\<rparr>" by blast
    then show ?thesis using x(2) other by blast
  next
    case (Some old)
    show ?thesis
    proof (cases "eseq old \<ge> eseq e")
      case True
      then have "t = s\<lparr>ix := ix s, live := live s, nLive := nLive s\<rparr>" using assms(2) Some by (simp add: indexApplyLocked_def Let_def)
      then show ?thesis using assms(1) by blast
    next
      case False
      have "\<exists>lv n. t = s\<lparr>ix := x, live := lv, nLive := n\<rparr>"
        using assms(2) Some False x(1) by (cases s) (auto simp: indexApplyLocked_def Let_def split: if_splits)
      then obtain lv n where "t = s\<lparr>ix := x, live := lv, nLive := n\<rparr>" by blast
      then show ?thesis using x(2) other by blast
    qed
  qed
qed

lemma index_recs_lookup:
  assumes "index_inv (ix s)" and "index_recs base i xs s = Some t"
  shows "\<exists>x lv n. t = s\<lparr>ix := x, live := lv, nLive := n\<rparr> \<and>
    (\<forall>k c. idx_lookup x k = Some c \<longrightarrow> fileID c \<noteq> i \<longrightarrow> idx_lookup (ix s) k = Some c)"
  using assms
proof (induction base i xs s rule: index_recs.induct)
  case (1 base i s)
  then show ?case by (intro exI [of _ "ix s"] exI [of _ "live s"] exI [of _ "nLive s"]) simp
next
  case (2 base i off r xs s)
  let ?e = "\<lparr> pos = base + unat off, eseq = rseq r, fileID = i, esize = encodedSize (length (key r)) (length (val r)), tomb = False \<rparr>"
  obtain s1 where s1: "indexApplyLocked (key r) ?e (tombstone r) s = Some s1" "index_recs base i xs s1 = Some t"
    using 2(3) by (auto simp: bind_eq_Some_conv)
  from indexApplyLocked_lookup [OF 2(2) s1(1)] obtain x lv n where x: "s1 = s\<lparr>ix := x, live := lv, nLive := n\<rparr>" "index_inv x"
      "\<forall>k c. idx_lookup x k = Some c \<longrightarrow> fileID c \<noteq> i \<longrightarrow> idx_lookup (ix s) k = Some c" by auto
  from 2(1) [OF s1(1)] x(1,2) s1(2) obtain x' lv' n' where "t = s1\<lparr>ix := x', live := lv', nLive := n'\<rparr>"
      "\<forall>k c. idx_lookup x' k = Some c \<longrightarrow> fileID c \<noteq> i \<longrightarrow> idx_lookup x k = Some c" by auto
  then show ?case using x(1,3) by (intro exI [of _ x'] exI [of _ lv'] exI [of _ n']) simp
qed

lemma aside_write:
  assumes inv: "store_inv s" and nm: "names_ok (disk s)" and h: "held H s" and r: "write_active recs s = (r, t)"
  shows "aside H s t"
proof -
  obtain p where p: "active s = Some p" "p < length (dfs s)"
      "\<not> fopen (dfile (dfs s ! p)) \<or> map_of (files s) (did (dfs s ! p)) = Some p"
    using inv by (auto simp: store_inv_def active_ok_def)
  let ?af = "dfs s ! p" and ?buf = "encode_all recs"
  obtain x d where x: "WriteAt (dfile ?af) ?buf (dsize ?af) (disk s) = (x, d)" by fastforce
  note o1 = WriteAt_only [OF x]
  have c1: "\<not> fopen (dfile ?af) \<Longrightarrow> d = disk s \<and> x = Inl ErrIO" using x by (simp add: WriteAt_def)
  show ?thesis
  proof (cases x)
    case (Inl er)
    obtain y d' where y: "Truncate (dfile ?af) (dsize ?af) d = (y, d')" by fastforce
    have "only_file (ino (dfile ?af)) (disk s) d'" by (rule only_file_trans [OF o1 Truncate_only [OF y]])
    moreover have "\<not> fopen (dfile ?af) \<Longrightarrow> d' = disk s" using c1 y by (simp add: Truncate_def)
    ultimately have "leaves (\<Union>i \<in> H. names_of i) (disk s) d'" by (rule active_leaves [OF inv nm h p(1)])
    moreover have "t = s\<lparr>disk := d'\<rparr>" using r p(1) x Inl y by (simp add: write_active_def ignore_def)
    ultimately show ?thesis using heldD [OF h] by (auto simp: aside_def)
  next
    case (Inr u)
    then have op: "fopen (dfile ?af)" using c1 by auto
    then have m: "map_of (files s) (did ?af) = Some p" using p(3) by blast
    then have ni: "did ?af \<notin> H" using heldD [OF h _ m] p(1) by blast
    have ptr: "q \<noteq> p" if "i \<in> H" "map_of (files s) i = Some q" for i q using heldD [OF h that] p(1) by auto
    have inv': "index_inv (ix s)" using inv by (simp add: store_inv_def index_ok_def)
    let ?ds = "(dfs s)[p := ?af\<lparr>dsize := dsize ?af + length ?buf\<rparr>]"
    have key: "aside H s v" if v: "files v = files s" "dfs v = ?ds" "active v = active s" "only_file (ino (dfile ?af)) (disk s) (disk v)"
        "\<And>k c. idx_lookup (ix v) k = Some c \<Longrightarrow> fileID c \<noteq> did ?af \<Longrightarrow> idx_lookup (ix s) k = Some c" for v
      unfolding aside_def
    proof (intro conjI ballI allI impI)
      show "leaves (\<Union>i \<in> H. names_of i) (disk s) (disk v)" by (rule active_leaves [OF inv nm h p(1) v(4)]) (use op in simp)
      show "idx_lookup (ix s) k = Some e" if e: "idx_lookup (ix v) k = Some e" "fileID e \<in> H" for k e
        using v(5) [OF e(1)] e(2) ni by (cases "fileID e = did ?af") simp_all
      fix i q assume q: "i \<in> H" "map_of (files s) i = Some q"
      show "map_of (files v) i = Some q" "dfs v ! q = dfs s ! q" "active v \<noteq> Some q"
        using v(1-3) q ptr [OF q] heldD [OF h q] by simp_all
    qed
    define s1 where "s1 = s\<lparr>disk := d, dfs := ?ds, total := total s + int (length ?buf), dirty := True\<rparr>"
    obtain w s2 where w: "(if syncMode s1 = SyncAlways
        then andThen (on_disk (SyncFile (dfile ?af)) s1) (\<lambda>_ s. (Inr (), s\<lparr>dirty := False\<rparr>)) else (Inr (), s1)) = (w, s2)" by fastforce
    obtain y d2 where y: "SyncFile (dfile ?af) d = (y, d2)" by fastforce
    have s2: "files s2 = files s" "dfs s2 = ?ds" "active s2 = active s" "ix s2 = ix s" "disk s2 = d \<or> disk s2 = d2"
      using w y by (cases y; auto simp: s1_def on_disk_def split: if_splits)+
    have o2: "only_file (ino (dfile ?af)) (disk s) (disk s2)" using s2(5) o1 only_file_trans [OF o1 SyncFile_only [OF y]] by auto
    have a2: "aside H s s2" by (rule key [OF s2(1-3) o2]) (simp add: s2(4))
    have r': "(r, t) = andThen (w, s2) (\<lambda>_ s. (case index_recs (dsize ?af) (did ?af) (zip (offsets 0 recs) recs) s of
          None \<Rightarrow> (Inl Panic, s)
        | Some s \<Rightarrow> if recs = [] then (Inl Panic, s) else (Inr (), notify (rseq (last recs)) ?buf s)))"
      unfolding w [symmetric] s1_def r [symmetric] using p(1) x Inr by (simp add: write_active_def Let_def)
    show ?thesis
    proof (cases "index_recs (dsize ?af) (did ?af) (zip (offsets 0 recs) recs) s2")
      case None
      then show ?thesis using r' a2 by (cases w) auto
    next
      case (Some s3)
      from index_recs_lookup [OF _ Some] inv' s2(4) obtain z lv n where z: "s3 = s2\<lparr>ix := z, live := lv, nLive := n\<rparr>"
          "\<forall>k c. idx_lookup z k = Some c \<longrightarrow> fileID c \<noteq> did ?af \<longrightarrow> idx_lookup (ix s) k = Some c" by auto
      have a3: "aside H s s3" by (rule key) (use z s2 o2 in auto)
      have "aside H s (notify n raw s3)" for n raw by (rule aside_fields [OF a3]) (simp_all add: notify_def)
      then show ?thesis using r' a2 a3 Some by (cases w) (auto split: if_splits)
    qed
  qed
qed

lemma aside_writeLocked:
  assumes inv: "store_inv s" and nm: "names_ok (disk s)" and h: "held H s" and r: "writeLocked recs s = (r, t)"
  shows "aside H s t"
proof (cases "maybeRotateLocked (length (encode_all recs)) s")
  case (Pair x s1)
  note a = aside_rotate [OF inv nm h Pair]
  show ?thesis
  proof (cases x)
    case (Inl er)
    then show ?thesis using r Pair a by (simp add: writeLocked_split)
  next
    case (Inr u)
    then have w: "write_active recs s1 = (r, t)" using r Pair by (simp add: writeLocked_split)
    have "store_inv s1" "names_ok (disk s1)" using maybeRotateLocked_ok [OF inv Pair] a leavesD(1) by (auto simp: aside_def)
    from aside_trans [OF a aside_write [OF this aside_held [OF h a] w]] show ?thesis .
  qed
qed

text \<open>A put fits, as long as the sequence numbers last.\<close>

definition putter :: "u64 \<Rightarrow> bytes \<Rightarrow> bytes \<Rightarrow> store \<Rightarrow> store" where
  "putter now k v s = (if unat (seq s) + 1 < 2 ^ 64 then ignore (Put now k v s) else s)"

lemma putter_apart:
  assumes ok: "store_ok s" and nm: "names_ok (disk s)" and h: "held H s"
  shows "apart H s (putter now k v s)" and "contents (putter now k v s) = contents s \<or> contents (putter now k v s) = (contents s)(k \<mapsto> v)"
proof -
  have refl: "apart H s s" using ok aside_refl [OF nm h] by (simp add: apart_aside)
  let ?r = "\<lparr> ts = now, rseq = seq s + 1, flags = 0, key = k, val = v \<rparr>"
  obtain r t where r: "Put now k v s = (r, t)" by fastforce
  have both: "apart H s (putter now k v s) \<and> (contents (putter now k v s) = contents s \<or> contents (putter now k v s) = (contents s)(k \<mapsto> v))"
  proof (cases "closed s \<or> \<not> valid_kv k v \<or> \<not> unat (seq s) + 1 < 2 ^ 64")
    case True
    then have "putter now k v s = s" by (auto simp: putter_def ignore_def Put_def valid_kv_def split: option.splits)
    then show ?thesis using refl by simp
  next
    case False
    then have oc: "outcome ((contents s)(k \<mapsto> v)) s (r, t)" using Put_outcome [OF ok, of k v now] r by simp
    obtain x s1 where x: "writeLocked [?r] (s\<lparr>seq := seq s + 1\<rparr>) = (x, s1)" by fastforce
    have "aside H (s\<lparr>seq := seq s + 1\<rparr>) s1"
      by (rule aside_writeLocked [OF _ _ _ x]) (use ok nm h in \<open>simp_all add: store_ok_def store_inv_def held_def\<close>)
    then have a: "aside H s s1" by (simp add: aside_def)
    have "files t = files s1" "dfs t = dfs s1" "active t = active s1" "disk t = disk s1" "ix t = ix s1"
      using r x False by (cases x; auto simp: Put_def valid_kv_def appendLocked_def)+
    from aside_fields [OF a this] have "apart H s t" using oc by (auto simp: apart_aside outcome_def split: sum.splits)
    then show ?thesis using oc r False by (auto simp: putter_def ignore_def outcome_def split: sum.splits)
  qed
  then show "apart H s (putter now k v s)" "contents (putter now k v s) = contents s \<or> contents (putter now k v s) = (contents s)(k \<mapsto> v)"
    by blast+
qed


definition some_put :: "bytes \<Rightarrow> bytes \<Rightarrow> ((bytes \<Rightarrow> bytes option) \<times> (bytes \<Rightarrow> bytes option)) set" where
  "some_put k v = {(m, m'). m' = m \<or> m' = m(k \<mapsto> v)}"

definition busy :: "nat \<Rightarrow> store \<Rightarrow> store" where
  "busy n s = (if n = 0 then s else putter 6 [0x63] [0x64] s)"

lemma busy_ok: "writers (some_put [0x63] [0x64]) busy" "no_rotation busy"
proof -
  have "apart H s (busy n s) \<and> (contents s, contents (busy n s)) \<in> some_put [0x63] [0x64]"
    if "store_ok s" "names_ok (disk s)" "held H s" for n s H
    using putter_apart [OF that] aside_refl [OF that(2,3)] that(1) by (cases n) (auto simp: busy_def some_put_def apart_aside)
  then show "writers (some_put [0x63] [0x64]) busy" by (auto simp: writers_def)
qed (simp add: no_rotation_def busy_def)

lemma store_ex1_names: "names_ok (disk store_ex1)"
proof -
  have "names_ok (disk store_ex)" by (simp add: names_ok_def store_ex_def)
  then have "names_ok (disk (putter 5 [0x61] [0x62] store_ex))"
    using leavesD(1) [OF apartD(2) [OF putter_apart(1) [OF store_ex_ok, of "{}"]]] by (simp add: held_def)
  then show ?thesis using store_ex_calm(3) by (simp add: store_ex1_def putter_def ignore_def)
qed


text \<open>
  Without that assumption: a file that became active in the gap is in the merge set, although
  writes still go to it. They are lost when the merge deletes it.
\<close>

lemma merge_set_race:
  assumes "active s = Some q" and "map_of (files s) (did (dfs s ! q)) = Some q" and "did (dfs s ! q) \<noteq> activeID"
  shows "did (dfs s ! q) \<in> set (merge_set activeID s)"
  using assms map_of_SomeD by (force simp: merge_set_def)

end
