(* ===== verification/Client.thy ===== *)
theory Client
  imports Requests
begin

text \<open>
  The client, \<open>client/client.go\<close>: one connection at a time, requests retried against other nodes
  after a redirect or a transport error.

  The network is not part of the program. It is a record of parameters over a world \<open>'w\<close> in which
  the other ends of the connections live. The lemmas are about a world that is a cluster of nodes
  of this development behind connections that may be refused, break while a request is written, or
  lose the end of a reply.
\<close>

section \<open>The transport\<close>

text \<open>
  \<open>dial\<close> refuses, or gives a connection with the pending faults of its writes. \<open>deliver\<close> hands bytes to
  the peer: what comes back, and the error with which reading ends behind it (the deadline or the
  end of the connection). \<open>hangup\<close> closes.
\<close>

record 'w wires =
  dial :: "int \<Rightarrow> bytes \<Rightarrow> 'w \<Rightarrow> (error + nat list) \<times> 'w"
  deliver :: "bytes \<Rightarrow> bytes \<Rightarrow> 'w \<Rightarrow> bytes \<times> error \<times> 'w"
  hangup :: "bytes \<Rightarrow> 'w \<Rightarrow> error option \<times> 'w"

text \<open>The connection of a client with its \<open>Writer\<close> and the bytes its \<open>Reader\<close> has not consumed.\<close>

record channel =
  current :: bytes
  cwr :: writer
  unread :: bytes
  cut :: error

record ClientOptions =
  Timeout :: int
  MaxAttempts :: int

record Client =
  addrs :: "bytes list"
  copts :: ClientOptions
  chan :: "channel option"
  nxt :: nat
  cclosed :: bool
  poisoned :: bool

definition NewClient :: "bytes list \<Rightarrow> ClientOptions \<Rightarrow> error + Client" where
  "NewClient ads opts =
     (if ads = [] then Inl ErrNoNodes
      else
        let opts = (if Timeout opts \<le> 0 then opts\<lparr>Timeout := 10 * 1000000000\<rparr> else opts);
            opts = (if MaxAttempts opts \<le> 0 then opts\<lparr>MaxAttempts := 2 * int (length ads) + 2\<rparr> else opts)
        in Inr \<lparr> addrs = ads, copts = opts, chan = None, nxt = 0, cclosed = False, poisoned = False \<rparr>)"

definition dropLocked :: "'w wires \<Rightarrow> Client \<times> 'w \<Rightarrow> error option \<times> Client \<times> 'w" where
  "dropLocked net st = (case st of (c, w) \<Rightarrow>
     (case chan c of
        None \<Rightarrow> (None, (c, w))
      | Some l \<Rightarrow> (case hangup net (current l) w of (er, w) \<Rightarrow> (er, (c\<lparr>chan := None\<rparr>, w)))))"

definition ClientClose :: "'w wires \<Rightarrow> Client \<times> 'w \<Rightarrow> error option \<times> Client \<times> 'w" where
  "ClientClose net st = (case st of (c, w) \<Rightarrow> dropLocked net (c\<lparr>cclosed := True\<rparr>, w))"

section \<open>Connecting\<close>

definition candidates :: "bytes \<Rightarrow> Client \<Rightarrow> bytes list" where
  "candidates prefer c =
     (if prefer \<noteq> [] then [prefer] else []) @
     map (\<lambda>i. addrs c ! ((nxt c + i) mod length (addrs c))) [0..<length (addrs c)]"

fun dial_first :: "'w wires \<Rightarrow> bytes list \<Rightarrow> Client \<times> 'w \<Rightarrow> bool \<times> Client \<times> 'w" where
  "dial_first net [] st = (False, st)"
| "dial_first net (a # as) (c, w) =
     (case dial net (Timeout (copts c)) a w of
        (Inl er, w) \<Rightarrow> dial_first net as (c\<lparr>nxt := nxt c + 1\<rparr>, w)
      | (Inr fl, w) \<Rightarrow>
          (True, (c\<lparr>chan := Some \<lparr> current = a, cwr = NewWriter fl, unread = [], cut = EOF \<rparr>\<rparr>, w)))"

text \<open>The error wraps \<open>ErrNoNodes\<close>; the text of the last refusal is left out.\<close>

definition connectLocked :: "'w wires \<Rightarrow> bytes \<Rightarrow> Client \<times> 'w \<Rightarrow> (Client \<times> 'w, unit) res" where
  "connectLocked net prefer st =
     (if (case chan (fst st) of None \<Rightarrow> False | Some l \<Rightarrow> prefer = [] \<or> prefer = current l) then (Inr (), st)
      else
        let (_, st) = dropLocked net st;
            (connected, st) = dial_first net (candidates prefer (fst st)) st
        in (if connected then Inr () else Inl ErrNoNodes, st))"

section \<open>Requests\<close>

text \<open>What was written before a failure reaches the peer as well.\<close>

definition exchange :: "'w wires \<Rightarrow> bytes \<Rightarrow> Client \<times> 'w \<Rightarrow> (Client \<times> 'w, bytes) res" where
  "exchange net req st = (case st of (c, w) \<Rightarrow>
     (case chan c of
        None \<Rightarrow> (Inl Panic, (c, w))
      | Some l \<Rightarrow>
          (case andThen (WriteFrame req (cwr l)) (\<lambda>_ x. Flush x) of
             (r, x) \<Rightarrow>
               (case deliver net (current l) (wout x) w of
                  (inp, er, w) \<Rightarrow>
                    let l = l\<lparr>cwr := x\<lparr>wout := []\<rparr>, unread := unread l @ inp, cut := er\<rparr> in
                    (case r of
                       Inl e \<Rightarrow> (Inl e, (c\<lparr>chan := Some l\<rparr>, w))
                     | Inr _ \<Rightarrow>
                         (case ReadFrame er (unread l) of
                            (y, u) \<Rightarrow>
                              (case y of Inl e \<Rightarrow> Inl e | Inr fr \<Rightarrow> if fr = [] then Inl ErrMalformed else Inr fr,
                               (c\<lparr>chan := Some (l\<lparr>unread := u\<rparr>)\<rparr>, w))))))))"

text \<open>
  A reply handler gets the first frame, the rest of the stream and the variable its closure
  assigns; it returns its error, the variable, whether it poisons the connection, and what it left
  unread.
\<close>

type_synonym 's handler = "bytes \<Rightarrow> error \<Rightarrow> bytes \<Rightarrow> 's \<Rightarrow> error option \<times> 's \<times> bool \<times> bytes"

text \<open>After a transport error or a useless redirect: drop the connection and move on.\<close>

definition give_up :: "'w wires \<Rightarrow> Client \<times> 'w \<Rightarrow> Client \<times> 'w" where
  "give_up net st = (case snd (dropLocked net st) of (c, w) \<Rightarrow> (c\<lparr>nxt := nxt c + 1\<rparr>, w))"

definition run_handler :: "'w wires \<Rightarrow> 's handler \<Rightarrow> bytes \<Rightarrow> 's \<Rightarrow> Client \<times> 'w \<Rightarrow> (error option \<times> 's) \<times> Client \<times> 'w" where
  "run_handler net hdl fr out st = (case st of (c, w) \<Rightarrow>
     (case chan c of
        None \<Rightarrow> ((Some Panic, out), st)
      | Some l \<Rightarrow>
          (case hdl fr (cut l) (unread l) out of
             (er, out, p, u) \<Rightarrow>
               let c = c\<lparr>chan := Some (l\<lparr>unread := u\<rparr>), poisoned := poisoned c \<or> p\<rparr> in
               if poisoned c
               then (case snd (dropLocked net (c, w)) of (c, w) \<Rightarrow> ((er, out), (c\<lparr>poisoned := False\<rparr>, w)))
               else ((er, out), (c, w)))))"

fun call_loop :: "'w wires \<Rightarrow> bytes \<Rightarrow> 's handler \<Rightarrow> 's \<Rightarrow> nat \<Rightarrow> bytes \<Rightarrow> error option \<Rightarrow> Client \<times> 'w \<Rightarrow>
    (error option \<times> 's) \<times> Client \<times> 'w" where
  "call_loop net req hdl out 0 prefer lastErr st =
     ((Some (case lastErr of None \<Rightarrow> ErrNoNodes | Some er \<Rightarrow> er), out), st)"
| "call_loop net req hdl out (Suc i) prefer lastErr st =
     (case connectLocked net prefer st of
        (Inl er, st) \<Rightarrow> ((Some er, out), st)
      | (Inr _, st) \<Rightarrow>
          (case exchange net req st of
             (Inl er, st) \<Rightarrow> call_loop net req hdl out i [] (Some er) (give_up net st)
           | (Inr fr, st) \<Rightarrow>
               if hd fr = StatusRedirect then
                 let leader = fst (DecStr (NewDec (tl fr))) in
                 if leader = [] \<or> (case chan (fst st) of None \<Rightarrow> False | Some l \<Rightarrow> leader = current l)
                 then call_loop net req hdl out i [] (Some (ErrOther ''node has no leader yet'')) (give_up net st)
                 else call_loop net req hdl out i leader lastErr st
               else if hd fr = StatusError then
                 ((Some (RemoteError (fst (DecStr (NewDec (tl fr))))), out), st)
               else run_handler net hdl fr out st))"

definition call :: "'w wires \<Rightarrow> bytes \<Rightarrow> 's handler \<Rightarrow> 's \<Rightarrow> Client \<times> 'w \<Rightarrow> (error option \<times> 's) \<times> Client \<times> 'w" where
  "call net req hdl out st =
     (if cclosed (fst st) then ((Some ErrClosed, out), st)
      else call_loop net req hdl out (nat (MaxAttempts (copts (fst st)))) [] None st)"

section \<open>The operations\<close>

definition only_ok :: "unit handler" where
  "only_ok first er u out =
     (if hd first \<noteq> StatusOK then Some (ErrOther ''unexpected status'') else None, out, False, u)"

definition ClientPut :: "'w wires \<Rightarrow> bytes \<Rightarrow> bytes \<Rightarrow> Client \<times> 'w \<Rightarrow> (error option \<times> unit) \<times> Client \<times> 'w" where
  "ClientPut net k v = call net (EncBytes v (EncBytes k (NewEnc OpPut))) only_ok ()"

definition ClientRead :: "'w wires \<Rightarrow> bytes \<Rightarrow> Client \<times> 'w \<Rightarrow> (error option \<times> bytes) \<times> Client \<times> 'w" where
  "ClientRead net k = call net (EncBytes k (NewEnc OpGet))
     (\<lambda>first er u out.
        if hd first = StatusNotFound then (Some ErrKeyNotFound, out, False, u)
        else let (v, d) = DecBytes (NewDec (tl first)) in (DecDone d, v, False, u)) []"

definition ClientDelete :: "'w wires \<Rightarrow> bytes \<Rightarrow> Client \<times> 'w \<Rightarrow> (error option \<times> unit) \<times> Client \<times> 'w" where
  "ClientDelete net k = call net (EncBytes k (NewEnc OpDelete))
     (\<lambda>first er u out. (if hd first = StatusNotFound then Some ErrKeyNotFound else None, out, False, u)) ()"

definition ClientBatchPut :: "'w wires \<Rightarrow> bytes list \<Rightarrow> bytes list \<Rightarrow> Client \<times> 'w \<Rightarrow> (error option \<times> unit) \<times> Client \<times> 'w" where
  "ClientBatchPut net ks vs st =
     (if length ks \<noteq> length vs then ((Some ErrBatchLen, ()), st)
      else call net
        (foldl (\<lambda>e (k, v). EncBytes v (EncBytes k e)) (EncU32 (of_nat (length ks)) (NewEnc OpBatchPut)) (zip ks vs))
        only_ok () st)"

text \<open>The loop over the pairs of a chunk: the callback's error, or that of the decoder.\<close>

lemma DecBytes_progress:
  assumes "DecBytes d = (k, d')" and "derr d' = None"
  shows "dB d' = dB d" "dpos d < dpos d'" "dpos d' \<le> length (dB d)"
  using assms by (auto simp: DecBytes_def DecU32_def fail_def Let_def split: if_splits)

lemma DecBytes_err: "derr d \<noteq> None \<Longrightarrow> derr (snd (DecBytes d)) \<noteq> None"
  by (auto simp: DecBytes_def DecU32_def fail_def Let_def)

function decode_chunk :: "(bytes \<Rightarrow> bytes \<Rightarrow> 's \<Rightarrow> error option \<times> 's) \<Rightarrow> Dec \<Rightarrow> 's \<Rightarrow> error option \<times> 's" where
  "decode_chunk fn d out =
     (if DecErr d \<noteq> None \<or> DecEmpty d then (DecErr d, out)
      else
        let (k, d1) = DecBytes d; (v, d2) = DecBytes d1 in
        if DecErr d2 \<noteq> None then (DecErr d2, out)
        else (case fn k v out of
            (Some er, out) \<Rightarrow> (Some er, out)
          | (None, out) \<Rightarrow> decode_chunk fn d2 out))"
  by pat_completeness auto
termination
proof (relation "measure (\<lambda>(_, d, _). length (dB d) - dpos d)", simp, goal_cases)
  case (1 fn d out x k d1 y v d2)
  have e: "DecBytes d = (k, d1)" "DecBytes d1 = (v, d2)" using 1(2-5) by simp_all
  have d2: "derr d2 = None" using 1(6) by (simp add: DecErr_def)
  have d1: "derr d1 = None" using DecBytes_err [of d1] e(2) d2 by (cases "derr d1") simp_all
  from DecBytes_progress [OF e(1) d1] DecBytes_progress [OF e(2) d2] show ?case by simp
qed

declare decode_chunk.simps [simp del]

function range_loop :: "(bytes \<Rightarrow> bytes \<Rightarrow> 's \<Rightarrow> error option \<times> 's) \<Rightarrow> 's handler" where
  "range_loop fn fr er u out =
     (if hd fr = StatusRangeEnd then (None, out, False, u)
      else if hd fr = StatusRangeChunk then
        (case decode_chunk fn (NewDec (tl fr)) out of
           (Some e, out) \<Rightarrow> (Some e, out, True, u)
         | (None, out) \<Rightarrow>
             (case ReadFrame er u of
                (Inl e, u) \<Rightarrow> (Some e, out, True, u)
              | (Inr fr, u) \<Rightarrow>
                  if fr = [] then (Some ErrMalformed, out, True, u) else range_loop fn fr er u out))
      else if hd fr = StatusError then (Some (RemoteError (fst (DecStr (NewDec (tl fr))))), out, False, u)
      else (Some (ErrOther ''unexpected status in range reply''), out, True, u))"
  by pat_completeness auto
termination
  by (relation "measure (\<lambda>(_, _, _, u, _). length u)")
     (auto simp: ReadFrame_def ReadFull_def Let_def split: if_splits)

declare range_loop.simps [simp del]

definition ScanKeyRange :: "'w wires \<Rightarrow> bytes \<Rightarrow> bytes \<Rightarrow> int \<Rightarrow> (bytes \<Rightarrow> bytes \<Rightarrow> 's \<Rightarrow> error option \<times> 's) \<Rightarrow> 's \<Rightarrow>
    Client \<times> 'w \<Rightarrow> (error option \<times> 's) \<times> Client \<times> 'w" where
  "ScanKeyRange net startKey endKey limit fn out =
     call net (EncU32 (of_int (max limit 0)) (EncBytes endKey (EncBytes startKey (NewEnc OpRange)))) (range_loop fn) out"

definition ReadKeyRange :: "'w wires \<Rightarrow> bytes \<Rightarrow> bytes \<Rightarrow> int \<Rightarrow> Client \<times> 'w \<Rightarrow> (error option \<times> (bytes \<times> bytes) list) \<times> Client \<times> 'w" where
  "ReadKeyRange net startKey endKey limit = ScanKeyRange net startKey endKey limit (\<lambda>k v out. (None, out @ [(k, v)])) []"

definition Ping :: "'w wires \<Rightarrow> Client \<times> 'w \<Rightarrow> (error option \<times> unit) \<times> Client \<times> 'w" where
  "Ping net = call net [OpPing] (\<lambda>first er u out. (None, out, False, u)) ()"

text \<open>Stats, Info and Compact: the pairs of the reply as a map.\<close>

fun pairs_loop :: "nat \<Rightarrow> Dec \<Rightarrow> (bytes \<rightharpoonup> bytes) \<Rightarrow> error option \<times> (bytes \<rightharpoonup> bytes)" where
  "pairs_loop 0 d out = (DecErr d, out)"
| "pairs_loop (Suc i) d out =
     (if DecErr d \<noteq> None then (DecErr d, out)
      else let (k, d) = DecStr d; (v, d) = DecStr d in pairs_loop i d (out(k \<mapsto> v)))"

definition pairs :: "'w wires \<Rightarrow> byte \<Rightarrow> Client \<times> 'w \<Rightarrow> (error option \<times> (bytes \<rightharpoonup> bytes)) \<times> Client \<times> 'w" where
  "pairs net op = call net [op]
     (\<lambda>first er u out.
        let (count, d) = DecU32 (NewDec (tl first)); (e, out) = pairs_loop (unat count) d out
        in (e, out, False, u)) Map.empty"

definition ClientStats :: "'w wires \<Rightarrow> Client \<times> 'w \<Rightarrow> (error option \<times> (bytes \<rightharpoonup> bytes)) \<times> Client \<times> 'w" where
  "ClientStats net = pairs net OpStats"

definition ClientInfo :: "'w wires \<Rightarrow> Client \<times> 'w \<Rightarrow> (error option \<times> (bytes \<rightharpoonup> bytes)) \<times> Client \<times> 'w" where
  "ClientInfo net = pairs net OpInfo"

definition ClientCompact :: "'w wires \<Rightarrow> Client \<times> 'w \<Rightarrow> (error option \<times> (bytes \<rightharpoonup> bytes)) \<times> Client \<times> 'w" where
  "ClientCompact net = pairs net OpCompact"

text \<open>The two operator calls to one node: a client of its own, one attempt, closed afterwards.\<close>

definition InfoFrom :: "'w wires \<Rightarrow> bytes \<Rightarrow> int \<Rightarrow> 'w \<Rightarrow> (error option \<times> (bytes \<rightharpoonup> bytes)) \<times> 'w" where
  "InfoFrom net addr tmo w =
     (case NewClient [addr] \<lparr> Timeout = tmo, MaxAttempts = 1 \<rparr> of
        Inl er \<Rightarrow> ((Some er, Map.empty), w)
      | Inr c \<Rightarrow> (case ClientInfo net (c, w) of (r, st) \<Rightarrow> (r, snd (snd (ClientClose net st)))))"

definition ClientPromote :: "'w wires \<Rightarrow> bytes \<Rightarrow> int \<Rightarrow> 'w \<Rightarrow> error option \<times> 'w" where
  "ClientPromote net addr tmo w =
     (case NewClient [addr] \<lparr> Timeout = tmo, MaxAttempts = 1 \<rparr> of
        Inl er \<Rightarrow> (Some er, w)
      | Inr c \<Rightarrow>
          (case call net [OpPromote] (\<lambda>first er u out. (None, out, False, u)) () (c, w) of
             ((er, _), st) \<Rightarrow> (er, snd (snd (ClientClose net st)))))"

section \<open>A cluster behind an unreliable network\<close>

text \<open>
  The nodes by address. \<open>dials\<close> holds the fate of the next attempts to connect: refused, or accepted
  with the given faults of the writes (none once the list is used up). \<open>cuts\<close> tells how much of the
  next replies arrives: \<open>Suc n\<close> loses everything behind \<open>n\<close> bytes.
\<close>

record cluster =
  cnodes :: "(bytes \<times> node) list"
  dials :: "nat list option list"
  cuts :: "nat list"

definition cluster_dial :: "int \<Rightarrow> bytes \<Rightarrow> cluster \<Rightarrow> (error + nat list) \<times> cluster" where
  "cluster_dial tmo a w =
     (let fate = (case dials w of [] \<Rightarrow> Some [] | f # _ \<Rightarrow> f); w = w\<lparr>dials := tl (dials w)\<rparr> in
      (case map_of (cnodes w) a of
         None \<Rightarrow> (Inl ErrIO, w)
       | Some n \<Rightarrow> (case fate of None \<Rightarrow> (Inl ErrIO, w) | Some fl \<Rightarrow> (Inr fl, w))))"

definition cluster_deliver :: "runtime \<Rightarrow> int \<Rightarrow> bytes \<Rightarrow> bytes \<Rightarrow> cluster \<Rightarrow> bytes \<times> error \<times> cluster" where
  "cluster_deliver rt now a bs w =
     (case map_of (cnodes w) a of
        None \<Rightarrow> ([], EOF, w)
      | Some n \<Rightarrow>
          (case serveConn rt now EOF bs (n, NewWriter []) of
             None \<Rightarrow> ([], ErrIO, w)
           | Some (_, (n', x)) \<Rightarrow>
               let arrived = (case cuts w of Suc m # _ \<Rightarrow> take m (wout x) | _ \<Rightarrow> wout x) in
               (arrived, EOF, w\<lparr>cnodes := AList.update a n' (cnodes w), cuts := tl (cuts w)\<rparr>)))"

definition cluster_wires :: "runtime \<Rightarrow> int \<Rightarrow> cluster wires" where
  "cluster_wires rt now =
     \<lparr> dial = cluster_dial, deliver = cluster_deliver rt now, hangup = (\<lambda>a w. (None, w)) \<rparr>"

section \<open>A write against a cluster\<close>

text \<open>The three writes of a client, and the bytes of their requests.\<close>

fun submit :: "'w wires \<Rightarrow> mutation \<Rightarrow> Client \<times> 'w \<Rightarrow> (error option \<times> unit) \<times> Client \<times> 'w" where
  "submit net (WPut k v) = ClientPut net k v"
| "submit net (WDelete k) = ClientDelete net k"
| "submit net (WBatch prs) = ClientBatchPut net (map fst prs) (map snd prs)"

abbreviation request :: "mutation \<Rightarrow> bytes" where
  "request a \<equiv> mutation_op a # mutation_body a"

lemma foldl_pairs: "foldl (\<lambda>e (k, v). e @ str_enc k @ str_enc v) e prs = e @ pairs_enc prs"
  by (induction prs arbitrary: e) auto

text \<open>The handler of each write accepts the reply OK only, apart from what a delete may get.\<close>

definition write_handler :: "mutation \<Rightarrow> unit handler \<Rightarrow> bool" where
  "write_handler a hdl \<longleftrightarrow> (\<forall>fr er u out. fst (snd (snd (hdl fr er u out))) = False \<and> snd (snd (snd (hdl fr er u out))) = u \<and>
     (fst (hdl fr er u out) = None \<longrightarrow> hd fr = StatusNotFound \<longrightarrow> False) \<and>
     (hd fr = StatusOK \<longrightarrow> fst (hdl fr er u out) = None))"

lemma submit_call:
  "\<exists>hdl. write_handler a hdl \<and> (\<forall>st. submit net a st = call net (request a) hdl () st)"
proof (cases a)
  case (WPut k v)
  then show ?thesis
    by (intro exI [of _ only_ok]) (auto simp: ClientPut_def codec NewEnc_def write_handler_def only_ok_def statuses)
next
  case (WDelete k)
  then show ?thesis
    by (intro exI [of _ "\<lambda>first er u out. (if hd first = StatusNotFound then Some ErrKeyNotFound else None, out, False, u)"])
       (auto simp: ClientDelete_def codec NewEnc_def write_handler_def statuses)
next
  case (WBatch prs)
  then show ?thesis
    by (intro exI [of _ only_ok])
       (auto simp: ClientBatchPut_def codec NewEnc_def write_handler_def only_ok_def statuses foldl_pairs zip_map_fst_snd)
qed

text \<open>What the writer has handed on, whether or not the writes succeeded.\<close>

lemma bwWrite_out:
  assumes "bwWrite bs x = (r, y)"
  shows "\<exists>n. wout y = wout x @ take n bs" and "r = Inr u \<Longrightarrow> wout y = wout x @ bs"
  using assms by (auto simp: bwWrite_def split: list.splits nat.splits intro: exI [of _ "length bs"])

lemma write_frame_out:
  assumes "andThen (WriteFrame req x) (\<lambda>_ x. Flush x) = (r, y)" and "wout x = []"
  shows "\<exists>z. frame req = wout y @ z" and "r = Inr u \<Longrightarrow> wout y = frame req \<and> frame_ok req"
proof -
  let ?h = "be_bytes 4 (of_nat (length req) :: u32)"
  have "(\<exists>z. frame req = wout y @ z) \<and> (\<forall>u. r = Inr u \<longrightarrow> wout y = frame req \<and> frame_ok req)"
  proof (cases "frame_ok req")
    case False
    then show ?thesis using assms by (auto simp: WriteFrame_def)
  next
    case True
    obtain r1 y1 where 1: "bwWrite ?h x = (r1, y1)" by fastforce
    show ?thesis
    proof (cases r1)
      case (Inl er)
      then have "r = Inl er" "y = y1" using assms(1) 1 True by (auto simp: WriteFrame_def)
      moreover obtain n where "wout y1 = take n ?h" using bwWrite_out(1) [OF 1] assms(2) by auto
      ultimately show ?thesis by (auto intro!: exI [of _ "drop n ?h @ req"] simp flip: append_assoc)
    next
      case (Inr v)
      then have y1: "wout y1 = ?h" using bwWrite_out(2) [OF 1] assms(2) by simp
      obtain r2 y2 where 2: "bwWrite req y1 = (r2, y2)" by fastforce
      show ?thesis
      proof (cases r2)
        case (Inl er)
        then have "r = Inl er" "y = y2" using assms(1) 1 2 Inr True by (auto simp: WriteFrame_def)
        moreover obtain n where "wout y2 = ?h @ take n req" using bwWrite_out(1) [OF 2] y1 by auto
        ultimately show ?thesis by (auto intro!: exI [of _ "drop n req"])
      next
        case (Inr v')
        then have "wout y2 = frame req" using bwWrite_out(2) [OF 2] y1 by simp
        moreover have "bwWrite [] y2 = (r, y)" using assms(1) 1 2 \<open>r1 = Inr v\<close> Inr True by (auto simp: WriteFrame_def Flush_def)
        ultimately show ?thesis using bwWrite_out(1) True by fastforce
      qed
    qed
  qed
  then show "\<exists>z. frame req = wout y @ z" "r = Inr u \<Longrightarrow> wout y = frame req \<and> frame_ok req" by auto
qed

text \<open>A node that can take a number of further writes.\<close>

definition ready :: "nat \<Rightarrow> node \<Rightarrow> bool" where
  "ready i n \<longleftrightarrow> store_ok (kv n) \<and> \<not> closed (kv n) \<and> unat (seq (kv n)) + (i + 1) * 2 ^ 32 < 2 ^ 64 \<and> length (leaderAddr n) < 2 ^ 20"

text \<open>The write has been applied to the node, once or not at all; nothing else has changed.\<close>

definition touched :: "mutation \<Rightarrow> node \<Rightarrow> node \<Rightarrow> bool" where
  "touched a n n' \<longleftrightarrow> role n' = role n \<and> leaderAddr n' = leaderAddr n \<and> closing n' = closing n \<and> cfg n' = cfg n \<and>
     (contents (kv n') = contents (kv n) \<or> role n = Leader \<and> contents (kv n') = mutated a (contents (kv n)))"

lemma touched_refl [simp]: "touched a n n"
  by (simp add: touched_def)

lemma touched_trans: "touched a n m \<Longrightarrow> touched a m l \<Longrightarrow> touched a n l"
  by (auto simp: touched_def)

lemma appendLocked_seq:
  assumes "store_ok s" and "recs \<noteq> []" "list_all wf_rec recs" "length (encode_all recs) < 2 ^ 32"
    and "appendLocked recs s = (r, t)"
  shows "seq t = seq s + of_nat (length recs)" and "closed t = closed s"
proof -
  obtain rs n where a: "assign_seqs (seq s) recs = (rs, n)" by fastforce
  have inv: "store_inv (s\<lparr>seq := n\<rparr>)" using assms(1) by (simp add: store_ok_def store_inv_def)
  have "wrote rs (r, t) (s\<lparr>seq := n\<rparr>)"
    using writeLocked_ok [OF inv, of rs] assign_seqs_wf [OF a] assms(2-5) by (simp add: appendLocked_def a)
  then show "seq t = seq s + of_nat (length recs)" "closed t = closed s"
    using assign_seqs_last [OF a] by (simp_all add: wrote_def)
qed

lemma perform_seq:
  assumes ok: "store_ok s" and a: "write_ok a" and b: "unat (seq s) + 2 ^ 32 < 2 ^ 64" and r: "perform now a s = (r, t)"
  shows "unat (seq t) \<le> unat (seq s) + 2 ^ 32 \<and> closed t = closed s"
proof -
  have step: "unat (seq u) \<le> unat (seq s) + 2 ^ 32 \<and> closed u = closed s"
    if "appendLocked recs s = (x, u)" "recs \<noteq> []" "list_all wf_rec recs" "length (encode_all recs) < 2 ^ 32" "length recs < 2 ^ 32" for recs x u
  proof -
    note q = appendLocked_seq [OF ok that(2-4,1)]
    have "unat (seq u) = unat (seq s) + length recs"
      using that(5) b unfolding q(1) by (simp add: unat_word_ariths unat_of_nat)
    then show ?thesis using that(5) q(2) by simp
  qed
  show ?thesis
  proof (cases a)
    case (WPut k v)
    let ?r = "\<lparr> ts = now, rseq = 0, flags = 0, key = k, val = v \<rparr>"
    have wf: "wf_rec ?r" using a WPut valid_kv_wf [of ?r] by simp
    obtain x u where x: "appendLocked [?r] s = (x, u)" by fastforce
    have "t = s \<or> (seq t = seq u \<and> closed t = closed u)"
      using r x WPut by (cases x) (auto simp: Put_def split: option.splits if_splits)
    then show ?thesis using step [OF x] wf wf_rec_single [OF wf] by auto
  next
    case (WDelete k)
    let ?r = "\<lparr> ts = now, rseq = 0, flags = flagTombstone, key = k, val = [] \<rparr>"
    have wf: "wf_rec ?r" using a WDelete valid_kv_wf [of ?r] by (simp add: valid_kv_def)
    obtain x u where x: "appendLocked [?r] s = (x, u)" by fastforce
    have "t = s \<or> (seq t = seq u \<and> closed t = closed u)"
      using r x WDelete by (cases x) (auto simp: Delete_def split: option.splits if_splits)
    then show ?thesis using step [OF x] wf wf_rec_single [OF wf] by auto
  next
    case (WBatch prs)
    let ?rs = "batch_recs now (zip (map fst prs) (map snd prs))"
    have z: "zip (map fst prs) (map snd prs) = prs" by (simp add: zip_map_fst_snd)
    obtain x u where x: "appendLocked ?rs s = (x, u)" by fastforce
    have w: "prs \<noteq> []" "list_all (\<lambda>(k, v). valid_kv k v) prs" "sum_list (map kv_size prs) < 2 ^ 32" using a WBatch by simp_all
    have "t = s \<or> (seq t = seq u \<and> closed t = closed u)"
      using r x WBatch by (cases x) (auto simp: BatchPut_def split: option.splits if_splits)
    moreover have "length prs < 2 ^ 32" using w(3) kv_size_length [of prs] by simp
    moreover have "?rs \<noteq> []" using batch_recs_facts(1) [of now prs] w(1) z by auto
    ultimately show ?thesis using step [OF x] w by (auto simp: z batch_recs_facts)
  qed
qed

lemma serveConn_torn:
  assumes "frame_ok req" and "frame req = bs @ z" and "z \<noteq> []"
  shows "serveConn rt now EOF bs (n, w) = Some (Closed, (n, w))"
proof -
  obtain e r where "ReadFrame EOF bs = (Inl e, r)" using ReadFrame_torn [OF assms(1-3)] by blast
  then show ?thesis by (subst serveConn.simps) simp
qed

text \<open>What a reply to a write says.\<close>

definition says :: "mutation \<Rightarrow> node \<Rightarrow> node \<Rightarrow> bytes \<Rightarrow> bool" where
  "says a n n' p \<longleftrightarrow> p \<noteq> [] \<and> frame_ok p \<and>
     (case role n of
        Follower \<Rightarrow> p = StatusRedirect # str_enc (leaderAddr n)
      | Leader \<Rightarrow> p = [StatusOK] \<and> contents (kv n') = mutated a (contents (kv n)) \<or> p = [StatusNotFound] \<or> hd p = StatusError)"

lemma serve_write:
  assumes n: "ready (Suc i) n" and a: "write_ok a" and rt: "short_texts rt"
    and bs: "frame (request a) = bs @ z" "frame_ok (request a) \<or> bs = []"
  shows "\<exists>e n' x. serveConn rt now EOF bs (n, NewWriter []) = Some (e, (n', x)) \<and> ready i n' \<and> touched a n n' \<and>
    (wout x = [] \<or> (\<exists>p. wout x = frame p \<and> says a n n' p))"
proof -
  have still: "ready i n" using n by (auto simp: ready_def)
  have noop: ?thesis if "serveConn rt now EOF bs (n, NewWriter []) = Some (Closed, (n, NewWriter []))"
    using that still by (auto simp: NewWriter_def)
  consider "bs = []" | "closing n" | "frame_ok (request a)" "z \<noteq> []" | "\<not> closing n" "frame_ok (request a)" "bs = frame (request a)"
    using bs by fastforce
  then show ?thesis
  proof cases
    case 1
    then have "serveConn rt now EOF bs (n, NewWriter []) = Some (Closed, (n, NewWriter []))"
      by (subst serveConn.simps) (simp add: ReadFrame_def ReadFull_def)
    then show ?thesis by (rule noop)
  next
    case 2
    then have "serveConn rt now EOF bs (n, NewWriter []) = Some (Closed, (n, NewWriter []))"
      by (subst serveConn.simps) simp
    then show ?thesis by (rule noop)
  next
    case 3
    show ?thesis by (rule noop, rule serveConn_torn [OF 3(1) bs(1) 3(2)])
  next
    case 4
    have k: "store_ok (kv n)" "\<not> closed (kv n)" "unat (seq (kv n)) + 2 ^ 32 < 2 ^ 64" "length (leaderAddr n) < 2 ^ 20"
      using n by (auto simp: ready_def)
    have w0: "wfaults (NewWriter []) = []" by (simp add: NewWriter_def)
    obtain p n' where h: "handle rt now (mutation_op a) (NewDec (mutation_body a)) (n, NewWriter []) = Some (Inr (), (n', sent (NewWriter []) [p]))"
      and p: "p \<noteq> []" "frame_ok p"
      and c: "case role n of
           Follower \<Rightarrow> p = StatusRedirect # str_enc (leaderAddr n) \<and> n' = n
         | Leader \<Rightarrow> n' = notified (n\<lparr>kv := snd (perform (of_int now) a (kv n))\<rparr>) \<and> store_ok (kv n') \<and>
             (p = [StatusOK] \<and> contents (kv n') = mutated a (contents (kv n)) \<or>
              p = [StatusNotFound] \<and> contents (kv n') = contents (kv n) \<and> mutated a (contents (kv n)) = contents (kv n) \<or>
              hd p = StatusError \<and> contents (kv n') = contents (kv n))"
      using write_answered [OF k(1,2) a k(3) w0 rt k(4)] by blast
    have op: "mutation_op a \<noteq> OpReplicate" by (cases a) (simp_all add: ops)
    note sc = serveConn_one [OF 4(1,2) op h]
    have wo: "wout (sent (NewWriter []) [p]) = frame p" by (simp add: sent_def NewWriter_def)
    obtain r t where r: "perform (of_int now) a (kv n) = (r, t)" by fastforce
    note sq = perform_seq [OF k(1) a k(3) r]
    have "ready i n' \<and> touched a n n' \<and> says a n n' p"
    proof (cases "role n")
      case Follower
      then show ?thesis using c p still by (simp add: says_def)
    next
      case Leader
      note cl = c [unfolded Leader Role.case r snd_conv]
      have n': "n' = notified (n\<lparr>kv := t\<rparr>)" "store_ok (kv n')" using cl by blast+
      have "unat (seq t) + (i + 1) * 2 ^ 32 < 2 ^ 64" using sq n by (simp add: ready_def)
      then have "ready i n'" using n' sq k(2,4) by (simp add: ready_def notified_keeps)
      moreover have "touched a n n'" using cl Leader unfolding touched_def n'(1) notified_keeps by auto
      moreover have "says a n n' p" using cl p unfolding says_def Leader Role.case by blast
      ultimately show ?thesis by blast
    qed
    then show ?thesis using sc wo 4(3) by (intro exI [of _ Closed] exI [of _ n'] exI [of _ "sent (NewWriter []) [p]"]) simp
  qed
qed

text \<open>A connection with nothing in flight, and the cluster before and after some of the writes.\<close>

definition clean :: "Client \<Rightarrow> bool" where
  "clean c \<longleftrightarrow> (\<forall>l. chan c = Some l \<longrightarrow> wout (cwr l) = [] \<and> unread l = [])"

definition all_ready :: "nat \<Rightarrow> cluster \<Rightarrow> bool" where
  "all_ready i w \<longleftrightarrow> (\<forall>addr n. map_of (cnodes w) addr = Some n \<longrightarrow> ready i n)"

definition evolved :: "mutation \<Rightarrow> cluster \<Rightarrow> cluster \<Rightarrow> bool" where
  "evolved a w w' \<longleftrightarrow> (\<forall>addr. rel_option (touched a) (map_of (cnodes w) addr) (map_of (cnodes w') addr))"

lemma evolved_same: "cnodes w' = cnodes w \<Longrightarrow> evolved a w w'"
  by (simp add: evolved_def option.rel_refl)

lemma evolved_trans:
  assumes "evolved a w w1" and "evolved a w1 w2"
  shows "evolved a w w2"
  unfolding evolved_def
proof
  fix addr
  have "rel_option (touched a) (map_of (cnodes w) addr) (map_of (cnodes w1) addr)"
    "rel_option (touched a) (map_of (cnodes w1) addr) (map_of (cnodes w2) addr)"
    using assms by (simp_all add: evolved_def)
  then show "rel_option (touched a) (map_of (cnodes w) addr) (map_of (cnodes w2) addr)"
    by (auto elim!: option.rel_cases intro: touched_trans)
qed

lemma evolvedD:
  assumes "evolved a w w'"
  shows "map_of (cnodes w') addr = Some n' \<Longrightarrow> \<exists>n. map_of (cnodes w) addr = Some n \<and> touched a n n'"
    and "map_of (cnodes w) addr = Some n \<Longrightarrow> \<exists>n'. map_of (cnodes w') addr = Some n' \<and> touched a n n'"
  using spec [OF assms [unfolded evolved_def], of addr] by (auto simp: rel_option_iff split: option.splits)

lemma ready_less: "ready (Suc i) n \<Longrightarrow> ready i n"
  by (auto simp: ready_def)

lemma all_ready_less: "all_ready (Suc i) w \<Longrightarrow> all_ready i w"
  using ready_less by (auto simp: all_ready_def)

lemma dial_first_cluster:
  assumes "dial_first (cluster_wires rt now) as (c, w) = (b, (c', w'))" and "chan c = None"
  shows "cnodes w' = cnodes w \<and> clean c' \<and> (b \<longleftrightarrow> chan c' \<noteq> None) \<and> copts c' = copts c \<and> poisoned c' = poisoned c"
  using assms
proof (induction as arbitrary: c w)
  case Nil
  then show ?case by (auto simp: clean_def)
next
  case (Cons a as)
  have d: "cnodes (snd (cluster_dial tmo a w)) = cnodes w" for tmo
    by (auto simp: cluster_dial_def Let_def split: option.splits)
  obtain x w1 where x: "cluster_dial (Timeout (copts c)) a w = (x, w1)" by fastforce
  show ?case
  proof (cases x)
    case (Inl er)
    then have "dial_first (cluster_wires rt now) as (c\<lparr>nxt := nxt c + 1\<rparr>, w1) = (b, (c', w'))"
      using Cons.prems(1) x by (simp add: cluster_wires_def)
    from Cons.IH [OF this] show ?thesis using Cons.prems(2) d [of "Timeout (copts c)"] x by simp
  next
    case (Inr fl)
    then show ?thesis using Cons.prems x d [of "Timeout (copts c)"] by (auto simp: cluster_wires_def clean_def NewWriter_def)
  qed
qed

lemma drop_cluster:
  assumes "dropLocked (cluster_wires rt now) (c, w) = (e, (c', w'))"
  shows "w' = w" and "c' = c\<lparr>chan := None\<rparr>"
  using assms by (auto simp: dropLocked_def cluster_wires_def split: option.splits)

lemma connect_cluster:
  assumes "connectLocked (cluster_wires rt now) prefer (c, w) = (r, (c', w'))" and "clean c"
  shows "cnodes w' = cnodes w \<and> clean c' \<and> (r = Inr () \<longrightarrow> chan c' \<noteq> None) \<and> copts c' = copts c \<and> poisoned c' = poisoned c"
proof (cases "case chan c of None \<Rightarrow> False | Some l \<Rightarrow> prefer = [] \<or> prefer = current l")
  case True
  then show ?thesis using assms by (auto simp: connectLocked_def split: option.splits)
next
  case False
  obtain e c1 w1 where 1: "dropLocked (cluster_wires rt now) (c, w) = (e, (c1, w1))" by (metis prod.exhaust)
  note d = drop_cluster [OF 1]
  obtain b c2 w2 where 2: "dial_first (cluster_wires rt now) (candidates prefer c1) (c1, w1) = (b, (c2, w2))" by (metis prod.exhaust)
  have "(r, (c', w')) = (if b then Inr () else Inl ErrNoNodes, (c2, w2))"
    using assms(1) False 1 2 by (simp add: connectLocked_def)
  then show ?thesis using dial_first_cluster [OF 2] d by (auto split: if_splits)
qed

lemma write_frame_too_large:
  "\<not> frame_ok req \<Longrightarrow> andThen (WriteFrame req x) (\<lambda>_ x. Flush x) = (Inl ErrFrameTooLarge, x)"
  by (simp add: WriteFrame_def)

text \<open>A reply that was cut is read in full or not at all.\<close>

lemma ReadFrame_cut:
  assumes "frame_ok p" and "bs = take m (frame p)"
  shows "ReadFrame EOF bs = (Inr p, []) \<or> (\<exists>e u. ReadFrame EOF bs = (Inl e, u))"
proof (cases "length (frame p) \<le> m")
  case True
  then have "bs = frame p @ []" using assms(2) by simp
  then show ?thesis using ReadFrame_frame [OF assms(1), of EOF "[]"] by simp
next
  case False
  then have "frame p = bs @ drop m (frame p)" "drop m (frame p) \<noteq> []" unfolding assms(2) append_take_drop_id drop_eq_Nil by simp_all
  then show ?thesis using ReadFrame_torn [OF assms(1)] by blast
qed

lemma deliver_cluster:
  assumes rd: "all_ready (Suc i) w" and a: "write_ok a" and rt: "short_texts rt"
    and bs: "frame (request a) = bs @ z" "frame_ok (request a) \<or> bs = []"
    and d: "cluster_deliver rt now addr bs w = (inp, er, w')"
  shows "all_ready i w' \<and> evolved a w w' \<and>
    (\<forall>fr u. ReadFrame er inp = (Inr fr, u) \<longrightarrow> u = [] \<and>
      (\<exists>n n'. map_of (cnodes w) addr = Some n \<and> map_of (cnodes w') addr = Some n' \<and> says a n n' fr))"
proof (cases "map_of (cnodes w) addr")
  case None
  then have "inp = []" "w' = w" using d by (simp_all add: cluster_deliver_def)
  then show ?thesis using all_ready_less [OF rd] by (simp add: evolved_same ReadFrame_def ReadFull_def)
next
  case (Some n)
  then have "ready (Suc i) n" using rd by (simp add: all_ready_def)
  from serve_write [OF this a rt bs, of now] obtain e n' x where
    x: "serveConn rt now EOF bs (n, NewWriter []) = Some (e, (n', x))" "ready i n'" "touched a n n'"
      "wout x = [] \<or> (\<exists>p. wout x = frame p \<and> says a n n' p)" by blast
  let ?m = "case cuts w of Suc m # _ \<Rightarrow> m | _ \<Rightarrow> length (wout x)"
  have dd: "inp = take ?m (wout x)" "er = EOF" "cnodes w' = AList.update addr n' (cnodes w)"
    using d Some x(1) by (auto simp: cluster_deliver_def Let_def split: list.splits nat.splits)
  have m: "map_of (cnodes w') k = (if k = addr then Some n' else map_of (cnodes w) k)" for k
    by (simp add: dd(3) update_conv')
  have "all_ready i w'" using all_ready_less [OF rd] x(2) by (simp add: all_ready_def m)
  moreover have "evolved a w w'" using x(3) Some by (simp add: evolved_def m option.rel_refl)
  moreover have "u = [] \<and> says a n n' fr" if "ReadFrame er inp = (Inr fr, u)" for fr u
  proof -
    have ne: "inp \<noteq> []" using that by (auto simp: ReadFrame_def ReadFull_def)
    then obtain p where p: "wout x = frame p" "says a n n' p" using x(4) dd(1) by auto
    have "frame_ok p" using p(2) by (simp add: says_def)
    from ReadFrame_cut [OF this dd(1) [unfolded p(1)]] show ?thesis using that p(2) dd(2) by auto
  qed
  ultimately show ?thesis using Some m by auto
qed

lemma exchange_cluster:
  assumes rd: "all_ready (Suc i) w" and a: "write_ok a" and rt: "short_texts rt" and c: "clean c" "chan c \<noteq> None"
    and x: "exchange (cluster_wires rt now) (request a) (c, w) = (r, (c', w'))"
  shows "all_ready i w' \<and> evolved a w w' \<and> chan c' \<noteq> None \<and> copts c' = copts c \<and> poisoned c' = poisoned c \<and>
    (\<forall>fr. r = Inr fr \<longrightarrow> clean c' \<and>
      (\<exists>addr n n'. map_of (cnodes w) addr = Some n \<and> map_of (cnodes w') addr = Some n' \<and> says a n n' fr))"
proof -
  obtain l where l: "chan c = Some l" "wout (cwr l) = []" "unread l = []" using c by (auto simp: clean_def)
  obtain q y where q: "andThen (WriteFrame (request a) (cwr l)) (\<lambda>_ x. Flush x) = (q, y)" by fastforce
  obtain z where z: "frame (request a) = wout y @ z" using write_frame_out(1) [OF q l(2)] by blast
  have small: "frame_ok (request a) \<or> wout y = []" using write_frame_too_large [of "request a" "cwr l"] q l(2) by (cases "frame_ok (request a)") simp_all
  obtain inp er w1 where d: "cluster_deliver rt now (current l) (wout y) w = (inp, er, w1)" by (metis prod.exhaust)
  note dl = deliver_cluster [OF rd a rt z small d]
  obtain v u where v: "ReadFrame er inp = (v, u)" by fastforce
  let ?l = "l\<lparr>cwr := y\<lparr>wout := []\<rparr>, unread := inp, cut := er\<rparr>"
  have res: "(r, (c', w')) = (case q of Inl e \<Rightarrow> (Inl e, (c\<lparr>chan := Some ?l\<rparr>, w1))
      | Inr _ \<Rightarrow> (case v of Inl e \<Rightarrow> Inl e | Inr fr \<Rightarrow> if fr = [] then Inl ErrMalformed else Inr fr,
          (c\<lparr>chan := Some (?l\<lparr>unread := u\<rparr>)\<rparr>, w1)))"
    unfolding x [symmetric] using l q d v by (cases q) (simp_all add: exchange_def cluster_wires_def Let_def)
  show ?thesis
  proof (cases q)
    case (Inl e)
    then show ?thesis using res dl by simp
  next
    case (Inr g)
    have f: "w' = w1" "c' = c\<lparr>chan := Some (?l\<lparr>unread := u\<rparr>)\<rparr>" using res Inr by simp_all
    have "clean c' \<and> (\<exists>addr n n'. map_of (cnodes w) addr = Some n \<and> map_of (cnodes w') addr = Some n' \<and> says a n n' fr)"
      if "r = Inr fr" for fr
    proof -
      have "v = Inr fr" using res Inr that by (cases v) (auto split: if_splits)
      then show ?thesis using dl v f by (auto simp: clean_def)
    qed
    then show ?thesis using f dl by simp
  qed
qed

text \<open>The write has reached a leader, and its map is the updated one.\<close>

definition landed :: "mutation \<Rightarrow> cluster \<Rightarrow> cluster \<Rightarrow> bool" where
  "landed a w w' \<longleftrightarrow> (\<exists>addr n n'. map_of (cnodes w) addr = Some n \<and> map_of (cnodes w') addr = Some n' \<and>
     role n = Leader \<and> contents (kv n') = mutated a (contents (kv n)))"

lemma landed_evolved:
  assumes "evolved a w w1" and "landed a w1 w2"
  shows "landed a w w2"
proof -
  obtain addr n1 n2 where n: "map_of (cnodes w1) addr = Some n1" "map_of (cnodes w2) addr = Some n2" "role n1 = Leader"
      "contents (kv n2) = mutated a (contents (kv n1))" using assms(2) by (auto simp: landed_def)
  obtain n where "map_of (cnodes w) addr = Some n" "touched a n n1" using evolvedD(1) [OF assms(1) n(1)] by blast
  then show ?thesis using n unfolding landed_def touched_def by (metis mutated_idem)
qed

lemma give_up_cluster:
  assumes "give_up (cluster_wires rt now) (c, w) = (c', w')"
  shows "w' = w \<and> clean c' \<and> copts c' = copts c \<and> poisoned c' = poisoned c"
proof -
  obtain e c1 w1 where 1: "dropLocked (cluster_wires rt now) (c, w) = (e, (c1, w1))" by (metis prod.exhaust)
  show ?thesis using assms 1 drop_cluster [OF 1] by (auto simp: give_up_def clean_def)
qed

lemma run_handler_write:
  assumes h: "write_handler a hdl" and c: "clean c" "chan c \<noteq> None" "\<not> poisoned c"
    and r: "run_handler net hdl fr out (c, w) = ((er, out'), (c', w'))"
  shows "w' = w \<and> clean c' \<and> \<not> poisoned c' \<and> copts c' = copts c \<and> (hd fr = StatusNotFound \<longrightarrow> er \<noteq> None) \<and> (hd fr = StatusOK \<longrightarrow> er = None)"
proof -
  obtain l where l: "chan c = Some l" using c(2) by blast
  obtain e o1 p u where e: "hdl fr (cut l) (unread l) out = (e, o1, p, u)" by (metis prod.exhaust)
  have hh: "\<not> p" "u = unread l" "hd fr = StatusNotFound \<longrightarrow> e \<noteq> None" "hd fr = StatusOK \<longrightarrow> e = None"
    using h [unfolded write_handler_def, THEN spec, of fr, THEN spec, of "cut l", THEN spec, of "unread l", THEN spec, of out] e by auto
  have "er = e \<and> w' = w \<and> c' = c\<lparr>chan := Some (l\<lparr>unread := u\<rparr>), poisoned := False\<rparr>"
    using r l e hh(1) c(3) by (simp add: run_handler_def Let_def)
  then show ?thesis using hh c l by (auto simp: clean_def)
qed

lemma says_leader:
  assumes "says a n n' fr" and "hd fr \<notin> {StatusRedirect, StatusError, StatusNotFound}"
  shows "role n = Leader" and "contents (kv n') = mutated a (contents (kv n))"
  using assms by (auto simp: says_def statuses split: Role.splits)

lemma call_loop_write:
  assumes "clean c" and "\<not> poisoned c" and "all_ready i w" and a: "write_ok a" and rt: "short_texts rt" and h: "write_handler a hdl"
    and "call_loop (cluster_wires rt now) (request a) hdl out i pref le (c, w) = ((er, out'), (c', w'))"
  shows "evolved a w w' \<and> (er = None \<longrightarrow> landed a w w')"
  using assms(1-3,7)
proof (induction i arbitrary: c w pref le)
  case 0
  then show ?case by (auto simp: evolved_same)
next
  case (Suc i)
  let ?net = "cluster_wires rt now"
  obtain q c1 w1 where q: "connectLocked ?net pref (c, w) = (q, (c1, w1))" by (metis prod.exhaust)
  note cn = connect_cluster [OF q Suc.prems(1)]
  have ev1: "evolved a w w1" using cn evolved_same by blast
  show ?case
  proof (cases q)
    case (Inl e)
    then show ?thesis using Suc.prems(4) q ev1 by auto
  next
    case (Inr u)
    have rd1: "all_ready (Suc i) w1" using Suc.prems(3) cn by (simp add: all_ready_def)
    obtain x c2 w2 where x: "exchange ?net (request a) (c1, w1) = (x, (c2, w2))" by (metis prod.exhaust)
    have ex: "all_ready i w2" "evolved a w1 w2" "chan c2 \<noteq> None" "poisoned c2 = poisoned c1"
      "\<And>fr. x = Inr fr \<Longrightarrow> clean c2 \<and> (\<exists>addr n n'. map_of (cnodes w1) addr = Some n \<and> map_of (cnodes w2) addr = Some n' \<and> says a n n' fr)"
      using exchange_cluster [OF rd1 a rt _ _ x] cn Inr by auto
    note ev2 = evolved_trans [OF ev1 ex(2)]
    have np: "\<not> poisoned c2" using ex(4) cn Suc.prems(2) by simp
    obtain c3 w3 where g: "give_up ?net (c2, w2) = (c3, w3)" by fastforce
    note gu = give_up_cluster [OF g]
    have again: "evolved a w w' \<and> (er = None \<longrightarrow> landed a w w')"
      if "call_loop ?net (request a) hdl out i p e (c4, w2) = ((er, out'), (c', w'))" "clean c4" "\<not> poisoned c4" for p e c4
      using Suc.IH [OF that(2,3) ex(1) that(1)] evolved_trans [OF ev2] landed_evolved [OF ev2] by blast
    show ?thesis
    proof (cases x)
      case (Inl e)
      then show ?thesis using again [of "[]" "Some e" c3] Suc.prems(4) q \<open>q = Inr u\<close> x g gu np by simp
    next
      case (Inr fr)
      obtain addr n n' where n: "map_of (cnodes w1) addr = Some n" "map_of (cnodes w2) addr = Some n'" "says a n n' fr" and cl: "clean c2"
        using ex(5) [OF Inr] by blast
      let ?ld = "fst (DecStr (NewDec (tl fr)))"
      consider "hd fr = StatusRedirect" "?ld = [] \<or> (case chan c2 of None \<Rightarrow> False | Some l \<Rightarrow> ?ld = current l)"
        | "hd fr = StatusRedirect" "\<not> (?ld = [] \<or> (case chan c2 of None \<Rightarrow> False | Some l \<Rightarrow> ?ld = current l))"
        | "hd fr = StatusError" | "hd fr \<notin> {StatusRedirect, StatusError}" by blast
      then show ?thesis
      proof cases
        case 1
        then show ?thesis
          using again [of "[]" "Some (ErrOther ''node has no leader yet'')" c3] Suc.prems(4) q \<open>q = Inr u\<close> x Inr g gu np by simp
      next
        case 2
        then show ?thesis using again [of ?ld le c2] Suc.prems(4) q \<open>q = Inr u\<close> x Inr np cl by simp
      next
        case 3
        then have "hd fr \<noteq> StatusRedirect" by (simp add: statuses)
        then show ?thesis using Suc.prems(4) q \<open>q = Inr u\<close> x Inr 3 ev2 by auto
      next
        case 4
        then have r: "run_handler ?net hdl fr out (c2, w2) = ((er, out'), (c', w'))" using Suc.prems(4) q \<open>q = Inr u\<close> x Inr by simp
        note rh = run_handler_write [OF h cl ex(3) np r]
        have "landed a w1 w'" if "er = None"
          using says_leader [OF n(3)] that rh 4 n(1,2) unfolding landed_def by auto
        then show ?thesis using rh ev2 landed_evolved [OF ev1] by blast
      qed
    qed
  qed
qed

text \<open>
  C3. A write through the client is applied or reported. Whatever connections are refused, break
  while the request is written or lose the end of a reply, and however often the client retries:
  when the call succeeds, some leader of the cluster holds the updated map; in any case every
  node's map is the one it had or, at a leader, the updated one, so a retry that reaches a node
  twice does no harm.
\<close>

theorem client_write:
  assumes "write_ok a" and "short_texts rt" and "clean c" and "\<not> poisoned c"
    and "all_ready (nat (MaxAttempts (copts c))) w"
    and "submit (cluster_wires rt now) a (c, w) = ((er, u), (c', w'))"
  shows "evolved a w w' \<and> (er = None \<longrightarrow> landed a w w')"
proof -
  obtain hdl where h: "write_handler a hdl" "submit (cluster_wires rt now) a (c, w) = call (cluster_wires rt now) (request a) hdl () (c, w)"
    using submit_call [of a "cluster_wires rt now"] by blast
  show ?thesis
  proof (cases "cclosed c")
    case True
    then show ?thesis using assms(6) h(2) by (auto simp: call_def evolved_same)
  next
    case False
    then have "call_loop (cluster_wires rt now) (request a) hdl () (nat (MaxAttempts (copts c))) [] None (c, w) = ((er, u), (c', w'))"
      using assms(6) h(2) by (simp add: call_def)
    from call_loop_write [OF assms(3-5,1,2) h(1) this] show ?thesis .
  qed
qed

section \<open>A cluster without faults\<close>

definition fresh_channel :: "bytes \<Rightarrow> channel" where
  "fresh_channel a = \<lparr> current = a, cwr = NewWriter [], unread = [], cut = EOF \<rparr>"

lemma connect_calm:
  assumes "\<not> (case chan c of None \<Rightarrow> False | Some l \<Rightarrow> pref = [] \<or> pref = current l)"
    and "candidates pref c = a # as" and "map_of (cnodes w) a \<noteq> None" and "dials w = []"
  shows "connectLocked (cluster_wires rt now) pref (c, w) = (Inr (), (c\<lparr>chan := Some (fresh_channel a)\<rparr>, w))"
proof -
  obtain e where 1: "dropLocked (cluster_wires rt now) (c, w) = (e, (c\<lparr>chan := None\<rparr>, w))"
    using drop_cluster by (metis prod.exhaust)
  have "candidates pref (c\<lparr>chan := None\<rparr>) = a # as" using assms(2) by (simp add: candidates_def)
  moreover have "cluster_dial t a w = (Inr [], w)" for t
    using assms(3,4) by (cases w) (auto simp: cluster_dial_def)
  ultimately show ?thesis
    using assms(1) 1 by (simp add: connectLocked_def fresh_channel_def cluster_wires_def)
qed

lemma exchange_calm:
  assumes l: "chan c = Some l" "cwr l = NewWriter []" "unread l = []" and "frame_ok (op # args)" and "op \<noteq> OpReplicate"
    and n: "map_of (cnodes w) (current l) = Some n" "\<not> closing n" and "cuts w = []"
    and h: "handle rt now op (NewDec args) (n, NewWriter []) = Some (Inr (), (n', sent (NewWriter []) (p # ps)))"
    and p: "p \<noteq> []" "frame_ok p"
  shows "exchange (cluster_wires rt now) (op # args) (c, w) =
    (Inr p, (c\<lparr>chan := Some (l\<lparr>unread := concat (map frame ps), cut := EOF\<rparr>)\<rparr>, w\<lparr>cnodes := AList.update (current l) n' (cnodes w)\<rparr>))"
proof -
  have w: "andThen (WriteFrame (op # args) (cwr l)) (\<lambda>_ x. Flush x) = (Inr (), (NewWriter [])\<lparr>wout := frame (op # args)\<rparr>)"
    using assms(4) by (simp add: l(2) WriteFrame_ok NewWriter_def Flush_def bwWrite_def sent_def)
  have sc: "serveConn rt now EOF (frame (op # args)) (n, NewWriter []) = Some (Closed, (n', sent (NewWriter []) (p # ps)))"
    by (rule serveConn_one [OF n(2) assms(4,5) h])
  have d: "cluster_deliver rt now (current l) (frame (op # args)) w =
      (frame p @ concat (map frame ps), EOF, w\<lparr>cnodes := AList.update (current l) n' (cnodes w)\<rparr>)"
    using n(1) sc assms(8) by (cases w) (simp add: cluster_deliver_def sent_def NewWriter_def)
  have x: "(NewWriter [])\<lparr>wout := frame (op # args)\<rparr>\<lparr>wout := []\<rparr> = cwr l" by (simp add: l(2) NewWriter_def)
  have r: "ReadFrame EOF (frame p @ concat (map frame ps)) = (Inr p, concat (map frame ps))" by (rule ReadFrame_frame [OF p(2)])
  have d': "deliver (cluster_wires rt now) = cluster_deliver rt now" by (simp add: cluster_wires_def)
  have o: "wout ((NewWriter [])\<lparr>wout := frame (op # args)\<rparr>) = frame (op # args)" by simp
  show ?thesis
    unfolding exchange_def prod.case l(1) option.case w d' o d Let_def x l(3) append_Nil sum.case
    using r p(1) by simp
qed

lemma valid_frame: "valid_kv k v \<Longrightarrow> frame_ok (request (WPut k v))"
  by (auto simp: valid_kv_def validateKey_None record_consts MaxFrameSize_def)

lemma Put_answered:
  assumes "ready 1 n" and "calm (kv n)" and "role n = Leader" and "valid_kv k v"
  shows "\<exists>n'. handle rt now OpPut (NewDec (str_enc k @ str_enc v)) (n, NewWriter []) = Some (Inr (), (n', sent (NewWriter []) [[StatusOK]])) \<and>
    contents (kv n') = (contents (kv n))(k \<mapsto> v)"
proof -
  have ok: "store_ok (kv n)" "\<not> closed (kv n)" "unat (seq (kv n)) + 1 < 2 ^ 64" using assms(1) by (auto simp: ready_def)
  obtain s where s: "Put (of_int now) k v (kv n) = (Inr (), s)" "contents s = (contents (kv n))(k \<mapsto> v)"
    using Put_calm [OF ok(1) assms(2) ok(2) assms(4) ok(3)] by blast
  let ?n = "notified (n\<lparr>kv := s\<rparr>)"
  have "handle rt now OpPut (NewDec (str_enc k @ str_enc v)) (n, NewWriter []) = write_reply rt now (WPut k v) (n, NewWriter [])"
    using handle_write [of "WPut k v" rt now n "NewWriter []"] assms(3,4) by (simp add: leader_only_def redirectIfNotLeader_def)
  also have "\<dots> = Some (Inr (), (?n, sent (NewWriter []) [[StatusOK]]))"
    using s(1) by (simp add: write_reply_def on_store_def reply_def writeStatus_def NewWriter_def MaxFrameSize_def)
  finally show ?thesis using s(2) by (intro exI [of _ ?n]) (simp add: notified_keeps)
qed

lemma redirected:
  assumes "role n = Follower" and "write_ok a" and "length (leaderAddr n) < 2 ^ 20"
  shows "handle rt now (mutation_op a) (NewDec (mutation_body a)) (n, NewWriter []) =
    Some (Inr (), (n, sent (NewWriter []) [StatusRedirect # str_enc (leaderAddr n)]))"
proof -
  have "frame_ok (StatusRedirect # str_enc (leaderAddr n))" using assms(3) by (simp add: MaxFrameSize_def)
  then show ?thesis
    using assms(1) by (simp add: handle_write [OF assms(2)] leader_only_def redirectIfNotLeader_def codec NewEnc_def NewWriter_def)
qed

text \<open>Every node is up and names the same leader.\<close>

definition settled_on :: "bytes \<Rightarrow> cluster \<Rightarrow> bool" where
  "settled_on la w \<longleftrightarrow> dials w = [] \<and> cuts w = [] \<and> la \<noteq> [] \<and> length la < 2 ^ 20 \<and>
     (\<forall>addr n. map_of (cnodes w) addr = Some n \<longrightarrow> \<not> closing n \<and> leaderAddr n = la \<and> (role n = Leader \<longleftrightarrow> addr = la))"

definition known_nodes :: "Client \<Rightarrow> cluster \<Rightarrow> bool" where
  "known_nodes c w \<longleftrightarrow> addrs c \<noteq> [] \<and> (\<forall>a \<in> set (addrs c). map_of (cnodes w) a \<noteq> None)"

lemma candidates_known:
  assumes "known_nodes c w"
  obtains a as where "candidates [] c = a # as" "map_of (cnodes w) a \<noteq> None"
proof -
  have l: "length (addrs c) > 0" using assms by (simp add: known_nodes_def)
  then have "candidates [] c \<noteq> []" by (simp add: candidates_def)
  then obtain a as where c: "candidates [] c = a # as" by (cases "candidates [] c") auto
  then have "a \<in> set (candidates [] c)" by simp
  then have "a \<in> set (addrs c)" using l by (auto simp: candidates_def)
  then show ?thesis using that [OF c] assms by (simp add: known_nodes_def)
qed

lemma put_at_leader:
  assumes w: "dials w = []" "cuts w = []" and c: "chan c = Some l" "cwr l = NewWriter []" "unread l = []" "current l = la" "\<not> poisoned c"
    and n: "map_of (cnodes w) la = Some n" "\<not> closing n" "ready 1 n" "calm (kv n)" "role n = Leader" and kv: "valid_kv k v"
    and cn: "connectLocked (cluster_wires rt now) pref st = (Inr (), (c, w))"
  shows "\<exists>c' w' n'. call_loop (cluster_wires rt now) (request (WPut k v)) only_ok () (Suc i) pref le st = ((None, ()), (c', w')) \<and>
    map_of (cnodes w') la = Some n' \<and> contents (kv n') = (contents (kv n))(k \<mapsto> v)"
proof -
  obtain n' where h: "handle rt now OpPut (NewDec (str_enc k @ str_enc v)) (n, NewWriter []) = Some (Inr (), (n', sent (NewWriter []) [[StatusOK]]))"
      "contents (kv n') = (contents (kv n))(k \<mapsto> v)"
    using Put_answered [OF n(3-5) kv] by blast
  let ?c = "c\<lparr>chan := Some (l\<lparr>unread := [], cut := EOF\<rparr>)\<rparr>" and ?w = "w\<lparr>cnodes := AList.update la n' (cnodes w)\<rparr>"
  have "exchange (cluster_wires rt now) (OpPut # str_enc k @ str_enc v) (c, w) = (Inr [StatusOK], (?c, ?w))"
    using exchange_calm [OF c(1-3) _ _ n(1) [folded c(4)] n(2) w(2) h(1)] valid_frame [OF kv]
    by (simp add: ops MaxFrameSize_def c(4))
  moreover have "run_handler (cluster_wires rt now) only_ok [StatusOK] () (?c, ?w) = ((None, ()), (?c, ?w))"
    using c(5) by (cases c) (simp add: run_handler_def only_ok_def)
  ultimately have "call_loop (cluster_wires rt now) (request (WPut k v)) only_ok () (Suc i) pref le st = ((None, ()), (?c, ?w))"
    using cn by (simp add: statuses)
  then show ?thesis using h(2) by (intro exI [of _ ?c] exI [of _ ?w] exI [of _ n']) (simp add: update_conv')
qed

lemma client_put_settled:
  assumes st: "settled_on la w" and kn: "known_nodes c w" and n: "map_of (cnodes w) la = Some n" "ready 1 n" "calm (kv n)"
    and c: "chan c = None" "\<not> cclosed c" "\<not> poisoned c" "2 \<le> MaxAttempts (copts c)" and kv: "valid_kv k v"
  shows "\<exists>c' w' n'. ClientPut (cluster_wires rt now) k v (c, w) = ((None, ()), (c', w')) \<and>
    map_of (cnodes w') la = Some n' \<and> contents (kv n') = (contents (kv n))(k \<mapsto> v)"
proof -
  let ?net = "cluster_wires rt now" and ?req = "request (WPut k v)"
  have w: "dials w = []" "cuts w = []" "la \<noteq> []" "length la < 2 ^ 20" and ld: "\<not> closing n" "role n = Leader"
    using st n(1) by (auto simp: settled_on_def)
  have "2 \<le> nat (MaxAttempts (copts c))" using c(4) by simp
  then obtain i where i: "nat (MaxAttempts (copts c)) = Suc (Suc i)" using le_Suc_ex [of 2] by auto
  have pc: "ClientPut ?net k v (c, w) = call_loop ?net ?req only_ok () (Suc (Suc i)) [] None (c, w)"
    using c(2) i by (simp add: ClientPut_def call_def codec NewEnc_def del: call_loop.simps)
  obtain a as where a: "candidates [] c = a # as" "map_of (cnodes w) a \<noteq> None" by (rule candidates_known [OF kn])
  let ?c = "c\<lparr>chan := Some (fresh_channel a)\<rparr>"
  have cn: "connectLocked ?net [] (c, w) = (Inr (), (?c, w))" by (rule connect_calm [OF _ a w(1)]) (simp add: c(1))
  show ?thesis
  proof (cases "a = la")
    case True
    show ?thesis unfolding pc
      by (rule put_at_leader [where l = "fresh_channel la", OF w(1,2) _ _ _ _ _ n(1) ld(1) n(2,3) ld(2) kv cn]) (use c(3) True in \<open>simp_all add: fresh_channel_def\<close>)
  next
    case False
    obtain m where m: "map_of (cnodes w) a = Some m" using a(2) by blast
    then have fm: "role m = Follower" "\<not> closing m" "leaderAddr m = la" using st False by (cases "role m"; auto simp: settled_on_def)+
    let ?l = "(fresh_channel a)\<lparr>unread := [], cut := EOF\<rparr>"
    let ?c1 = "c\<lparr>chan := Some ?l\<rparr>" and ?w = "w\<lparr>cnodes := AList.update a m (cnodes w)\<rparr>" and ?p = "StatusRedirect # str_enc la"
    have h: "handle rt now OpPut (NewDec (str_enc k @ str_enc v)) (m, NewWriter []) = Some (Inr (), (m, sent (NewWriter []) [?p]))"
      using redirected [OF fm(1), of "WPut k v" rt now] kv w(4) fm(3) by simp
    have ex: "exchange ?net (OpPut # str_enc k @ str_enc v) (?c, w) = (Inr ?p, (?c1, ?w))"
      using exchange_calm [of ?c "fresh_channel a" OpPut "str_enc k @ str_enc v" w m rt now m ?p "[]"] valid_frame [OF kv] w(2,4) m fm(2) h
      by (simp add: fresh_channel_def ops MaxFrameSize_def)
    have mw: "map_of (cnodes ?w) = map_of (cnodes w)" using m by (auto simp: update_conv' fun_eq_iff)
    have cl: "candidates la ?c1 = la # candidates [] c" using w(3) by (simp add: candidates_def)
    have cn2: "connectLocked ?net la (?c1, ?w) = (Inr (), (?c1\<lparr>chan := Some (fresh_channel la)\<rparr>, ?w))"
      by (rule connect_calm [OF _ cl]) (use w(1,3) False n(1) mw in \<open>simp_all add: fresh_channel_def\<close>)
    have "fst (DecStr (NewDec (str_enc la))) = la" using w(4) by (simp add: NewDec_at codec)
    then have "call_loop ?net ?req only_ok () (Suc (Suc i)) [] None (c, w) = call_loop ?net ?req only_ok () (Suc i) la None (?c1, ?w)"
      using cn ex w(3) False by (subst call_loop.simps) (simp add: fresh_channel_def del: call_loop.simps)
    moreover have "\<exists>c' w' n'. call_loop ?net ?req only_ok () (Suc i) la None (?c1, ?w) = ((None, ()), (c', w')) \<and>
        map_of (cnodes w') la = Some n' \<and> contents (kv n') = (contents (kv n))(k \<mapsto> v)"
      by (rule put_at_leader [where l = "fresh_channel la", OF _ _ _ _ _ _ _ _ ld(1) n(2,3) ld(2) kv cn2]) (use w c(3) n(1) mw in \<open>simp_all add: fresh_channel_def\<close>)
    ultimately show ?thesis unfolding pc by simp
  qed
qed

text \<open>
  C18. The client finds the leader: in a cluster that is up and agrees on a leader, a PUT through
  any client that knows some nodes of it succeeds with two attempts, whichever node it asks first,
  and the leader then holds the value.
\<close>

theorem client_finds_leader:
  assumes st: "settled_on la w" and kn: "known_nodes c w" and n: "map_of (cnodes w) la = Some n" "ready 1 n" "calm (kv n)"
    and c: "chan c = None" "\<not> cclosed c" "\<not> poisoned c" "2 \<le> MaxAttempts (copts c)" and kv: "valid_kv k v"
  shows "\<exists>c' w' n'. ClientPut (cluster_wires rt now) k v (c, w) = ((None, ()), (c', w')) \<and>
    map_of (cnodes w') la = Some n' \<and> contents (kv n') = (contents (kv n))(k \<mapsto> v)"
  using assms by (rule client_put_settled)

section \<open>Range queries through the client\<close>

lemma decode_chunk_pairs:
  assumes "list_all (\<lambda>(k, v). length k < 2 ^ 32 \<and> length v < 2 ^ 32) g"
  shows "decode_chunk (\<lambda>k v out. (None, out @ [(k, v)])) (dec_at pre (pairs_enc g)) out = (None, out @ g)"
  using assms
proof (induction g arbitrary: pre out)
  case Nil
  then show ?case by (subst decode_chunk.simps) (simp add: DecErr_def DecEmpty_def dec_at_def)
next
  case (Cons kv g)
  obtain k v where kv: "kv = (k, v)" by fastforce
  have len: "length k < 2 ^ 32" "length v < 2 ^ 32" using Cons.prems kv by auto
  have "\<not> DecEmpty (dec_at pre (pairs_enc (kv # g)))" by (simp add: DecEmpty_def dec_at_def kv)
  then show ?case using Cons.IH [of "(pre @ str_enc k) @ str_enc v" "out @ [(k, v)]"] Cons.prems kv len
    by (subst decode_chunk.simps) (simp add: codec)
qed

lemma range_loop_frames:
  assumes "list_all frame_ok (range_frames gs)" and "list_all (list_all (\<lambda>(k, v). length k < 2 ^ 32 \<and> length v < 2 ^ 32)) gs"
    and "range_frames gs = fr # frs"
  shows "range_loop (\<lambda>k v out. (None, out @ [(k, v)])) fr EOF (concat (map frame frs)) out = (None, out @ concat gs, False, [])"
proof -
  let ?fn = "\<lambda>k v out. (None, out @ [(k, v)])"
  let ?e = "\<lambda>m. StatusRangeEnd # be_bytes 8 (of_nat m :: u64)"
  have "range_loop ?fn fr EOF (concat (map frame frs)) out = (None, out @ concat gs, False, [])"
    if "map (\<lambda>g. StatusRangeChunk # pairs_enc g) gs @ [?e m] = fr # frs" for m
    using assms(1,2) that unfolding range_frames_def
  proof (induction gs arbitrary: fr frs out)
    case Nil
    then show ?case by (subst range_loop.simps) auto
  next
    case (Cons g gs)
    obtain fr1 frs1 where f: "map (\<lambda>g. StatusRangeChunk # pairs_enc g) gs @ [?e m] = fr1 # frs1" by (cases gs) auto
    have frs: "fr = StatusRangeChunk # pairs_enc g" "frs = fr1 # frs1" using Cons.prems(3) f by auto
    have ok: "frame_ok fr1" "fr1 \<noteq> []" using f Cons.prems(1) by (cases gs; auto simp: MaxFrameSize_def)+
    have "list_all frame_ok (map (\<lambda>g. StatusRangeChunk # pairs_enc g) gs @ [?e (length (concat gs))])"
      using Cons.prems(1) by (simp add: MaxFrameSize_def)
    from Cons.IH [OF this _ f, of "out @ g"] have ih: "range_loop ?fn fr1 EOF (concat (map frame frs1)) (out @ g) = (None, (out @ g) @ concat gs, False, [])"
      using Cons.prems(2) by simp
    have ch: "decode_chunk ?fn (NewDec (pairs_enc g)) out = (None, out @ g)"
      unfolding NewDec_at by (rule decode_chunk_pairs) (use Cons.prems(2) in simp)
    have rd: "ReadFrame EOF (concat (map frame frs)) = (Inr fr1, concat (map frame frs1))"
      using ReadFrame_frame [OF ok(1), of EOF "concat (map frame frs1)"] by (simp add: frs(2))
    show ?case using ih ch rd ok(2) by (subst range_loop.simps) (simp add: frs(1) statuses)
  qed
  from this [of "length (concat gs)"] show ?thesis using assms(3) by (simp add: range_frames_def)
qed

lemma range_request:
  fixes limit :: int
  assumes n: "store_ok (kv n)" "faults (disk (kv n)) = []" "0 < cMaxRange (cfg n)"
    and k: "length startKey \<le> MaxKeySize" "length endKey \<le> MaxKeySize" "limit < 2 ^ 32"
  shows "\<exists>xs gs n'. in_range startKey endKey (contents (kv n)) xs \<and>
    concat gs = take (nat (if limit \<le> 0 \<or> limit > cMaxRange (cfg n) then cMaxRange (cfg n) else limit)) xs \<and>
    handle rt now OpRange (NewDec (str_enc startKey @ str_enc endKey @ be_bytes 4 (of_int (max limit 0) :: u32))) (n, NewWriter []) =
      Some (Inr (), (n', sent (NewWriter []) (range_frames gs))) \<and>
    list_all frame_ok (range_frames gs) \<and> list_all (list_all (\<lambda>(k, v). length k < 2 ^ 32 \<and> length v < 2 ^ 32)) gs \<and>
    contents (kv n') = contents (kv n)"
proof -
  let ?l = "of_int (max limit 0) :: u32"
  have u: "uint ?l = max limit 0" using k(3) by (simp add: uint_word_of_int max_def)
  then have z: "(?l = 0) = (limit \<le> 0)" by (metis max.absorb_iff2 uint_0_iff)
  have len: "length startKey < 2 ^ 32" "length endKey < 2 ^ 32" using k by (simp_all add: record_consts)
  have w0: "wfaults (NewWriter []) = []" by (simp add: NewWriter_def)
  obtain xs gs n' where x: "in_range startKey endKey (contents (kv n)) xs"
    "concat gs = take (nat (if ?l = 0 \<or> uint ?l > cMaxRange (cfg n) then cMaxRange (cfg n) else uint ?l)) xs"
    "handle rt now OpRange (NewDec (str_enc startKey @ str_enc endKey @ be_bytes 4 ?l)) (n, NewWriter []) =
      Some (Inr (), (n', sent (NewWriter []) (range_frames gs)))"
    "list_all frame_ok (range_frames gs)" "contents (kv n') = contents (kv n)"
    using range_answered [OF n(1,2) w0 n(3) len] by blast
  have "(if ?l = 0 \<or> uint ?l > cMaxRange (cfg n) then cMaxRange (cfg n) else uint ?l) =
      (if limit \<le> 0 \<or> limit > cMaxRange (cfg n) then cMaxRange (cfg n) else limit)"
    using z unfolding u by auto
  moreover have "length k < 2 ^ 32 \<and> length v < 2 ^ 32" if "(k, v) \<in> set (concat gs)" for k v
  proof -
    have "(k, v) \<in> set xs" using that unfolding x(2) by (rule in_set_takeD)
    then have "contents (kv n) k = Some v" using x(1) by (simp add: in_range_def)
    then show ?thesis by (rule valid_kv_lengths [OF contents_valid [OF n(1)]])
  qed
  then have "list_all (list_all (\<lambda>(k, v). length k < 2 ^ 32 \<and> length v < 2 ^ 32)) gs" by (force simp: list_all_iff)
  ultimately show ?thesis using x by (intro exI [of _ xs] exI [of _ gs] exI [of _ n']) simp
qed

text \<open>
  C19. \<open>ReadKeyRange\<close> returns the range: from a cluster without faults the client gets exactly the
  pairs that the node it asks has in the range, in key order and up to the limit, however the reply
  is split into frames; the connection is left with nothing unread, and no node's map changes.
\<close>

theorem client_range:
  fixes limit :: int
  assumes kn: "known_nodes c w" and w: "dials w = []" "cuts w = []"
    and ns: "\<forall>addr n. map_of (cnodes w) addr = Some n \<longrightarrow>
      store_ok (kv n) \<and> faults (disk (kv n)) = [] \<and> 0 < cMaxRange (cfg n) \<and> \<not> closing n"
    and c: "chan c = None" "\<not> cclosed c" "\<not> poisoned c" "1 \<le> MaxAttempts (copts c)"
    and k: "length startKey \<le> MaxKeySize" "length endKey \<le> MaxKeySize" "limit < 2 ^ 32"
  shows "\<exists>addr n xs c' w'. map_of (cnodes w) addr = Some n \<and> in_range startKey endKey (contents (kv n)) xs \<and>
    ReadKeyRange (cluster_wires rt now) startKey endKey limit (c, w) =
      ((None, take (nat (if limit \<le> 0 \<or> limit > cMaxRange (cfg n) then cMaxRange (cfg n) else limit)) xs), (c', w')) \<and>
    clean c' \<and> (\<exists>n'. map_of (cnodes w') = (map_of (cnodes w))(addr \<mapsto> n') \<and> contents (kv n') = contents (kv n))"
proof -
  let ?net = "cluster_wires rt now"
  let ?body = "str_enc startKey @ str_enc endKey @ be_bytes 4 (of_int (max limit 0) :: u32)"
  let ?h = "range_loop (\<lambda>k v out. (None, out @ [(k, v)]))"
  obtain i where i: "nat (MaxAttempts (copts c)) = Suc i" using c(4) by (cases "nat (MaxAttempts (copts c))") auto
  have rk: "ReadKeyRange ?net startKey endKey limit (c, w) = call_loop ?net (OpRange # ?body) ?h [] (Suc i) [] None (c, w)"
    using c(2) i by (simp add: ReadKeyRange_def ScanKeyRange_def call_def codec NewEnc_def del: call_loop.simps)
  obtain a as where a: "candidates [] c = a # as" "map_of (cnodes w) a \<noteq> None" by (rule candidates_known [OF kn])
  obtain n where n: "map_of (cnodes w) a = Some n" using a(2) by blast
  let ?lim = "nat (if limit \<le> 0 \<or> limit > cMaxRange (cfg n) then cMaxRange (cfg n) else limit)"
  obtain xs gs n' where x: "in_range startKey endKey (contents (kv n)) xs" "concat gs = take ?lim xs"
    "handle rt now OpRange (NewDec ?body) (n, NewWriter []) = Some (Inr (), (n', sent (NewWriter []) (range_frames gs)))"
    "list_all frame_ok (range_frames gs)" "list_all (list_all (\<lambda>(k, v). length k < 2 ^ 32 \<and> length v < 2 ^ 32)) gs"
    "contents (kv n') = contents (kv n)"
    using range_request [OF _ _ _ k] ns n by blast
  obtain p ps where p: "range_frames gs = p # ps" by (cases "range_frames gs") (auto simp: range_frames_def)
  have p1: "p \<noteq> []" "frame_ok p" "hd p \<noteq> StatusRedirect" "hd p \<noteq> StatusError"
    using p x(4) by (cases gs; auto simp: range_frames_def statuses)+
  let ?c = "c\<lparr>chan := Some (fresh_channel a)\<rparr>" and ?w = "w\<lparr>cnodes := AList.update a n' (cnodes w)\<rparr>"
  let ?c1 = "c\<lparr>chan := Some ((fresh_channel a)\<lparr>unread := concat (map frame ps), cut := EOF\<rparr>)\<rparr>"
  have cn: "connectLocked ?net [] (c, w) = (Inr (), (?c, w))" by (rule connect_calm [OF _ a w(1)]) (simp add: c(1))
  have ex: "exchange ?net (OpRange # ?body) (?c, w) = (Inr p, (?c1, ?w))"
    using exchange_calm [of ?c "fresh_channel a" OpRange ?body w n rt now n' p ps] n ns [rule_format, OF n] x(3) p p1 w(2) k
    by (simp add: fresh_channel_def ops MaxFrameSize_def record_consts)
  have "run_handler ?net ?h p [] (?c1, ?w) = ((None, concat gs), (?c\<lparr>poisoned := False\<rparr>, ?w))"
    using range_loop_frames [OF x(4,5) p, of "[]"] c(3) by (simp add: run_handler_def fresh_channel_def)
  then have "call_loop ?net (OpRange # ?body) ?h [] (Suc i) [] None (c, w) = ((None, concat gs), (?c\<lparr>poisoned := False\<rparr>, ?w))"
    using cn ex p1(3,4) by simp
  moreover have "clean (?c\<lparr>poisoned := False\<rparr>)" by (simp add: clean_def fresh_channel_def NewWriter_def)
  moreover have "map_of (cnodes ?w) = (map_of (cnodes w))(a \<mapsto> n')" by (simp add: update_conv')
  ultimately show ?thesis
    unfolding rk using n x(1,2,6)
    by (intro exI [of _ a] exI [of _ n] exI [of _ xs] exI [of _ "?c\<lparr>poisoned := False\<rparr>"] exI [of _ ?w]) auto
qed

section \<open>Bounds on retries\<close>

text \<open>Any network, with the number of connections dialled and of requests delivered.\<close>

definition counted :: "'w wires \<Rightarrow> ('w \<times> nat \<times> nat) wires" where
  "counted net =
     \<lparr> dial = (\<lambda>t a (w, d, x). case dial net t a w of (r, w) \<Rightarrow> (r, (w, d + 1, x))),
       deliver = (\<lambda>a bs (w, d, x). case deliver net a bs w of (inp, er, w) \<Rightarrow> (inp, er, (w, d, x + 1))),
       hangup = (\<lambda>a (w, d, x). case hangup net a w of (er, w) \<Rightarrow> (er, (w, d, x))) \<rparr>"

text \<open>From one state of client and network to another, at most so many of each.\<close>

definition spent :: "nat \<Rightarrow> nat \<Rightarrow> Client \<times> 'w \<times> nat \<times> nat \<Rightarrow> Client \<times> 'w \<times> nat \<times> nat \<Rightarrow> bool" where
  "spent dd xx st st' \<longleftrightarrow> (case (st, st') of ((c, _, d, x), (c', _, d', x')) \<Rightarrow>
     addrs c' = addrs c \<and> d' \<le> d + dd \<and> x' \<le> x + xx)"

lemma spent_trans: "spent d x s t \<Longrightarrow> spent d' x' t u \<Longrightarrow> spent (d + d') (x + x') s u"
  by (auto simp: spent_def split: prod.splits)

lemma spent_mono: "spent d x s t \<Longrightarrow> d \<le> d' \<Longrightarrow> x \<le> x' \<Longrightarrow> spent d' x' s t"
  by (auto simp: spent_def split: prod.splits)

lemma drop_spent: "spent 0 0 st (snd (dropLocked (counted net) st))"
  by (auto simp: dropLocked_def counted_def spent_def split: prod.splits option.splits)

lemma dial_spent: "dial_first (counted net) as st = (b, st') \<Longrightarrow> spent (length as) 0 st st'"
proof (induction as arbitrary: st)
  case (Cons a as)
  obtain c w d x where st: "st = (c, (w, d, x))" by (metis prod.exhaust)
  obtain r w1 where r: "dial net (Timeout (copts c)) a w = (r, w1)" by fastforce
  show ?case
  proof (cases r)
    case (Inl er)
    then have "dial_first (counted net) as (c\<lparr>nxt := nxt c + 1\<rparr>, (w1, d + 1, x)) = (b, st')"
      using Cons.prems st r by (simp add: counted_def)
    from Cons.IH [OF this] show ?thesis using st by (auto simp: spent_def split: prod.splits)
  next
    case (Inr fl)
    then show ?thesis using Cons.prems st r by (auto simp: counted_def spent_def)
  qed
qed (auto simp: spent_def split: prod.splits)

lemma connect_spent:
  assumes "connectLocked (counted net) pref st = (r, st')"
  shows "spent (length (addrs (fst st)) + 1) 0 st st'"
proof (cases "case chan (fst st) of None \<Rightarrow> False | Some l \<Rightarrow> pref = [] \<or> pref = current l")
  case True
  then show ?thesis using assms by (auto simp: connectLocked_def spent_def split: prod.splits)
next
  case False
  obtain e st1 where 1: "dropLocked (counted net) st = (e, st1)" by (metis prod.exhaust)
  obtain b st2 where 2: "dial_first (counted net) (candidates pref (fst st1)) st1 = (b, st2)" by (metis prod.exhaust)
  have s1: "spent 0 0 st st1" using drop_spent [of st net] 1 by simp
  then have "length (candidates pref (fst st1)) \<le> length (addrs (fst st)) + 1"
    by (auto simp: candidates_def spent_def split: prod.splits)
  from spent_mono [OF spent_trans [OF s1 dial_spent [OF 2]] _ order_refl] this
  have "spent (length (addrs (fst st)) + 1) 0 st st2" by simp
  moreover have "st' = st2" using assms False 1 2 by (simp add: connectLocked_def split: if_splits)
  ultimately show ?thesis by simp
qed

lemma exchange_spent: "exchange (counted net) req st = (r, st') \<Longrightarrow> spent 0 1 st st'"
  by (auto simp: exchange_def counted_def spent_def Let_def split: prod.splits option.splits sum.splits)

lemma give_up_spent: "spent 0 0 st (give_up (counted net) st)"
  using drop_spent [of st net] by (auto simp: give_up_def spent_def split: prod.splits)

lemma run_handler_spent: "run_handler (counted net) hdl fr out st = (r, st') \<Longrightarrow> spent 0 0 st st'"
  by (auto simp: run_handler_def dropLocked_def counted_def spent_def Let_def split: prod.splits option.splits if_splits)

lemma call_loop_spent:
  "call_loop (counted net) req hdl out i pref le st = (r, st') \<Longrightarrow> spent (i * (length (addrs (fst st)) + 1)) i st st'"
proof (induction i arbitrary: st pref le)
  case 0
  then show ?case by (auto simp: spent_def split: prod.splits)
next
  case (Suc i)
  let ?net = "counted net" and ?k = "length (addrs (fst st)) + 1"
  obtain q st1 where q: "connectLocked ?net pref st = (q, st1)" by (metis prod.exhaust)
  note s1 = connect_spent [OF q]
  obtain x st2 where x: "exchange ?net req st1 = (x, st2)" by (metis prod.exhaust)
  note s2 = spent_trans [OF s1 exchange_spent [OF x]]
  have again: "spent (Suc i * ?k) (Suc i) st st'"
    if "call_loop ?net req hdl out i p e st3 = (r, st')" "spent 0 0 st2 st3" for p e st3
  proof -
    note s3 = spent_trans [OF s2 that(2)]
    have "addrs (fst st3) = addrs (fst st)" using s3 by (auto simp: spent_def split: prod.splits)
    from spent_mono [OF spent_trans [OF s3 Suc.IH [OF that(1)]]] this show ?thesis by simp
  qed
  have g: "spent 0 0 st2 (give_up ?net st2)" by (rule give_up_spent)
  have stop: "spent (Suc i * ?k) (Suc i) st st'" if "spent 0 0 st2 st'" using spent_mono [OF spent_trans [OF s2 that]] by simp
  have refl: "spent 0 0 st2 st2" by (auto simp: spent_def split: prod.splits)
  show ?case
  proof (cases q)
    case (Inl er)
    then have "st' = st1" using Suc.prems q by simp
    then show ?thesis using spent_mono [OF s1] by simp
  next
    case (Inr u)
    show ?thesis
    proof (cases x)
      case (Inl er)
      then show ?thesis using again [OF _ g] Suc.prems q Inr x \<open>q = Inr u\<close> by simp
    next
      case (Inr fr)
      let ?ld = "fst (DecStr (NewDec (tl fr)))"
      consider "hd fr = StatusRedirect" "?ld = [] \<or> (case chan (fst st2) of None \<Rightarrow> False | Some l \<Rightarrow> ?ld = current l)"
        | "hd fr = StatusRedirect" "\<not> (?ld = [] \<or> (case chan (fst st2) of None \<Rightarrow> False | Some l \<Rightarrow> ?ld = current l))"
        | "hd fr = StatusError" "hd fr \<noteq> StatusRedirect" | "hd fr \<noteq> StatusRedirect" "hd fr \<noteq> StatusError" by blast
      then show ?thesis
      proof cases
        case 1
        then show ?thesis
          using again [of "[]" "Some (ErrOther ''node has no leader yet'')", OF _ g] Suc.prems q \<open>q = Inr u\<close> x Inr by simp
      next
        case 2
        then show ?thesis using again [of ?ld le, OF _ refl] Suc.prems q \<open>q = Inr u\<close> x Inr by simp
      next
        case 3
        then have "st' = st2" using Suc.prems q \<open>q = Inr u\<close> x Inr by simp
        then show ?thesis using stop refl by simp
      next
        case 4
        then show ?thesis using stop [OF run_handler_spent] Suc.prems q \<open>q = Inr u\<close> x Inr by simp
      qed
    qed
  qed
qed

text \<open>
  C28. Retries are bounded: over any network, whatever nodes answer and even if they redirect in a
  circle, a call ends after at most \<open>MaxAttempts\<close> requests and dials at most once per known
  address and redirect in each attempt.
\<close>

theorem call_bounded:
  assumes "call (counted net) req hdl out (c, (w, 0, 0)) = (r, (c', (w', d, x)))"
  shows "x \<le> nat (MaxAttempts (copts c)) \<and> d \<le> nat (MaxAttempts (copts c)) * (length (addrs c) + 1)"
proof (cases "cclosed c")
  case True
  then show ?thesis using assms by (simp add: call_def)
next
  case False
  then have "call_loop (counted net) req hdl out (nat (MaxAttempts (copts c))) [] None (c, (w, 0, 0)) = (r, (c', (w', d, x)))"
    using assms by (simp add: call_def)
  from call_loop_spent [OF this] show ?thesis by (simp add: spent_def)
qed

section \<open>Concrete calls\<close>

definition cluster_ex :: cluster where
  "cluster_ex = \<lparr> cnodes = [([0x31], node_ex [0x31] 1 store_ex), ([0x32], (node_ex [0x31] 1 store_ex1)\<lparr>role := Follower\<rparr>)],
     dials = [], cuts = [] \<rparr>"

definition client_ex :: Client where
  "client_ex = \<lparr> addrs = [[0x32]], copts = \<lparr> Timeout = 1, MaxAttempts = 4 \<rparr>, chan = None, nxt = 0, cclosed = False, poisoned = False \<rparr>"

lemma cluster_ex_ok:
  "settled_on [0x31] cluster_ex" "known_nodes client_ex cluster_ex" "map_of (cnodes cluster_ex) [0x31] = Some (node_ex [0x31] 1 store_ex)"
  "all_ready 4 cluster_ex" "ready 1 (node_ex [0x31] 1 store_ex)" "calm (kv (node_ex [0x31] 1 store_ex))"
proof -
  have r: "ready 4 (node_ex [0x31] 1 store_ex)" "ready 4 ((node_ex [0x31] 1 store_ex1)\<lparr>role := Follower\<rparr>)"
    using store_ex_ok store_ex_calm(2,3) store_ex1_ok by (simp_all add: ready_def node_ex_def store_ex_def)
  then show "all_ready 4 cluster_ex" by (auto simp: all_ready_def cluster_ex_def split: if_splits)
  show "ready 1 (node_ex [0x31] 1 store_ex)" using r(1) by (auto simp: ready_def)
  show "settled_on [0x31] cluster_ex" by (auto simp: settled_on_def cluster_ex_def node_ex_def split: if_splits)
  show "known_nodes client_ex cluster_ex" by (simp add: known_nodes_def client_ex_def cluster_ex_def)
  show "map_of (cnodes cluster_ex) [0x31] = Some (node_ex [0x31] 1 store_ex)" by (simp add: cluster_ex_def)
  show "calm (kv (node_ex [0x31] 1 store_ex))" using store_ex_calm(1) by (simp add: node_ex_def)
qed

lemma client_ex_fields:
  "chan client_ex = None" "\<not> cclosed client_ex" "\<not> poisoned client_ex" "MaxAttempts (copts client_ex) = 4" "clean client_ex"
  by (simp_all add: client_ex_def clean_def)

theorem client_finds_leader_witness:
  "\<exists>c' w' n'. ClientPut (cluster_wires runtime_ex 5) [0x61] [0x62] (client_ex, cluster_ex) = ((None, ()), (c', w')) \<and>
    map_of (cnodes w') [0x31] = Some n' \<and> contents (kv n') = [[0x61] \<mapsto> [0x62]]"
  using client_finds_leader [OF cluster_ex_ok(1-3,5,6) client_ex_fields(1-3) _ valid_kv_ex(1), of runtime_ex 5]
  by (simp add: client_ex_fields node_ex_def store_ex_empty)

lemma runtime_ex_short: "short_texts runtime_ex"
  by (simp add: short_texts_def runtime_ex_def)

theorem client_write_witness:
  "\<exists>c' w'. submit (cluster_wires runtime_ex 5) (WPut [0x61] [0x62]) (client_ex, cluster_ex) = ((None, ()), (c', w')) \<and>
    evolved (WPut [0x61] [0x62]) cluster_ex w' \<and> landed (WPut [0x61] [0x62]) cluster_ex w'"
proof -
  obtain c' w' where r: "submit (cluster_wires runtime_ex 5) (WPut [0x61] [0x62]) (client_ex, cluster_ex) = ((None, ()), (c', w'))"
    using client_put_settled [OF cluster_ex_ok(1-3,5,6) client_ex_fields(1-3) _ valid_kv_ex(1), of runtime_ex 5] client_ex_fields(4) by auto
  have "all_ready (nat (MaxAttempts (copts client_ex))) cluster_ex" using cluster_ex_ok(4) by (simp add: client_ex_fields(4))
  from client_write [OF _ runtime_ex_short client_ex_fields(5,3) this r] r show ?thesis using valid_kv_ex(1) by auto
qed

definition single_ex :: cluster where
  "single_ex = \<lparr> cnodes = [([0x32], (node_ex [0x31] 1 store_ex1)\<lparr>role := Follower\<rparr>)], dials = [], cuts = [] \<rparr>"

theorem client_range_witness:
  "\<exists>xs c' w'. in_range [] [] [[0x61] \<mapsto> [0x62]] xs \<and>
    ReadKeyRange (cluster_wires runtime_ex 5) [] [] 0 (client_ex, single_ex) = ((None, take 100000 xs), (c', w')) \<and> clean c'"
proof -
  let ?n = "(node_ex [0x31] 1 store_ex1)\<lparr>role := Follower\<rparr>"
  have only: "n = ?n" if "map_of (cnodes single_ex) addr = Some n" for addr n using that by (simp add: single_ex_def split: if_splits)
  have n: "store_ok (kv ?n)" "faults (disk (kv ?n)) = []" "cMaxRange (cfg ?n) = 100000" "\<not> closing ?n" "contents (kv ?n) = [[0x61] \<mapsto> [0x62]]"
    using store_ex1_ok by (simp_all add: node_ex_def config_ex_def)
  have w: "known_nodes client_ex single_ex" "dials single_ex = []" "cuts single_ex = []" by (simp_all add: known_nodes_def client_ex_def single_ex_def)
  have ns: "\<forall>addr n. map_of (cnodes single_ex) addr = Some n \<longrightarrow>
      store_ok (kv n) \<and> faults (disk (kv n)) = [] \<and> 0 < cMaxRange (cfg n) \<and> \<not> closing n"
    using n by (auto dest!: only)
  obtain addr m xs c' w' where m: "map_of (cnodes single_ex) addr = Some m" "in_range [] [] (contents (kv m)) xs"
    "ReadKeyRange (cluster_wires runtime_ex 5) [] [] 0 (client_ex, single_ex) = ((None, take (nat (cMaxRange (cfg m))) xs), (c', w'))" "clean c'"
    using client_range [OF w ns client_ex_fields(1-3), where startKey = "[]" and endKey = "[]" and limit = 0 and rt = runtime_ex and now = 5] by (auto simp: client_ex_fields(4) record_consts)
  then show ?thesis using n(3,5) only [OF m(1)] by auto
qed

theorem call_bounded_witness:
  "\<exists>r c' w' d x. call (counted (cluster_wires runtime_ex 5)) [OpPing] (\<lambda>first er u out. (None, out, False, u)) () (client_ex, (cluster_ex, 0, 0)) =
      (r, (c', (w', d, x))) \<and> x \<le> 4 \<and> d \<le> 8"
proof -
  obtain r c' w' d x where r: "call (counted (cluster_wires runtime_ex 5)) [OpPing] (\<lambda>first er u out. (None, out, False, u)) ()
      (client_ex, (cluster_ex, 0, 0)) = (r, (c', (w', d, x)))" by (metis prod.exhaust)
  have b: "x \<le> 4 \<and> d \<le> 8" using call_bounded [OF r] by (simp add: client_ex_def)
  show ?thesis by (intro exI conjI) (rule r, use b in simp_all)
qed

end
