(* ===== verification/Failover.thy ===== *)
theory Failover
  imports Requests
begin

text \<open>
  Properties of failover (\<open>internal/node/election.go\<close>) and of a node as a whole: what an election
  needs, what it cannot do, and what every event of a node keeps.
\<close>

section \<open>The vote loop\<close>

text \<open>The answers a candidate got, in the order of the peers.\<close>

fun replies :: "(bytes \<Rightarrow> error + voteReply) \<Rightarrow> bytes list \<Rightarrow> voteReply list" where
  "replies ask [] = []"
| "replies ask (p # ps) = (case ask p of Inl _ \<Rightarrow> replies ask ps | Inr r \<Rightarrow> r # replies ask ps)"

definition beaten_by :: "u64 \<Rightarrow> bytes \<Rightarrow> voteReply \<Rightarrow> bool" where
  "beaten_by mySeq myID r \<longleftrightarrow> vseq r > mySeq \<or> vseq r = mySeq \<and> vid r < myID"

lemma vote_loop_counted:
  assumes "vote_loop ask myID mySeq peers k b e = Counted k' b' e'"
  shows "k' = k + length (replies ask peers) \<and>
    b' = (b \<and> (\<forall>r \<in> set (replies ask peers). \<not> beaten_by mySeq myID r)) \<and>
    e \<le> e' \<and> (\<forall>r \<in> set (replies ask peers). vepoch r \<le> e' \<and>
      (vrole r = role_byte Leader \<longrightarrow> vepoch r < e') \<and> \<not> (vleaderAlive r \<and> vleaderAddr r \<noteq> []))"
  using assms
proof (induction peers arbitrary: k b e)
  case (Cons p ps)
  show ?case
  proof (cases "ask p")
    case (Inl er)
    then show ?thesis using Cons by simp
  next
    case (Inr r)
    let ?b = "b \<and> \<not> beaten_by mySeq myID r" and ?e = "if vepoch r > e then vepoch r else e"
    have c: "\<not> (vrole r = role_byte Leader \<and> vepoch r \<ge> e)" "\<not> (vleaderAlive r \<and> vleaderAddr r \<noteq> [])"
      using Cons.prems Inr by (auto split: if_splits)
    have "vote_loop ask myID mySeq ps (k + 1) ?b ?e = Counted k' b' e'"
      using Cons.prems Inr c by (simp add: beaten_by_def)
    note IH = Cons.IH [OF this]
    have "?e \<le> e'" using IH by simp
    then have "e \<le> e'" "vepoch r \<le> e'" by (auto split: if_splits)
    moreover have "vrole r = role_byte Leader \<longrightarrow> vepoch r < e'" using c(1) calculation(1) by auto
    ultimately show ?thesis using IH c(2) unfolding replies.simps Inr sum.case set_simps by auto
  qed
qed simp

lemma startElection_elected:
  assumes "role n = Follower" and "startElection net now n = n'" and "role n' = Leader"
  shows "let rs = replies (\<lambda>p. requestVote net p (seq (kv n)) n) (peersExceptSelf n) in
    (\<exists>e. epoch n' = e + 1 \<and> epoch n \<le> e \<and>
      (\<forall>r \<in> set rs. vepoch r \<le> e \<and> (vrole r = role_byte Leader \<longrightarrow> vepoch r < e))) \<and>
    2 * (length rs + 1) > clusterSize n \<and>
    (\<forall>r \<in> set rs. \<not> (vleaderAlive r \<and> vleaderAddr r \<noteq> []) \<and>
      (vseq r < seq (kv n) \<or> vseq r = seq (kv n) \<and> cID (cfg n) \<le> vid r)) \<and>
    leaderAddr n' = cAddr (cfg n) \<and> kv n' = kv n \<and>
    calls n' = calls n @ map (\<lambda>p. (p, announce_req n (epoch n'))) (peersExceptSelf n)"
proof -
  let ?ask = "\<lambda>p. requestVote net p (seq (kv n)) n" and ?ps = "peersExceptSelf n"
  let ?loop = "vote_loop ?ask (cID (cfg n)) (seq (kv n)) ?ps 1 True (epoch n)"
  obtain k e where loop: "?loop = Counted k True e" "\<not> k * 2 \<le> clusterSize n" "n' = promoteTo (e + 1) now n"
  proof (cases ?loop)
    case (Stand_down a ep)
    then have "n' = n \<or> n' = adoptLeader a ep now n"
      using assms(2) by (auto simp: startElection_def Let_def)
    then have "role n' = Follower" using assms(1) by (auto simp: adoptLeader_def Let_def)
    then show ?thesis using assms(3) by simp
  next
    case (Counted k b e)
    have ne: "n' \<noteq> n" using assms(1,3) by auto
    have n': "n' = (if electing n then n else if role n = Leader \<or> closing n then n
        else if k * 2 \<le> clusterSize n then n else if \<not> b then n else promoteTo (e + 1) now n)"
      using assms(2) unfolding startElection_def Let_def Counted verdict.case by (rule sym)
    have "\<not> k * 2 \<le> clusterSize n" "b" "n' = promoteTo (e + 1) now n"
      using n' ne by presburger+
    then show ?thesis using Counted by (intro that [of k e]) simp_all
  qed
  have n': "calls n' = calls n @ map (\<lambda>p. (p, announce_req n (e + 1))) ?ps" "epoch n' = e + 1"
      "leaderAddr n' = cAddr (cfg n)" "kv n' = kv n"
    using loop(3) assms(1) by (simp_all add: promoteTo_def peersExceptSelf_def announce_req_def Let_def)
  note c = vote_loop_counted [OF loop(1)]
  show ?thesis unfolding Let_def n'
  proof (intro conjI)
    show "\<exists>e'. e + 1 = e' + 1 \<and> epoch n \<le> e' \<and>
        (\<forall>r \<in> set (replies ?ask ?ps). vepoch r \<le> e' \<and> (vrole r = role_byte Leader \<longrightarrow> vepoch r < e'))"
      using c by blast
    show "\<forall>r \<in> set (replies ?ask ?ps). \<not> (vleaderAlive r \<and> vleaderAddr r \<noteq> []) \<and>
        (vseq r < seq (kv n) \<or> vseq r = seq (kv n) \<and> cID (cfg n) \<le> vid r)"
      using c unfolding beaten_by_def by (meson linorder_neqE not_le)
  qed (use c loop(2) in \<open>simp_all\<close>)
qed


section \<open>Candidates that hear each other\<close>

text \<open>What a node answers to a vote request.\<close>

definition vote_of :: "node \<Rightarrow> int \<Rightarrow> bytes \<Rightarrow> voteReply" where
  "vote_of m now addr = \<lparr> vid = cID (cfg m), vrole = role_byte (role m), vepoch = epoch m, vseq = seq (kv m),
     vleaderAddr = leaderAddr m, vleaderAlive = (role m = Leader \<or> now - lastContact m \<le> cElection (cfg m)),
     responseFrom = addr \<rparr>"

definition small_names :: "node \<Rightarrow> bool" where
  "small_names m \<longleftrightarrow> length (cID (cfg m)) < 2 ^ 20 \<and> length (leaderAddr m) < 2 ^ 20"

lemma requestVote_connection:
  assumes "net addr = Inr (connection rt now peer m)" and "\<not> closing m" and "small_names n" and "small_names m"
  shows "requestVote net addr q n = Inr (vote_of m now addr)"
proof -
  let ?alive = "role m = Leader \<or> now - lastContact m \<le> cElection (cfg m)"
  let ?args = "str_enc (cID (cfg n)) @ be_bytes 8 q"
  let ?body = "str_enc (cID (cfg m)) @ [role_byte (role m)] @ be_bytes 8 (epoch m) @ be_bytes 8 (seq (kv m)) @
    str_enc (leaderAddr m) @ [if ?alive then 1 else 0]"
  have req: "vote_req n q = OpVote # ?args" by (simp add: vote_req_def NewEnc_def codec)
  have len: "length (cID (cfg n)) < 2 ^ 32" "length (cID (cfg m)) < 2 ^ 32" "length (leaderAddr m) < 2 ^ 32"
    using assms(3,4) by (simp_all add: small_names_def)
  have p: "frame_ok (StatusOK # ?body)" using assms(4) by (simp add: small_names_def MaxFrameSize_def)
  have "handleVote (errText rt) now (NewDec ?args) m (NewWriter []) = (Inr (), sent (NewWriter []) [StatusOK # ?body])"
    using p len unfolding handleVote_def NewDec_at Let_def
    by (simp add: codec NewEnc_def NewWriter_def)
  then have "handle rt now OpVote (NewDec ?args) (m, NewWriter []) = Some (Inr (), (m, sent (NewWriter []) [StatusOK # ?body]))"
    by (simp add: handle_def ops reply_def)
  then have "roundTrip net addr (OpVote # ?args) = Inr (StatusOK # ?body)"
    using roundTrip_connection [of net addr rt now peer m OpVote ?args "StatusOK # ?body" m] p assms(1-3)
    by (simp add: small_names_def MaxFrameSize_def ops statuses)
  then show ?thesis
    unfolding requestVote_def req using len by (simp add: NewDec_at codec Let_def vote_of_def)
qed

lemma replies_in: "p \<in> set ps \<Longrightarrow> ask p = Inr r \<Longrightarrow> r \<in> set (replies ask ps)"
  by (induction ps) (auto split: sum.splits)

text \<open>
  C9. At most one of two candidates that hear each other wins a round: if two followers with
  different identifiers each ask the other, both with the state they had when the round began, they
  do not both become leaders, whatever the other peers answer.
\<close>

theorem one_winner:
  assumes "role a = Follower" and "role b = Follower" and "cID (cfg a) \<noteq> cID (cfg b)"
    and "cAddr (cfg b) \<in> set (peersExceptSelf a)" and "cAddr (cfg a) \<in> set (peersExceptSelf b)"
    and "neta (cAddr (cfg b)) = Inr (connection rt now peer b)"
    and "netb (cAddr (cfg a)) = Inr (connection rt' now' peer' a)"
    and "\<not> closing a" and "\<not> closing b" and "small_names a" and "small_names b"
  shows "\<not> (role (startElection neta nowa a) = Leader \<and> role (startElection netb nowb b) = Leader)"
proof
  assume "role (startElection neta nowa a) = Leader \<and> role (startElection netb nowb b) = Leader"
  then have won: "role (startElection neta nowa a) = Leader" "role (startElection netb nowb b) = Leader" by blast+
  have "requestVote neta (cAddr (cfg b)) (seq (kv a)) a = Inr (vote_of b now (cAddr (cfg b)))"
    by (rule requestVote_connection [where rt = rt and peer = peer]) (rule assms)+
  then have b: "vote_of b now (cAddr (cfg b)) \<in> set (replies (\<lambda>p. requestVote neta p (seq (kv a)) a) (peersExceptSelf a))"
    by (rule replies_in [OF assms(4)])
  have "requestVote netb (cAddr (cfg a)) (seq (kv b)) b = Inr (vote_of a now' (cAddr (cfg a)))"
    by (rule requestVote_connection [where rt = rt' and peer = peer']) (rule assms)+
  then have a: "vote_of a now' (cAddr (cfg a)) \<in> set (replies (\<lambda>p. requestVote netb p (seq (kv b)) b) (peersExceptSelf b))"
    by (rule replies_in [OF assms(5)])
  have "seq (kv b) < seq (kv a) \<or> seq (kv b) = seq (kv a) \<and> cID (cfg a) \<le> cID (cfg b)"
    using startElection_elected [OF assms(1) refl won(1), unfolded Let_def] b by (auto simp: vote_of_def)
  moreover have "seq (kv a) < seq (kv b) \<or> seq (kv a) = seq (kv b) \<and> cID (cfg b) \<le> cID (cfg a)"
    using startElection_elected [OF assms(2) refl won(2), unfolded Let_def] a by (auto simp: vote_of_def)
  ultimately show False using assms(3) by auto
qed

section \<open>Epochs\<close>

text \<open>Everything that can happen to a node, at the granularity of its handlers and loops.\<close>

inductive node_step :: "node \<Rightarrow> node \<Rightarrow> bool" where
  request: "handle rt now op d (n, w) = Some (r, (n', w')) \<Longrightarrow> node_step n n'"
| attach: "attach fromSeq peer (n, w) = Some (x, (n', w')) \<Longrightarrow> node_step n n'"
| serve: "serve_step i (n, w) (b, (n', w')) \<Longrightarrow> node_step n n'"
| replicate: "replicate_req n = (req, n') \<Longrightarrow> node_step n n'"
| stream_frame: "follow_frame now addr fr c n = (r, n') \<Longrightarrow> node_step n n'"
| election: "startElection net now n = n' \<Longrightarrow> node_step n n'"

definition same_id :: "node \<Rightarrow> node \<Rightarrow> bool" where
  "same_id n n' \<longleftrightarrow> role n' = role n \<and> epoch n' = epoch n \<and> cfg n' = cfg n \<and> closing n' = closing n"

text \<open>Epochs do not decrease, and a role changes with a higher epoch only.\<close>

definition advances :: "node \<Rightarrow> node \<Rightarrow> bool" where
  "advances n n' \<longleftrightarrow> cfg n' = cfg n \<and> closing n' = closing n \<and> epoch n \<le> epoch n' \<and> (role n' \<noteq> role n \<longrightarrow> epoch n < epoch n')"

lemma same_id_advances: "same_id n n' \<Longrightarrow> advances n n'"
  by (simp add: same_id_def advances_def)

lemma same_id_refl [simp]: "same_id n n"
  by (simp add: same_id_def)

lemma same_id_trans: "same_id n n' \<Longrightarrow> same_id n' n'' \<Longrightarrow> same_id n n''"
  by (simp add: same_id_def)

lemma same_id_fields [simp]:
  "same_id n (m\<lparr>kv := s\<rparr>) = same_id n m" "same_id n (m\<lparr>streams := ss\<rparr>) = same_id n m"
  "same_id n (m\<lparr>lastContact := t\<rparr>) = same_id n m" "same_id n (m\<lparr>wasLeader := b\<rparr>) = same_id n m"
  "same_id n (m\<lparr>leaderAddr := a\<rparr>) = same_id n m" "same_id n (m\<lparr>nextStream := k\<rparr>) = same_id n m"
  "same_id n (m\<lparr>calls := cs\<rparr>) = same_id n m" "same_id n (notified m) = same_id n m"
  by (simp_all add: same_id_def notified_keeps)

lemma same_id_left [simp]: "same_id (n\<lparr>kv := s\<rparr>) n' = same_id n n'" "same_id (n\<lparr>lastContact := t\<rparr>) n' = same_id n n'"
  by (simp_all add: same_id_def)

lemma on_store_same: "on_store f n = (r, n') \<Longrightarrow> same_id n n'"
  by (auto simp: on_store_def split: prod.splits)

lemma handlers_same:
  "handleGet rt d (n, w) = Some (r, (n', w')) \<Longrightarrow> same_id n n'"
  "handlePut rt now d (n, w) = Some (r, (n', w')) \<Longrightarrow> same_id n n'"
  "handleDelete rt now d (n, w) = Some (r, (n', w')) \<Longrightarrow> same_id n n'"
  "handleBatchPut rt now d (n, w) = Some (r, (n', w')) \<Longrightarrow> same_id n n'"
  by (auto simp: handleGet_def handlePut_def handleDelete_def handleBatchPut_def leader_only_def Let_def
      split: prod.splits sum.splits option.splits if_splits dest!: reply_same on_store_same)

lemma handleRange_same: "handleRange rt d (n, w) = Some (r, (n', w')) \<Longrightarrow> same_id n n'"
  by (auto simp: handleRange_def serveRange_def Let_def
      split: prod.splits sum.splits option.splits dest!: reply_same)

lemma handleAnnounce_advances: "handleAnnounce msg now d (n, w) = (r, (n', w')) \<Longrightarrow> advances n n'"
  by (auto simp: handleAnnounce_def Let_def advances_def closeAllStreams_def
      split: prod.splits option.splits if_splits)

lemma promoteTo_advances:
  assumes "epoch n \<le> e"
  shows "epoch (promoteTo (e + 1) now n) = 0 \<and> closing (promoteTo (e + 1) now n) = closing n \<or> advances n (promoteTo (e + 1) now n)"
proof -
  have "e + 1 = 0 \<or> e < e + 1"
    using unatSuc [of e] by (cases "1 + e = 0") (simp_all add: word_less_nat_alt add.commute)
  then show ?thesis using assms by (auto simp: promoteTo_def advances_def Let_def)
qed

lemma startElection_advances:
  "epoch (startElection net now n) = 0 \<and> closing (startElection net now n) = closing n \<or> advances n (startElection net now n)"
proof (cases "vote_loop (\<lambda>p. requestVote net p (seq (kv n)) n) (cID (cfg n)) (seq (kv n)) (peersExceptSelf n) 1 True (epoch n)")
  case (Stand_down a ep)
  have "advances n (adoptLeader a ep now n)" by (auto simp: adoptLeader_def advances_def Let_def)
  then show ?thesis
    using same_id_advances [OF same_id_refl, of n]
    unfolding startElection_def Let_def Stand_down verdict.case by presburger
next
  case (Counted k b e)
  then have "epoch n \<le> e" using vote_loop_counted by blast
  from promoteTo_advances [OF this, of now] show ?thesis
    using same_id_advances [OF same_id_refl, of n]
    unfolding startElection_def Let_def Counted verdict.case by presburger
qed

lemma handle_advances:
  assumes "handle rt now op d (n, w) = Some (r, (n', w'))"
  shows "epoch n' = 0 \<and> closing n' = closing n \<or> advances n n'"
proof -
  note h = assms [unfolded handle_def prod.case]
  consider "op \<in> {OpGet, OpPut, OpDelete, OpBatchPut, OpRange}" | "op = OpAnnounce" | "op = OpPromote"
    | "op \<notin> {OpGet, OpRange, OpAnnounce, OpPromote, OpPut, OpDelete, OpBatchPut}" by blast
  then show ?thesis
  proof cases
    case 1
    then have "same_id n n'"
      using h handlers_same handleRange_same by (auto simp: ops)
    then show ?thesis using same_id_advances by blast
  next
    case 2
    then have "handleAnnounce (errText rt) now d (n, w) = (r, (n', w'))" using h by (simp add: ops)
    then show ?thesis using handleAnnounce_advances by blast
  next
    case 3
    then have "n' = n \<or> n' = Promote now n" using h by (auto simp: ops split: option.splits dest!: reply_same)
    then show ?thesis
      using same_id_advances [OF same_id_refl, of n] promoteTo_advances [of n "epoch n" now] by (auto simp: Promote_def)
  next
    case 4
    from handle_other [OF assms this] have "same_id n n'" by auto
    then show ?thesis using same_id_advances by blast
  qed
qed

lemma send_snapshot_same: "send_snapshot (n, w) = Some (r, (n', w')) \<Longrightarrow> same_id n n'"
  by (auto simp: send_snapshot_def split: prod.splits sum.splits option.splits dest!: reply_same)

lemma catchUp_same:
  assumes "catchUp q (n, w) = Some (r, (n', w'))"
  shows "same_id n n'"
proof (cases "q = 0")
  case True
  then show ?thesis using assms by (auto simp: catchUp_def dest: send_snapshot_same)
next
  case False
  obtain x s w1 where x: "RecordsSince q send_raw (kv n, w) = (x, (s, w1))" by (metis prod.exhaust)
  show ?thesis
    using assms False x
    by (cases x) (auto simp: catchUp_def split: if_splits dest!: reply_same send_snapshot_same)
qed

lemma attach_same:
  assumes "attach q peer (n, w) = Some (x, (n', w'))"
  shows "same_id n n'"
proof -
  obtain i n1 where a: "addStream (newReplStream peer) n = (i, n1)" by fastforce
  then have "same_id n n1" by (auto simp: addStream_def)
  moreover have "same_id n1 n' \<or> n' = n"
    using assms a
    by (auto simp: attach_def Let_def removeStream_def split: if_splits prod.splits sum.splits option.splits dest!: catchUp_same)
  ultimately show ?thesis using same_id_trans by auto
qed

lemma take_ch_same: "take_ch i n = Some (raw, n') \<Longrightarrow> same_id n n'"
  by (auto simp: take_ch_def split: option.splits list.splits)

lemma drain_same: "drain k i (n, w) = (r, (n', w')) \<Longrightarrow> same_id n n'"
proof (induction k arbitrary: n w)
  case (Suc k)
  show ?case
  proof (cases "take_ch i n")
    case None
    then show ?thesis using Suc.prems by simp
  next
    case (Some x)
    obtain raw n1 where x: "x = (raw, n1)" by fastforce
    obtain y w1 where y: "writeReplData raw w = (y, w1)" by fastforce
    have "same_id n1 n'" using Suc Some x y by (cases y) auto
    then show ?thesis using take_ch_same Some x same_id_trans by blast
  qed
qed simp

lemma send_queued_same:
  assumes "send_queued i raw (n, w) = (r, (n', w'))"
  shows "same_id n n'"
proof -
  obtain y w1 where y: "writeReplData raw w = (y, w1)" by fastforce
  obtain z n2 w2 where z: "drain 256 i (n, w1) = (z, (n2, w2))" by (metis prod.exhaust)
  show ?thesis
    using assms y z drain_same [OF z] by (cases y; cases z) (auto simp: send_queued_def split: prod.splits)
qed

lemma serve_same:
  assumes "serve_step i (n, w) (b, (n', w'))"
  shows "same_id n n'"
  using assms
  by cases (auto simp: removeStream_def dest!: take_ch_same send_queued_same intro: same_id_trans)

lemma follow_frame_advances:
  assumes "follow_frame now addr fr c n = (r, n')"
  shows "advances n n'"
proof -
  let ?n = "setLastContact now n"
  have ad: "advances n (adoptEpoch a ep ?n)" for a ep
    by (auto simp: adoptEpoch_def setLastContact_def advances_def Let_def)
  have same: "same_id n ?n" by (simp add: setLastContact_def)
  have os: "same_id n (snd (on_store Reset ?n))" "same_id n (snd (on_store (ApplyRaw args) ?n))" for args
    using on_store_same [of Reset ?n] on_store_same [of "ApplyRaw args" ?n] same same_id_trans
    by (metis prod.collapse)+
  have n': "n' = snd (follow_frame now addr fr c n)" by (simp add: assms)
  consider "fr = []" | "fr \<noteq> []" "hd fr = StatusHeartbeat" | "fr \<noteq> []" "hd fr = StatusFullSync"
    | "fr \<noteq> []" "hd fr = StatusReplData" | "fr \<noteq> []" "hd fr = StatusRedirect"
    | "fr \<noteq> []" "hd fr \<notin> {StatusHeartbeat, StatusFullSync, StatusReplData, StatusRedirect}" by blast
  then have "same_id n n' \<or> (\<exists>a ep. n' = adoptEpoch a ep ?n)"
  proof cases
    case 2
    then have "n' = ?n \<or> (\<exists>a ep. n' = adoptEpoch a ep ?n)"
      unfolding n' by (auto simp: follow_frame_def statuses Let_def split: prod.splits)
    then show ?thesis using same by auto
  qed (use os same in \<open>simp_all add: n' follow_frame_def statuses Let_def\<close>)
  then show ?thesis using ad same_id_advances by blast
qed

lemma node_step_advances: "node_step n n' \<Longrightarrow> epoch n' = 0 \<and> closing n' = closing n \<or> advances n n'"
  by (induction rule: node_step.induct)
     (use handle_advances attach_same serve_same follow_frame_advances startElection_advances same_id_advances
      in \<open>fastforce simp: replicate_req_def Let_def\<close>)+

lemma node_step_closing: "node_step n n' \<Longrightarrow> closing n' = closing n"
  using node_step_advances by (auto simp: advances_def)

interpretation nd: ordered_steps node_step advances "\<lambda>n. epoch n \<noteq> 0"
  by unfold_locales (use node_step_advances in blast, auto simp: advances_def)

interpretation nc: kept node_step "\<lambda>n. closing n = b" for b
  by unfold_locales (simp add: node_step_closing)


section \<open>A concrete cluster\<close>

text \<open>Three nodes, the leader gone; two followers that have heard nothing for ten seconds.\<close>

definition follower_ex :: "bytes \<Rightarrow> node" where
  "follower_ex a = (node_ex a 1 store_ex)\<lparr>role := Follower, leaderAddr := [0x33]\<rparr>"

abbreviation later :: int where "later \<equiv> 10000000000"

definition net_ex :: network where
  "net_ex a = (if a = [0x33] then Inl ErrIO else Inr (connection runtime_ex later [] (follower_ex a)))"

lemma follower_ex_fields:
  "role (follower_ex a) = Follower" "cID (cfg (follower_ex a)) = a" "cAddr (cfg (follower_ex a)) = a"
  "\<not> closing (follower_ex a)" "epoch (follower_ex a) = 1" "seq (kv (follower_ex a)) = 0"
  "length a < 2 ^ 20 \<Longrightarrow> small_names (follower_ex a)"
  by (simp_all add: follower_ex_def node_ex_def config_ex_def store_ex_def small_names_def)

lemma vote_ex: "requestVote net_ex [0x32] 0 (follower_ex [0x31]) = Inr (vote_of (follower_ex [0x32]) later [0x32])"
  by (rule requestVote_connection [where rt = runtime_ex and peer = "[]"])
     (simp_all add: net_ex_def follower_ex_fields)

lemma peers_ex: "peersExceptSelf (follower_ex [0x31]) = [[0x32], [0x33]]" "peersExceptSelf (follower_ex [0x32]) = [[0x31], [0x33]]"
  by (simp_all add: peersExceptSelf_def follower_ex_def node_ex_def config_ex_def)


theorem one_winner_witness:
  "\<not> (role (startElection net_ex later (follower_ex [0x31])) = Leader \<and>
      role (startElection net_ex later (follower_ex [0x32])) = Leader)"
  by (rule one_winner [where rt = runtime_ex and now = later and peer = "[]" and rt' = runtime_ex and now' = later and peer' = "[]"])
     (simp_all add: follower_ex_fields peers_ex net_ex_def)


section \<open>Observations\<close>

text \<open>
  A node that is promoted while it still reads a replication stream goes on obeying it: the stream's
  owner can make the new leader throw its state away.
\<close>

lemma promoted_node_obeys_stream:
  assumes "role n = Leader"
  shows "role (snd (follow_frame now addr [StatusFullSync] c n)) = Leader \<and>
    kv (snd (follow_frame now addr [StatusFullSync] c n)) = (snd (Reset (kv n)))\<lparr>outbox := []\<rparr>"
  using assms
  by (cases "Reset (kv n)") (auto simp: follow_frame_def statuses on_store_def setLastContact_def notified_keeps Let_def)

text \<open>
  A redirect that arrives after a promotion makes a leader advertise another node as the leader.
\<close>

lemma promoted_node_redirected:
  assumes "role n = Leader" and "length a < 2 ^ 20" and "a \<noteq> []" and "a \<noteq> addr"
  shows "role (snd (follow_frame now addr (StatusRedirect # str_enc a) c n)) = Leader \<and>
    leaderAddr (snd (follow_frame now addr (StatusRedirect # str_enc a) c n)) = a"
  using assms by (simp add: follow_frame_def statuses setLastContact_def NewDec_at codec Let_def)

end
