(* ===== verification/Lifecycle.thy ===== *)
theory Lifecycle
  imports Failover Recovery
begin

text \<open>
  The life of a node process, \<open>internal/node/node.go\<close>: construction on a data directory, start,
  the accept loop with its connections, and the staged shutdown; with it \<open>Close\<close> of the store,
  which releases the directory lock.

  A connection is a number. \<open>spawned\<close> are the goroutines the wait group counts and \<open>serving\<close> those
  inside \<open>serveConn\<close>; \<open>hung\<close> are the connections the node has closed, and \<open>swept\<close> says that a
  shutdown has got past \<open>closeAllConns\<close>.
\<close>

section \<open>Closing the store\<close>

definition StoreClose :: "ofile option \<Rightarrow> store \<times> os \<Rightarrow> (store \<times> os, unit) res" where
  "StoreClose lk sk = (case sk of (s, k) \<Rightarrow>
     if closed s then (Inr (), (s, k))
     else (case CloseStore s of (r, s) \<Rightarrow>
       let k = releaseLock lk (k\<lparr>osfs := disk s\<rparr>) in (r, (s\<lparr>disk := osfs k\<rparr>, k))))"

section \<open>The process\<close>

record daemon =
  dnode :: node
  dln :: "bytes option"
  dconns :: "nat list"
  hung :: "nat list"
  spawned :: "nat list"
  serving :: "nat list"
  dnConns :: int
  swept :: bool
  dlock :: "ofile option"
  machine :: os

text \<open>\<open>New\<close> on what \<open>engine.Open\<close> finds in the directory.\<close>

definition NewDaemon :: "Config \<Rightarrow> Options \<Rightarrow> bytes \<Rightarrow> nat \<Rightarrow> slheap \<Rightarrow> int \<Rightarrow> os \<Rightarrow> (error + daemon) \<times> os" where
  "NewDaemon c eo dirname pid h now k =
     (case Open eo dirname pid h k of
        (Inl er, k) \<Rightarrow> (Inl er, k)
      | (Inr (s, lk), k) \<Rightarrow>
          (case New c now (Inr s) of
             Inl er \<Rightarrow> (Inl er, k)
           | Inr n \<Rightarrow> (Inr \<lparr> dnode = n, dln = None, dconns = [], hung = [], spawned = [], serving = [], dnConns = 0,
                            swept = False, dlock = Some lk, machine = k \<rparr>, k)))"

text \<open>Closing the store of a process.\<close>

definition close_store :: "daemon \<Rightarrow> (daemon, unit) res" where
  "close_store d =
     (case StoreClose (dlock d) (kv (dnode d), machine d) of
        (r, (s, k)) \<Rightarrow> (r, d\<lparr>dnode := (dnode d)\<lparr>kv := s\<rparr>, machine := k\<rparr>))"

text \<open>\<open>Start\<close>: a listener from the configuration, or the outcome of \<open>net.Listen\<close>.\<close>

definition Start :: "bytes option \<Rightarrow> error + bytes \<Rightarrow> daemon \<Rightarrow> (daemon, unit) res" where
  "Start given listen d =
     (case given of
        Some a \<Rightarrow> (Inr (), d\<lparr>dln := Some a\<rparr>)
      | None \<Rightarrow>
          (case listen of
             Inl er \<Rightarrow> (Inl er, snd (close_store d))
           | Inr a \<Rightarrow> (Inr (), d\<lparr>dln := Some a\<rparr>)))"

section \<open>Connections\<close>

definition trackConn :: "nat \<Rightarrow> daemon \<Rightarrow> bool \<times> daemon" where
  "trackConn c d = (if closing (dnode d) then (False, d) else (True, d\<lparr>dconns := List.insert c (dconns d)\<rparr>))"

definition untrackConn :: "nat \<Rightarrow> daemon \<Rightarrow> daemon" where
  "untrackConn c d = d\<lparr>dconns := removeAll c (dconns d)\<rparr>"

definition closeAllConns :: "daemon \<Rightarrow> daemon" where
  "closeAllConns d = d\<lparr>hung := hung d @ dconns d, dconns := []\<rparr>"

text \<open>One turn of \<open>acceptLoop\<close>: whether the loop goes on.\<close>

datatype accepted = Conn nat | AcceptTimeout | AcceptError

definition accept_turn :: "accepted \<Rightarrow> daemon \<Rightarrow> bool \<times> daemon" where
  "accept_turn ev d = (case ev of
       Conn c \<Rightarrow>
         (case trackConn c d of
            (False, d) \<Rightarrow> (False, d\<lparr>hung := hung d @ [c]\<rparr>)
          | (True, d) \<Rightarrow> (True, d\<lparr>spawned := spawned d @ [c]\<rparr>))
     | AcceptTimeout \<Rightarrow> (\<not> closing (dnode d), d)
     | AcceptError \<Rightarrow> (False, d))"

text \<open>The goroutine of a connection around \<open>serveConn\<close>, which closes the connection when it returns.\<close>

definition conn_started :: "nat \<Rightarrow> daemon \<Rightarrow> daemon" where
  "conn_started c d = d\<lparr>serving := serving d @ [c], dnConns := dnConns d + 1\<rparr>"

definition conn_finished :: "nat \<Rightarrow> daemon \<Rightarrow> daemon" where
  "conn_finished c d =
     (let d = d\<lparr>hung := hung d @ [c], serving := removeAll c (serving d), dnConns := dnConns d - 1\<rparr>;
          d = untrackConn c d
      in d\<lparr>spawned := removeAll c (spawned d)\<rparr>)"

section \<open>Shutdown\<close>

text \<open>
  \<open>Close\<close> in its three stages: the flag, which other goroutines see at once, with the listener; the
  streams and connections; and what follows \<open>wg.Wait\<close>. The arguments of \<open>CloseNode\<close> are what the
  other goroutines do in between.
\<close>

definition close_mark :: "daemon \<Rightarrow> daemon" where
  "close_mark d = d\<lparr>dnode := (dnode d)\<lparr>closing := True\<rparr>, dln := None\<rparr>"

definition close_sweep :: "daemon \<Rightarrow> daemon" where
  "close_sweep d = (closeAllConns (d\<lparr>dnode := closeAllStreams (dnode d)\<rparr>))\<lparr>swept := True\<rparr>"

definition close_end :: "daemon \<Rightarrow> (daemon, unit) res" where
  "close_end d =
     (let n = dnode d in close_store (d\<lparr>dnode := n\<lparr>kv := cancelObserver (observer n) (kv n)\<rparr>\<rparr>))"

definition CloseNode :: "(daemon \<Rightarrow> daemon) \<Rightarrow> (daemon \<Rightarrow> daemon) \<Rightarrow> daemon \<Rightarrow> (daemon, unit) res" where
  "CloseNode others wait d =
     (if closing (dnode d) then (Inr (), d) else close_end (wait (close_sweep (others (close_mark d)))))"

section \<open>Runs of the process\<close>

text \<open>
  The steps of the goroutines. A new connection has a number not seen before; \<open>work\<close> is what
  requests, replication and elections do to the node. The only step that reads \<open>conns\<close> and the
  flag together is the critical section of \<open>trackConn\<close>; the rest of a turn of \<open>acceptLoop\<close> only
  touches its own goroutine, so that a turn is one step.
\<close>

inductive daemon_step :: "daemon \<Rightarrow> daemon \<Rightarrow> bool" where
  accept: "c \<notin> set (spawned d) \<union> set (hung d) \<Longrightarrow> accept_turn (Conn c) d = (b, d') \<Longrightarrow> daemon_step d d'"
| start: "c \<in> set (spawned d) \<Longrightarrow> c \<notin> set (serving d) \<Longrightarrow> daemon_step d (conn_started c d)"
| finish: "c \<in> set (serving d) \<Longrightarrow> daemon_step d (conn_finished c d)"
| work: "node_step (dnode d) n \<Longrightarrow> daemon_step d (d\<lparr>dnode := n\<rparr>)"
| mark: "\<not> closing (dnode d) \<Longrightarrow> daemon_step d (close_mark d)"
| sweep: "closing (dnode d) \<Longrightarrow> \<not> swept d \<Longrightarrow> daemon_step d (close_sweep d)"
| final: "swept d \<Longrightarrow> spawned d = [] \<Longrightarrow> daemon_step d (snd (close_end d))"

text \<open>
  The books are right: the counter is the number of connections being served; until the sweep of a
  shutdown the connections tracked are those of the goroutines, and after it every goroutine's
  connection has been closed.
\<close>

definition books_ok :: "daemon \<Rightarrow> bool" where
  "books_ok d \<longleftrightarrow> distinct (spawned d) \<and> distinct (serving d) \<and> set (serving d) \<subseteq> set (spawned d) \<and>
     dnConns d = int (length (serving d)) \<and>
     (if swept d then closing (dnode d) \<and> dconns d = [] \<and> set (spawned d) \<subseteq> set (hung d)
      else set (dconns d) = set (spawned d))"

lemma length_removeAll_distinct: "distinct xs \<Longrightarrow> c \<in> set xs \<Longrightarrow> int (length (removeAll c xs)) = int (length xs) - 1"
  by (induction xs) auto

lemma close_store_fields:
  "spawned (snd (close_store d)) = spawned d" "serving (snd (close_store d)) = serving d" "dnConns (snd (close_store d)) = dnConns d"
  "dconns (snd (close_store d)) = dconns d" "hung (snd (close_store d)) = hung d" "closing (dnode (snd (close_store d))) = closing (dnode d)"
  "swept (snd (close_store d)) = swept d"
  by (simp_all add: close_store_def split: prod.split)

lemma daemon_step_books:
  assumes "daemon_step d d'" and "books_ok d"
  shows "books_ok d'"
  using assms
proof (induction rule: daemon_step.induct)
  case (accept c d b d')
  then show ?case by (auto simp: accept_turn_def trackConn_def books_ok_def split: if_splits)
next
  case (start c d)
  then show ?case by (auto simp: conn_started_def books_ok_def)
next
  case (finish c d)
  then show ?case
    by (auto simp: conn_finished_def untrackConn_def books_ok_def Let_def length_removeAll_distinct distinct_removeAll)
next
  case (work d n)
  then show ?case using node_step_closing by (simp add: books_ok_def)
next
  case (mark d)
  then show ?case by (auto simp: close_mark_def books_ok_def)
next
  case (sweep d)
  then show ?case by (auto simp: close_sweep_def closeAllConns_def closeAllStreams_def books_ok_def)
next
  case (final d)
  then show ?case by (simp add: close_end_def close_store_fields books_ok_def Let_def)
qed

interpretation books: kept daemon_step books_ok
  by unfold_locales (rule daemon_step_books)

text \<open>A shutdown stays in effect, and no goroutine is started in one.\<close>

lemma daemon_step_closing:
  assumes "daemon_step d d'" and "closing (dnode d)"
  shows "closing (dnode d') \<and> set (spawned d') \<subseteq> set (spawned d)"
  using assms
proof (induction rule: daemon_step.induct)
  case (work d n)
  then show ?case using node_step_closing by simp
qed (auto simp: accept_turn_def trackConn_def conn_started_def conn_finished_def untrackConn_def close_mark_def
    close_sweep_def closeAllConns_def closeAllStreams_def close_end_def close_store_fields Let_def)

interpretation down: kept daemon_step "\<lambda>d. closing (dnode d) \<and> set (spawned d) \<subseteq> S" for S
  by unfold_locales (use daemon_step_closing in blast)

lemma NewDaemon_fresh:
  assumes "NewDaemon c eo dirname pid h now k = (Inr d, k')"
  shows "books_ok d" and "\<not> closing (dnode d)" and "spawned d = []"
  using assms
  by (auto simp: NewDaemon_def New_def Let_def books_ok_def split: prod.splits sum.splits)

text \<open>
  C29. No connection is missed by a shutdown: in every run of a process from its construction, once
  \<open>Close\<close> has set the flag no connection is taken on, and once it has swept the connections, every
  connection with a goroutine has been closed and none is tracked; the connection count is at every
  time the number of connections being served.
\<close>

theorem no_connection_missed:
  assumes "NewDaemon c eo dirname pid h now k = (Inr d, k')" and "daemon_step\<^sup>*\<^sup>* d d1"
    and "closing (dnode d1)" and "daemon_step\<^sup>*\<^sup>* d1 d2"
  shows "set (spawned d2) \<subseteq> set (spawned d1) \<and> dnConns d2 = int (length (serving d2)) \<and>
    (swept d2 \<longrightarrow> dconns d2 = [] \<and> set (spawned d2) \<subseteq> set (hung d2))"
proof -
  have "books_ok d2"
    using books.run_inv [OF assms(4) books.run_inv [OF assms(2) NewDaemon_fresh(1) [OF assms(1)]]] .
  moreover have "set (spawned d2) \<subseteq> set (spawned d1)" using down.run_inv [OF assms(4)] assms(3) by blast
  ultimately show ?thesis by (auto simp: books_ok_def split: if_splits)
qed

lemma NewDaemon_ex:
  "\<exists>d k'. NewDaemon (config_ex [0x31]) options_ex (lit ''d'') 7 [] 0 \<lparr> osfs = disk_torn, flocks = [] \<rparr> = (Inr d, k') \<and>
     spawned d = [] \<and> serving d = [] \<and> dconns d = [] \<and> hung d = [] \<and> \<not> swept d \<and> \<not> closing (dnode d)"
proof -
  have ok: "os_ok \<lparr> osfs = disk_torn, flocks = [] \<rparr>" "\<not> held \<lparr> osfs = disk_torn, flocks = [] \<rparr>" "lit ''d'' \<noteq> []"
    by (simp_all add: os_ok_def held_def disk_torn_def lit_def)
  have "good_dir (osfs \<lparr> osfs = disk_torn, flocks = [] \<rparr>) [1]" "good_hints (osfs \<lparr> osfs = disk_torn, flocks = [] \<rparr>) [1]"
    using disk_torn_good(1,2) by simp_all
  from Open_ok [OF ok this, of options_ex 7 "[]"] obtain s lk k' where
    "Open options_ex (lit ''d'') 7 [] \<lparr> osfs = disk_torn, flocks = [] \<rparr> = (Inr (s, lk), k')" by auto
  then show ?thesis by (simp add: NewDaemon_def New_def Let_def split: prod.split)
qed

text \<open>Two connections, one of them served; a shutdown closes both, and the first goroutine ends.\<close>

theorem no_connection_missed_witness:
  "\<exists>d k' d1 d2. NewDaemon (config_ex [0x31]) options_ex (lit ''d'') 7 [] 0 \<lparr> osfs = disk_torn, flocks = [] \<rparr> = (Inr d, k') \<and>
     daemon_step\<^sup>*\<^sup>* d d1 \<and> closing (dnode d1) \<and> daemon_step\<^sup>*\<^sup>* d1 d2 \<and> swept d2 \<and> spawned d2 = [2] \<and> dconns d2 = [] \<and> 2 \<in> set (hung d2)"
proof -
  from NewDaemon_ex obtain d k' where d: "NewDaemon (config_ex [0x31]) options_ex (lit ''d'') 7 [] 0 \<lparr> osfs = disk_torn, flocks = [] \<rparr> = (Inr d, k')"
    and e: "spawned d = []" "serving d = []" "dconns d = []" "hung d = []" "\<not> swept d" "\<not> closing (dnode d)" by blast
  define da where "da = snd (accept_turn (Conn 1) d)"
  define db where "db = snd (accept_turn (Conn 2) (conn_started 1 da))"
  define d2 where "d2 = conn_finished 1 (close_sweep (close_mark db))"
  note defs = accept_turn_def trackConn_def conn_started_def close_mark_def close_sweep_def closeAllConns_def closeAllStreams_def
    conn_finished_def untrackConn_def
  have a: "daemon_step d da" using e by (intro daemon_step.accept [of 1 d True]) (simp_all add: da_def defs)
  have b: "daemon_step da (conn_started 1 da)" using e by (intro daemon_step.start) (simp_all add: da_def defs)
  have c: "daemon_step (conn_started 1 da) db"
    using e by (intro daemon_step.accept [of 2 _ True]) (simp_all add: db_def da_def defs)
  have m: "daemon_step db (close_mark db)" using e by (intro daemon_step.mark) (simp add: db_def da_def defs)
  have s: "daemon_step (close_mark db) (close_sweep (close_mark db))"
    using e by (intro daemon_step.sweep) (simp_all add: db_def da_def defs)
  have f: "daemon_step (close_sweep (close_mark db)) d2"
    unfolding d2_def using e by (intro daemon_step.finish) (simp add: db_def da_def defs)
  have r1: "daemon_step\<^sup>*\<^sup>* d (close_mark db)" using a b c m by (meson converse_rtranclp_into_rtranclp r_into_rtranclp)
  have r2: "daemon_step\<^sup>*\<^sup>* (close_mark db) d2" using s f by (meson converse_rtranclp_into_rtranclp r_into_rtranclp)
  have cl: "closing (dnode (close_mark db))" by (simp add: close_mark_def)
  have "swept d2" "spawned d2 = [2]" using e by (simp_all add: d2_def db_def da_def defs Let_def)
  then show ?thesis using no_connection_missed [OF d r1 cl r2] d r1 cl r2 by auto
qed

end
