(* ===== verification/Spec2Isabelle.thy ===== *)
theory Spec2Isabelle
  imports Crash Compaction Client Lifecycle
begin

text \<open>
  gokv is a replicated key-value store: a log-structured storage engine
  (\<open>src/internal/engine\<close>), a wire protocol (\<open>src/internal/proto\<close>), a server with
  leader/follower replication and failover (\<open>src/internal/node\<close>) and a client
  (\<open>src/client\<close>).
\<close>

end
